(* ===== verification/Gate_Prelude.thy ===== *)
theory Gate_Prelude
  imports Main "HOL-Library.Word" "HOL-Library.Char_ord"
begin

text \<open>
  What every component shares: the names of the C integer types, C strings in
  fixed buffers, the loops that look for a first or a last index, the
  wrap-around comparisons of the 32-bit millisecond clock, and two interfaces:
  a machine whose steps keep an invariant, and a retry timer.

  Conventions of the whole library.
  \<^item> \<open>uintN_t\<close> is \<open>N word\<close>, so its arithmetic wraps as in C.  \<open>int64_t\<close> and
    \<open>int32_t\<close> are \<open>int\<close>: signed overflow is undefined in C, so on every defined
    execution the mathematical value is the value of the program, and every
    conversion to an unsigned type is written out (\<open>word_of_int\<close>, \<open>uint\<close>).
  \<^item> \<open>size_t\<close> counters that are bounded by the arrays they index are \<open>nat\<close>.
  \<^item> A \<open>char\<close> array is a list of its characters, the NUL bytes included; a
    \<open>const char *\<close> is the list of the characters before its terminator.
  \<^item> A data pointer the code compares with \<open>NULL\<close> is an \<open>option\<close>.  A context
    pointer is the state itself, passed and returned, so the guard
    \<open>ctx == NULL\<close> has no counterpart.
  \<^item> An index that the code returns as \<open>-1\<close> when there is none is a \<open>nat option\<close>.
\<close>

unbundle bit_operations_syntax

type_synonym u8 = "8 word"
type_synonym u16 = "16 word"
type_synonym u32 = "32 word"
type_synonym u64 = "64 word"
type_synonym i64 = int
type_synonym i32 = int

named_theorems inv_defs \<open>unfolding of the component invariants\<close>
named_theorems clock_simps \<open>comparisons of the 32-bit millisecond clock\<close>


section \<open>C strings\<close>

abbreviation NUL :: char where
  "NUL \<equiv> CHR 0x00"

text \<open>The characters before the first NUL.\<close>

definition cstr :: "string \<Rightarrow> string" where
  "cstr s = takeWhile (\<lambda>c. c \<noteq> NUL) s"

text \<open>\<open>strncmp(a, b, n) == 0\<close>.\<close>

definition strncmp_eq :: "string \<Rightarrow> string \<Rightarrow> nat \<Rightarrow> bool" where
  "strncmp_eq a b n \<longleftrightarrow> cstr (take n a) = cstr (take n b)"

text \<open>The \<open>n\<close> bytes that \<open>strncpy(dst, s, n)\<close> writes: the string, cut at \<open>n\<close> or
  padded with NUL up to \<open>n\<close>.\<close>

definition strncpy_bytes :: "nat \<Rightarrow> string \<Rightarrow> string" where
  "strncpy_bytes n s = take n (cstr s @ replicate n NUL)"

lemma cstr_Nil [simp]: "cstr [] = []"
  by (simp add: cstr_def)

lemma cstr_Cons [simp]: "cstr (c # s) = (if c = NUL then [] else c # cstr s)"
  by (simp add: cstr_def)

lemma cstr_no_NUL [simp]: "NUL \<notin> set (cstr s)"
  by (induction s) auto

lemma cstr_id: "NUL \<notin> set s \<Longrightarrow> cstr s = s"
  by (induction s) auto

lemma cstr_cstr [simp]: "cstr (cstr s) = cstr s"
  by (simp add: cstr_id)

lemma cstr_append: "cstr (s @ t) = (if NUL \<in> set s then cstr s else cstr s @ cstr t)"
  by (induction s) auto

lemma cstr_replicate_NUL [simp]: "cstr (replicate n NUL) = []"
  by (cases n) auto

lemma length_cstr_le: "length (cstr s) \<le> length s"
  by (simp add: cstr_def length_takeWhile_le)

lemma length_cstr_less: "NUL \<in> set s \<Longrightarrow> length (cstr s) < length s"
  by (induction s) auto

lemma cstr_take_self: "length (cstr s) < n \<Longrightarrow> cstr (take n s) = cstr s"
proof (induction s arbitrary: n)
  case (Cons c s)
  then show ?case by (cases n) auto
qed simp

lemma cstr_take: "cstr (take n s) = take n (cstr s)"
proof (induction s arbitrary: n)
  case (Cons c s)
  then show ?case by (cases n) auto
qed simp

lemma strncmp_eq_take: "strncmp_eq a b n \<longleftrightarrow> take n (cstr a) = take n (cstr b)"
  by (simp add: strncmp_eq_def cstr_take)

lemma length_strncpy_bytes [simp]: "length (strncpy_bytes n s) = n"
  by (simp add: strncpy_bytes_def)

lemma cstr_strncpy_bytes: "cstr (strncpy_bytes n s) = take n (cstr s)"
  by (simp add: strncpy_bytes_def cstr_take cstr_append)

lemma cstr_strncpy_NUL [simp]: "cstr (strncpy_bytes n s @ [NUL]) = take n (cstr s)"
  by (simp add: cstr_append cstr_strncpy_bytes)

lemma NUL_notin_cstr_append: "cstr (cstr s @ NUL # t) = cstr s"
  by (simp add: cstr_append)

text \<open>A range of characters written out.\<close>

definition chars_between :: "char \<Rightarrow> char \<Rightarrow> string" where
  "chars_between a b = map char_of [of_char a ..< Suc (of_char b) :: nat]"

lemma char_range: "a \<le> x \<and> x \<le> b \<longleftrightarrow> x \<in> set (chars_between a b)"
proof
  assume "a \<le> x \<and> x \<le> b"
  then have "char_of (of_char x :: nat) \<in> set (chars_between a b)"
    unfolding chars_between_def set_map by (intro imageI) (auto simp: less_eq_char_def)
  then show "x \<in> set (chars_between a b)" by simp
next
  assume "x \<in> set (chars_between a b)"
  then obtain n :: nat where n: "x = char_of n" "of_char a \<le> n" "n \<le> of_char b"
    by (auto simp: chars_between_def)
  have "of_char b < (256 :: nat)" by (rule nat_of_char_less_256)
  then have "n < 256" using n(3) by linarith
  then have "of_char x = n" using n(1) by (simp only: of_char_of) simp
  with n show "a \<le> x \<and> x \<le> b" by (simp add: less_eq_char_def)
qed

lemma chars_between_simps [simp]:
  "chars_between CHR ''0'' CHR ''9'' = ''0123456789''"
  "chars_between CHR ''A'' CHR ''D'' = ''ABCD''"
  "chars_between CHR ''a'' CHR ''f'' = ''abcdef''"
  "chars_between CHR ''A'' CHR ''F'' = ''ABCDEF''"
  by code_simp+


section \<open>Loops over an array\<close>

text \<open>\<open>for (i = 0; i < n; i++) if (P(a[i])) return i; return -1;\<close>\<close>

fun first_index :: "('a \<Rightarrow> bool) \<Rightarrow> 'a list \<Rightarrow> nat option" where
  "first_index P [] = None"
| "first_index P (x # xs) = (if P x then Some 0 else map_option Suc (first_index P xs))"

text \<open>\<open>m = -1; for (i = 0; i < n; i++) if (P(a[i])) m = i;\<close>\<close>

definition last_index_of :: "('a \<Rightarrow> bool) \<Rightarrow> 'a list \<Rightarrow> nat option" where
  "last_index_of P xs = fold (\<lambda>i m. if P (xs ! i) then Some i else m) [0..<length xs] None"

text \<open>\<open>n = 0; for (i = 0; i < len; i++) if (P(a[i])) n++;\<close>\<close>

fun count_if :: "('a \<Rightarrow> bool) \<Rightarrow> 'a list \<Rightarrow> nat" where
  "count_if P [] = 0"
| "count_if P (x # xs) = (if P x then 1 else 0) + count_if P xs"

lemma first_index_Some:
  "first_index P xs = Some i \<longleftrightarrow> i < length xs \<and> P (xs ! i) \<and> (\<forall>j<i. \<not> P (xs ! j))"
proof (induction xs arbitrary: i)
  case (Cons x xs)
  show ?case
  proof (cases i)
    case 0
    then show ?thesis by auto
  next
    case (Suc k)
    then show ?thesis using Cons.IH [of k] by (auto simp: All_less_Suc2)
  qed
qed simp

lemma first_index_None: "first_index P xs = None \<longleftrightarrow> (\<forall>x\<in>set xs. \<not> P x)"
  by (induction xs) auto

lemma first_index_SomeD:
  assumes "first_index P xs = Some i"
  shows "i < length xs" "P (xs ! i)"
  using assms by (auto simp: first_index_Some)

lemma first_index_NoneD: "first_index P xs = None \<Longrightarrow> i < length xs \<Longrightarrow> \<not> P (xs ! i)"
  by (simp add: first_index_None)

lemma last_index_of_snoc:
  "last_index_of P (xs @ [x]) = (if P x then Some (length xs) else last_index_of P xs)"
proof -
  have "fold (\<lambda>i m. if P ((xs @ [x]) ! i) then Some i else m) [0..<length xs] None
    = last_index_of P xs"
    unfolding last_index_of_def
    by (rule fold_cong) (auto simp: nth_append)
  then show ?thesis by (simp add: last_index_of_def)
qed

lemma last_index_of_SomeD:
  assumes "last_index_of P xs = Some i"
  shows "i < length xs" "P (xs ! i)" "i < j \<Longrightarrow> j < length xs \<Longrightarrow> \<not> P (xs ! j)"
proof -
  have "i < length xs \<and> P (xs ! i) \<and> (\<forall>j. i < j \<and> j < length xs \<longrightarrow> \<not> P (xs ! j))"
    using assms
  proof (induction xs arbitrary: i rule: rev_induct)
    case Nil
    then show ?case by (simp add: last_index_of_def)
  next
    case (snoc x xs)
    show ?case
    proof (cases "P x")
      case True
      with snoc.prems show ?thesis by (auto simp: last_index_of_snoc)
    next
      case False
      with snoc.prems have "last_index_of P xs = Some i" by (simp add: last_index_of_snoc)
      then have "i < length xs" "P (xs ! i)"
          "\<forall>j. i < j \<and> j < length xs \<longrightarrow> \<not> P (xs ! j)"
        using snoc.IH by auto
      with False show ?thesis by (simp add: nth_append)
    qed
  qed
  then show "i < length xs" "P (xs ! i)" "i < j \<Longrightarrow> j < length xs \<Longrightarrow> \<not> P (xs ! j)" by auto
qed

lemma last_index_of_None: "last_index_of P xs = None \<longleftrightarrow> (\<forall>x\<in>set xs. \<not> P x)"
proof (induction xs rule: rev_induct)
  case Nil
  show ?case by (simp add: last_index_of_def)
next
  case (snoc x xs)
  then show ?case by (auto simp: last_index_of_snoc)
qed

lemma last_index_of_unique:
  assumes "i < length xs" "P (xs ! i)" "\<And>j. j < length xs \<Longrightarrow> P (xs ! j) \<Longrightarrow> j = i"
  shows "last_index_of P xs = Some i"
proof (cases "last_index_of P xs")
  case None
  with assms(1,2) show ?thesis by (simp add: last_index_of_None)
next
  case (Some k)
  then have "k < length xs" "P (xs ! k)" by (rule last_index_of_SomeD)+
  then have "k = i" by (rule assms(3))
  with Some show ?thesis by simp
qed

lemma count_if_length_filter: "count_if P xs = length (filter P xs)"
  by (induction xs) auto

lemma count_if_le: "count_if P xs \<le> length xs"
  by (simp add: count_if_length_filter)


section \<open>Bits\<close>

lemma and_push_bit_1: "x AND push_bit i 1 = 0 \<longleftrightarrow> \<not> bit (x :: 'a :: len word) i"
  using bit_imp_le_length [of x i] by (subst bit_eq_iff) (auto simp: bit_simps)

text \<open>\<open>diff = 0; for (i) diff |= a[i] ^ b[i];\<close> is zero exactly when nothing differs.\<close>

lemma xor_eq_0_iff_word: "(x :: 'a :: len word) XOR y = 0 \<longleftrightarrow> x = y"
  by (metis bit.xor_left_self bit.xor_self)

lemma fold_or_eq_0:
  "fold (\<lambda>i d. d OR f i) [0..<n] (d0 :: 'a :: len word) = 0 \<longleftrightarrow> d0 = 0 \<and> (\<forall>i<n. f i = 0)"
  by (induction n) (auto simp: or_eq_0_iff less_Suc_eq)

lemma fold_or_xor_eq_0:
  "fold (\<lambda>i d. d OR (a ! i XOR b ! i)) [0..<n] (0 :: 'a :: len word) = 0
     \<longleftrightarrow> (\<forall>i<n. a ! i = b ! i)"
  by (simp add: fold_or_eq_0 xor_eq_0_iff_word)

lemma take_eq_iff_nth:
  assumes "n \<le> length a" "n \<le> length b"
  shows "take n a = take n b \<longleftrightarrow> (\<forall>i<n. a ! i = b ! i)"
  using assms by (auto simp: list_eq_iff_nth_eq)


section \<open>The millisecond clock\<close>

text \<open>
  \<open>now_ms\<close> is a \<open>uint32_t\<close> that wraps every 49.7 days.  The code compares it in
  two ways: an elapsed time \<open>(uint32_t)(now - since)\<close> against a span, and a
  signed difference \<open>(int32_t)(now - deadline)\<close> against zero.  Real time is a
  \<open>nat\<close> of milliseconds; \<open>of_nat\<close> is the reading of the counter.
\<close>

lemma sint_u32:
  "sint (w :: u32) = (if unat w < 2 ^ 31 then int (unat w) else int (unat w) - 2 ^ 32)"
proof -
  define u where "u = uint w"
  have u: "0 \<le> u" "u < 2 ^ 32" using uint_lt2p [of w] by (simp_all add: u_def)
  have b: "bit u 31 \<longleftrightarrow> 2 ^ 31 \<le> u"
  proof (cases "2 ^ 31 \<le> u")
    case True
    then have "u div 2 ^ 31 = 1" using u by simp
    then show ?thesis using True by (simp add: bit_iff_odd)
  next
    case False
    then have "u div 2 ^ 31 = 0" using u by simp
    then show ?thesis using False by (simp add: bit_iff_odd)
  qed
  have "sint w = take_bit 32 u - 2 ^ 32 * of_bool (bit u 31)"
    by (simp add: sint_uint signed_take_bit_eq_take_bit_minus u_def)
  also have "take_bit 32 u = u" using u by (simp add: take_bit_int_eq_self)
  finally have "sint w = u - 2 ^ 32 * of_bool (2 ^ 31 \<le> u)" by (simp add: b)
  moreover have "unat w < 2 ^ 31 \<longleftrightarrow> u < 2 ^ 31"
    using of_nat_less_iff [of "unat w" "2 ^ 31", where 'a = int] by (simp add: u_def)
  ultimately show ?thesis by (auto simp: u_def)
qed

lemma sint_nonneg_u32 [clock_simps]: "0 \<le> sint (w :: u32) \<longleftrightarrow> unat w < 2 ^ 31"
  using uint_lt2p [of w] by (simp add: sint_u32)

lemma sint_nonpos_u32 [clock_simps]: "sint (w :: u32) \<le> 0 \<longleftrightarrow> w = 0 \<or> 2 ^ 31 \<le> unat w"
  using uint_lt2p [of w] by (auto simp: sint_u32 uint_0_iff)

lemma sint_pos_u32 [clock_simps]: "0 < sint (w :: u32) \<longleftrightarrow> w \<noteq> 0 \<and> unat w < 2 ^ 31"
  using sint_nonpos_u32 [of w] by linarith

lemma unat_of_nat_diff [clock_simps]:
  assumes "t0 \<le> t" "t - t0 < 2 ^ 32"
  shows "unat (of_nat t - of_nat t0 :: u32) = t - t0"
proof -
  have "of_nat t - of_nat t0 = (of_nat (t - t0) :: u32)"
    using assms(1) by simp
  then show ?thesis using assms(2) by (simp only: unat_of_nat) (simp add: take_bit_nat_eq_self)
qed

lemma unat_neg_u32: "x \<noteq> 0 \<Longrightarrow> unat (- x :: u32) = 2 ^ 32 - unat x"
  using unat_sub_if_size [of 0 x] by (simp add: word_size unat_eq_zero)

lemma unat_of_nat_u32: "n < 2 ^ 32 \<Longrightarrow> unat (of_nat n :: u32) = n"
  by (simp only: unat_of_nat) (simp add: take_bit_nat_eq_self)

text \<open>A deadline armed \<open>w\<close> milliseconds ahead, asked \<open>d\<close> milliseconds later.\<close>

lemma deadline_passed:
  assumes "w < 2 ^ 31" "d < w + 2 ^ 31"
  shows "sint (of_nat t + of_nat w - of_nat (t + d) :: u32) \<le> 0 \<longleftrightarrow> w \<le> d"
proof (cases "w \<le> d")
  case True
  have x: "of_nat t + of_nat w - of_nat (t + d) = (- (of_nat (d - w)) :: u32)"
    using True by simp
  have u: "unat (of_nat (d - w) :: u32) = d - w"
    using assms(2) True by (intro unat_of_nat_u32) simp
  show ?thesis
  proof (cases "d = w")
    case False
    with True u have "(of_nat (d - w) :: u32) \<noteq> 0" by (metis unat_0 diff_is_0_eq le_antisym)
    then have "unat (- of_nat (d - w) :: u32) = 2 ^ 32 - (d - w)" using unat_neg_u32 u by metis
    then have "2 ^ 31 \<le> unat (- of_nat (d - w) :: u32)" using assms(2) True by simp
    then show ?thesis using True by (simp only: x sint_nonpos_u32) simp
  qed simp
next
  case False
  then have x: "of_nat t + of_nat w - of_nat (t + d) = (of_nat (w - d) :: u32)" by simp
  have u: "unat (of_nat (w - d) :: u32) = w - d"
    using assms(1) by (intro unat_of_nat_u32) simp
  with False have "(of_nat (w - d) :: u32) \<noteq> 0" by (metis unat_0 diff_is_0_eq)
  then show ?thesis using False assms(1) by (simp only: x sint_nonpos_u32 u) simp
qed


section \<open>Interface: a machine that keeps an invariant\<close>

text \<open>
  A component whose operations are collected in one step function, with an
  invariant that every step on legal data keeps.  A run is \<open>foldl step\<close> over the events.
\<close>

locale machine =
  fixes step :: "'s \<Rightarrow> 'e \<Rightarrow> 's"
    and inv :: "'s \<Rightarrow> bool"
    and legal :: "'e \<Rightarrow> bool"
  assumes step_inv: "inv s \<Longrightarrow> legal e \<Longrightarrow> inv (step s e)"
begin

lemma run_inv: "inv s \<Longrightarrow> list_all legal es \<Longrightarrow> inv (foldl step s es)"
  by (induction es arbitrary: s) (auto intro: step_inv)

lemma run_prefix_inv: "inv s \<Longrightarrow> list_all legal es \<Longrightarrow> inv (foldl step s (take n es))"
  by (rule run_inv) (auto simp: list_all_iff dest: in_set_takeD)

text \<open>What one legal step guarantees from every good state holds along every run.\<close>

lemma run_step_holds:
  assumes "\<And>s e. inv s \<Longrightarrow> legal e \<Longrightarrow> P s e (step s e)"
    and "inv s" "list_all legal (es @ [e])"
  shows "P (foldl step s es) e (foldl step s (es @ [e]))"
  using assms(1) [OF run_inv [OF assms(2)]] assms(3) by simp

end


section \<open>Interface: a retry timer\<close>

text \<open>
  Three components wait before they try again: the Wi-Fi link (\<open>net_retry\<close>), the
  Telegram poll (\<open>tg_poll\<close>) and the code-set poll (\<open>sync_logic\<close>).  Each has a
  query that says whether an attempt is due and an operation that records the
  outcome of one and arms the next deadline \<open>wait\<close> milliseconds later.
\<close>

locale retry_timer =
  fixes due :: "'s \<Rightarrow> u32 \<Rightarrow> bool"
    and record_it :: "'s \<Rightarrow> 'o \<Rightarrow> u32 \<Rightarrow> 's"
    and wait :: "'s \<Rightarrow> 'o \<Rightarrow> u32"
    and ok :: "'s \<Rightarrow> bool"
    and floor_ms :: nat
  assumes due_record: "ok s \<Longrightarrow> due (record_it s r t) t' \<longleftrightarrow> 0 \<le> sint (t' - (t + wait s r))"
    and ok_record: "ok s \<Longrightarrow> ok (record_it s r t)"
    and floor_le_wait: "ok s \<Longrightarrow> floor_ms \<le> unat (wait s r)"
    and wait_small: "ok s \<Longrightarrow> unat (wait s r) < 2 ^ 31"
begin

text \<open>The attempt is due exactly when its interval has passed, whatever the counter
  reads, for the next 24.8 days.\<close>

lemma due_iff_waited:
  assumes "ok s" "d < unat (wait s r) + 2 ^ 31"
  shows "due (record_it s r (of_nat t)) (of_nat (t + d)) \<longleftrightarrow> unat (wait s r) \<le> d"
proof (cases "unat (wait s r) \<le> d")
  case True
  let ?w = "unat (wait s r)"
  have "of_nat (t + d) - (of_nat t + wait s r) = (of_nat d - of_nat ?w :: u32)"
    by simp
  moreover have "unat (of_nat d - of_nat ?w :: u32) = d - ?w"
    using assms True by (intro unat_of_nat_diff) auto
  ultimately show ?thesis using assms True by (simp add: due_record sint_nonneg_u32)
next
  case False
  let ?w = "unat (wait s r)"
  have "of_nat (t + d) - (of_nat t + wait s r) = (of_nat d - of_nat ?w :: u32)"
    by simp
  moreover have "(of_nat d - of_nat ?w :: u32) = - (of_nat ?w - of_nat d)" by simp
  moreover have "unat (of_nat ?w - of_nat d :: u32) = ?w - d"
    using False wait_small [OF assms(1), of r] by (intro unat_of_nat_diff) auto
  moreover from calculation(3) have "(of_nat ?w - of_nat d :: u32) \<noteq> 0"
    using False by (metis unat_0 not_le less_irrefl zero_less_diff)
  ultimately have "unat (of_nat (t + d) - (of_nat t + wait s r)) = 2 ^ 32 - (?w - d)"
    by (metis unat_neg_u32)
  then have "\<not> unat (of_nat (t + d) - (of_nat t + wait s r)) < 2 ^ 31"
    using wait_small [OF assms(1), of r] by simp
  then show ?thesis using assms(1) False by (simp add: due_record sint_nonneg_u32)
qed

lemma due_only_after_wait:
  assumes "ok s" "t0 \<le> t" "due (record_it s r (of_nat t0)) (of_nat t)"
  shows "unat (wait s r) \<le> t - t0"
proof (rule ccontr)
  assume n: "\<not> ?thesis"
  then have "t - t0 < unat (wait s r) + 2 ^ 31" by simp
  from due_iff_waited [OF assms(1) this, of t0] n assms(2,3) show False by simp
qed

text \<open>
  A run of attempts: \<open>ts\<close> are the real times of attempts that were due, each with
  its outcome, after a first one at \<open>t0\<close>.
\<close>

fun attempts :: "'s \<Rightarrow> nat \<Rightarrow> (nat \<times> 'o) list \<Rightarrow> bool" where
  "attempts s t0 [] \<longleftrightarrow> True"
| "attempts s t0 (tr # ts) \<longleftrightarrow>
     t0 \<le> fst tr \<and> due s (of_nat (fst tr)) \<and>
     attempts (record_it s (snd tr) (of_nat (fst tr))) (fst tr) ts"

text \<open>No hammering: \<open>n\<close> attempts take at least \<open>n\<close> times the floor.\<close>

lemma attempts_spaced:
  assumes "ok s" "attempts (record_it s r (of_nat t0)) t0 ts"
  shows "t0 + length ts * floor_ms \<le> last (t0 # map fst ts)"
  using assms
proof (induction ts arbitrary: s t0 r)
  case (Cons tr ts)
  obtain t r' where tr: "tr = (t, r')" by (cases tr)
  let ?s = "record_it s r (of_nat t0)"
  from Cons.prems have "t0 \<le> t" "due ?s (of_nat t)" "attempts (record_it ?s r' (of_nat t)) t ts"
    by (auto simp: tr)
  moreover have "unat (wait s r) \<le> t - t0"
    using Cons.prems(1) calculation(1,2) by (rule due_only_after_wait)
  moreover have "t + length ts * floor_ms \<le> last (t # map fst ts)"
    using Cons.prems(1) calculation(3) by (intro Cons.IH [of ?s r']) (auto intro: ok_record)
  ultimately show ?case using floor_le_wait [OF Cons.prems(1), of r] by (auto simp: tr)
qed simp

end

end
