(* ===== verification/Code_Table.thy ===== *)
theory Code_Table
  imports Gate_Prelude
begin

text \<open>
  The interface between the code table and the channels that fill it: a bounded
  map from code ids to entries.  \<open>put\<close> replaces by id or takes free room and says
  whether the entry is now held; \<open>del\<close> removes by id and says whether something
  was there.  The delivery channels only rely on these laws; the table of
  \<open>access_core\<close> is shown to satisfy them in \<open>Access_Core\<close>.
\<close>

locale code_table =
  fixes lookup :: "'t \<Rightarrow> string \<Rightarrow> 'e option"
    and put :: "'t \<Rightarrow> string \<Rightarrow> 'e \<Rightarrow> 't \<times> bool"
    and del :: "'t \<Rightarrow> string \<Rightarrow> 't \<times> bool"
    and inv :: "'t \<Rightarrow> bool"
    and good :: "string \<Rightarrow> 'e \<Rightarrow> bool"
    and cap :: nat
  assumes put_room: "inv t \<Longrightarrow> good k e \<Longrightarrow> k \<in> dom (lookup t) \<or> card (dom (lookup t)) < cap
      \<Longrightarrow> snd (put t k e) \<and> lookup (fst (put t k e)) = (lookup t)(k \<mapsto> e)"
    and put_full: "inv t \<Longrightarrow> good k e \<Longrightarrow> k \<notin> dom (lookup t) \<Longrightarrow> cap \<le> card (dom (lookup t))
      \<Longrightarrow> put t k e = (t, False)"
    and del_lookup: "inv t \<Longrightarrow> lookup (fst (del t k)) = (lookup t)(k := None)"
    and del_found: "inv t \<Longrightarrow> snd (del t k) \<longleftrightarrow> k \<in> dom (lookup t)"
    and inv_put: "inv t \<Longrightarrow> good k e \<Longrightarrow> inv (fst (put t k e))"
    and inv_del: "inv t \<Longrightarrow> inv (fst (del t k))"
    and fin: "inv t \<Longrightarrow> finite (dom (lookup t))"
begin

text \<open>A later put of the same id leaves one entry: a repeated delivery is idempotent.\<close>

lemma put_again:
  assumes "inv t" "good k e" "good k e'" "k \<in> dom (lookup t) \<or> card (dom (lookup t)) < cap"
  shows "lookup (fst (put (fst (put t k e)) k e')) = (lookup t)(k \<mapsto> e')"
  using assms put_room [OF assms(1,2,4)] put_room [of "fst (put t k e)" k e']
  by (auto simp: inv_put)

text \<open>An add followed by a revoke of the same id leaves the table without it.\<close>

lemma del_put:
  assumes "inv t" "good k e" "k \<in> dom (lookup t) \<or> card (dom (lookup t)) < cap"
  shows "lookup (fst (del (fst (put t k e)) k)) = (lookup t)(k := None)"
  using assms put_room [OF assms] by (simp add: del_lookup inv_put)

text \<open>Installing a delivered list in the order received; the flag says that
  something did not fit.\<close>

fun install :: "'t \<Rightarrow> (string \<times> 'e) list \<Rightarrow> 't \<times> bool" where
  "install t [] = (t, False)"
| "install t (ke # kes) =
     (let (t1, held) = put t (fst ke) (snd ke); (t2, lost) = install t1 kes
      in (t2, \<not> held \<or> lost))"

lemma install_inv:
  "inv t \<Longrightarrow> (\<forall>(k, e) \<in> set kes. good k e) \<Longrightarrow> inv (fst (install t kes))"
proof (induction kes arbitrary: t)
  case (Cons ke kes)
  then have "inv (fst (put t (fst ke) (snd ke)))" by (auto intro: inv_put)
  with Cons show ?case by (auto simp: split_def Let_def)
qed simp

lemma install_spec:
  assumes "inv t" "\<forall>(k, e) \<in> set kes. good k e" "distinct (map fst kes)"
    "\<forall>k \<in> fst ` set kes. lookup t k = None"
  shows "lookup (fst (install t kes)) =
      lookup t ++ map_of (take (cap - card (dom (lookup t))) kes)
    \<and> (snd (install t kes) \<longleftrightarrow> cap - card (dom (lookup t)) < length kes)"
  using assms
proof (induction kes arbitrary: t)
  case Nil
  then show ?case by simp
next
  case (Cons ke kes)
  obtain k e where ke: "ke = (k, e)" by (cases ke)
  note p = Cons.prems [unfolded ke]
  let ?room = "cap - card (dom (lookup t))"
  show ?case
  proof (cases "card (dom (lookup t)) < cap")
    case True
    let ?t1 = "fst (put t k e)"
    let ?rest = "map_of (take (cap - card (dom (lookup ?t1))) kes)"
    have put: "snd (put t k e)" "lookup ?t1 = (lookup t)(k \<mapsto> e)"
      using put_room [of t k e] p True by auto
    have "k \<notin> dom (lookup t)" using p(4) by auto
    then have c: "card (dom (lookup ?t1)) = Suc (card (dom (lookup t)))"
      using put(2) fin [OF p(1)] by simp
    have I: "lookup (fst (install ?t1 kes)) = lookup ?t1 ++ ?rest
        \<and> (snd (install ?t1 kes) \<longleftrightarrow> cap - card (dom (lookup ?t1)) < length kes)"
      using p put by (intro Cons.IH) (auto intro: inv_put)
    have r: "?room = Suc (cap - card (dom (lookup ?t1)))" using True c by simp
    have nk: "k \<notin> dom ?rest"
      using p(3) by (auto simp: dom_map_of_conv_image_fst dest: in_set_takeD)
    have "lookup ?t1 ++ ?rest = (lookup t ++ ?rest)(k \<mapsto> e)"
      using nk by (simp add: put(2) map_add_upd_left)
    also have "\<dots> = lookup t ++ map_of (take ?room (ke # kes))"
      by (subst r) (simp add: ke)
    finally have "lookup ?t1 ++ ?rest = lookup t ++ map_of (take ?room (ke # kes))" .
    then have C: "lookup (fst (install ?t1 kes)) = lookup t ++ map_of (take ?room (ke # kes))"
      using I by simp
    have B: "snd (install ?t1 kes) \<longleftrightarrow> ?room < length (ke # kes)" using I r by simp
    have A: "fst (install t (ke # kes)) = fst (install ?t1 kes)"
      "snd (install t (ke # kes)) = snd (install ?t1 kes)"
      using put(1) by (simp_all add: ke split_def Let_def)
    show ?thesis by (simp only: A B C)
  next
    case False
    have full: "put t k e = (t, False)"
      using p False by (intro put_full) auto
    have "lookup (fst (install t kes)) = lookup t ++ map_of (take ?room kes)"
      using Cons.IH [of t] p by auto
    then show ?thesis using full False ke by (simp add: split_def Let_def)
  qed
qed

text \<open>
  Fresh, distinct ids: exactly the first entries that fit are held, in the order
  received, and the flag is raised exactly when the list is longer than the room.
\<close>

lemmas install_fills = install_spec [THEN conjunct1]
lemmas install_overflow = install_spec [THEN conjunct2]

end

end
