(* ===== verification/Access_Core.thy ===== *)
theory Access_Core
  imports Code_Table
begin

text \<open>
  \<^verbatim>\<open>components/access_core\<close>: the decision logic of the gate.  The table of code
  slots, the attempt counter with its lockout, and \<open>ac_evaluate\<close>, the verdict
  on one typed code.  Then the invariant of the table, the map it implements,
  and the interface \<open>code_table\<close> through which the delivery channels use it.
\<close>

section \<open>Data\<close>

abbreviation AC_HASH_LEN :: nat where "AC_HASH_LEN \<equiv> 32"
abbreviation AC_ID_LEN :: nat where "AC_ID_LEN \<equiv> 9"
abbreviation AC_MAX_SLOTS :: nat where "AC_MAX_SLOTS \<equiv> 5"
abbreviation AC_CODE_LEN :: nat where "AC_CODE_LEN \<equiv> 9"
abbreviation AC_REQUIRED_DIGITS :: nat where "AC_REQUIRED_DIGITS \<equiv> 6"
abbreviation AC_REQUIRED_LETTERS :: nat where "AC_REQUIRED_LETTERS \<equiv> 2"
abbreviation AC_REQUIRED_SPECIALS :: nat where "AC_REQUIRED_SPECIALS \<equiv> 1"
abbreviation AC_TRANSIENT_MAX_S :: i64 where "AC_TRANSIENT_MAX_S \<equiv> 15 * 60"

datatype ac_result =
    AC_GRANTED
  | AC_DENIED_UNKNOWN
  | AC_DENIED_NOT_YET
  | AC_DENIED_EXPIRED
  | AC_DENIED_LOCKOUT
  | AC_DENIED_NO_CLOCK
  | AC_DENIED_BAD_FORMAT

record ac_slot =
  occupied :: bool
  transient :: bool
  slot_id :: string          \<comment> \<open>\<open>char id[AC_ID_LEN]\<close>\<close>
  slot_hash :: "u8 list"     \<comment> \<open>\<open>uint8_t hash[AC_HASH_LEN]\<close>\<close>
  slot_from :: i64
  slot_until :: i64

record ac_ctx =
  slots :: "ac_slot list"    \<comment> \<open>\<open>ac_slot_t slots[AC_MAX_SLOTS]\<close>\<close>
  ac_clock_trusted :: bool
  failed_attempts :: u8
  lockout_until :: i64
  max_failed_attempts :: u8
  lockout_seconds :: i32

text \<open>\<open>memset(&slot, 0, sizeof(ac_slot_t))\<close>\<close>

definition zero_slot :: ac_slot where
  "zero_slot = \<lparr>occupied = False, transient = False, slot_id = replicate AC_ID_LEN NUL,
     slot_hash = replicate AC_HASH_LEN 0, slot_from = 0, slot_until = 0\<rparr>"


section \<open>Operations\<close>

definition ct_equal :: "u8 list \<Rightarrow> u8 list \<Rightarrow> nat \<Rightarrow> bool" where
  "ct_equal a b n \<longleftrightarrow> fold (\<lambda>i diff. diff OR (a ! i XOR b ! i)) [0..<n] 0 = 0"

definition find_by_id :: "ac_ctx \<Rightarrow> string \<Rightarrow> nat option" where
  "find_by_id ctx cid =
     first_index (\<lambda>s. occupied s \<and> strncmp_eq (slot_id s) cid AC_ID_LEN) (slots ctx)"

definition ac_init :: "u8 \<Rightarrow> i32 \<Rightarrow> ac_ctx" where
  "ac_init max_failed lockout_s = \<lparr>slots = replicate AC_MAX_SLOTS zero_slot,
     ac_clock_trusted = False, failed_attempts = 0, lockout_until = 0,
     max_failed_attempts = max_failed, lockout_seconds = lockout_s\<rparr>"

definition ac_restore_attempts :: "ac_ctx \<Rightarrow> u8 \<Rightarrow> i64 \<Rightarrow> ac_ctx" where
  "ac_restore_attempts ctx failed until =
     ctx\<lparr>failed_attempts := failed, lockout_until := until\<rparr>"

definition ac_is_locked_out :: "ac_ctx \<Rightarrow> i64 \<Rightarrow> bool" where
  "ac_is_locked_out ctx now \<longleftrightarrow> lockout_until ctx > now"

definition ac_tick :: "ac_ctx \<Rightarrow> i64 \<Rightarrow> ac_ctx" where
  "ac_tick ctx now =
     (if lockout_until ctx \<noteq> 0 \<and> lockout_until ctx \<le> now
      then ctx\<lparr>lockout_until := 0, failed_attempts := 0\<rparr>
      else ctx)"

text \<open>The loop of \<open>ac_format_valid\<close>: the counters are \<open>len\<close>, \<open>digits\<close>, \<open>letters\<close>
  and \<open>specials\<close>.\<close>

fun format_loop :: "string \<Rightarrow> nat \<Rightarrow> nat \<Rightarrow> nat \<Rightarrow> nat \<Rightarrow> bool" where
  "format_loop [] len digits letters specials \<longleftrightarrow>
     len = AC_CODE_LEN \<and> digits = AC_REQUIRED_DIGITS \<and>
     letters = AC_REQUIRED_LETTERS \<and> specials = AC_REQUIRED_SPECIALS"
| "format_loop (c # p) len digits letters specials \<longleftrightarrow>
     (let len = len + 1 in
      if len > AC_CODE_LEN then False
      else if CHR ''0'' \<le> c \<and> c \<le> CHR ''9'' then format_loop p len (digits + 1) letters specials
      else if CHR ''A'' \<le> c \<and> c \<le> CHR ''D'' then format_loop p len digits (letters + 1) specials
      else if c = CHR ''*'' \<or> c = CHR ''#'' then format_loop p len digits letters (specials + 1)
      else False)"

definition ac_format_valid :: "string option \<Rightarrow> bool" where
  "ac_format_valid code =
     (case code of None \<Rightarrow> False | Some s \<Rightarrow> format_loop (cstr s) 0 0 0 0)"

definition upsert ::
  "ac_ctx \<Rightarrow> string option \<Rightarrow> u8 list option \<Rightarrow> i64 \<Rightarrow> i64 \<Rightarrow> bool \<Rightarrow> ac_ctx \<times> nat option" where
  "upsert ctx cid hash valid_from valid_until tr =
     (case (cid, hash) of
        (Some i, Some h) \<Rightarrow>
          if cstr i = [] then (ctx, None)
          else if valid_until \<le> valid_from then (ctx, None)
          else
            (let idx = (case find_by_id ctx i of
                          Some k \<Rightarrow> Some k
                        | None \<Rightarrow> first_index (\<lambda>s. \<not> occupied s) (slots ctx))
             in case idx of
                  None \<Rightarrow> (ctx, None)
                | Some k \<Rightarrow>
                    (ctx\<lparr>slots := (slots ctx)[k := (slots ctx ! k)\<lparr>
                       occupied := True, transient := tr,
                       slot_id := strncpy_bytes (AC_ID_LEN - 1) i @ [NUL],
                       slot_hash := take AC_HASH_LEN h,
                       slot_from := valid_from, slot_until := valid_until\<rparr>]\<rparr>, Some k))
      | _ \<Rightarrow> (ctx, None))"

definition ac_upsert ::
  "ac_ctx \<Rightarrow> string option \<Rightarrow> u8 list option \<Rightarrow> i64 \<Rightarrow> i64 \<Rightarrow> ac_ctx \<times> nat option" where
  "ac_upsert ctx cid hash valid_from valid_until = upsert ctx cid hash valid_from valid_until False"

definition ac_upsert_transient ::
  "ac_ctx \<Rightarrow> string option \<Rightarrow> u8 list option \<Rightarrow> i64 \<Rightarrow> i64 \<Rightarrow> ac_ctx \<times> nat option" where
  "ac_upsert_transient ctx cid hash valid_from valid_until =
     (let valid_until = (if valid_until > valid_from + AC_TRANSIENT_MAX_S
                         then valid_from + AC_TRANSIENT_MAX_S else valid_until)
      in upsert ctx cid hash valid_from valid_until True)"

text \<open>The loop of the bulk removals: zero every slot that satisfies the condition
  and count them.\<close>

definition clear_slots :: "(ac_slot \<Rightarrow> bool) \<Rightarrow> ac_ctx \<Rightarrow> ac_ctx \<times> nat" where
  "clear_slots P ctx =
     (ctx\<lparr>slots := map (\<lambda>s. if P s then zero_slot else s) (slots ctx)\<rparr>, count_if P (slots ctx))"

definition ac_revoke_transient :: "ac_ctx \<Rightarrow> ac_ctx \<times> nat" where
  "ac_revoke_transient ctx = clear_slots (\<lambda>s. occupied s \<and> transient s) ctx"

definition is_lower_hex :: "char \<Rightarrow> bool" where
  "is_lower_hex c \<longleftrightarrow> CHR ''0'' \<le> c \<and> c \<le> CHR ''9'' \<or> CHR ''a'' \<le> c \<and> c \<le> CHR ''f''"

fun id_is_dev_loop :: "string \<Rightarrow> nat \<Rightarrow> bool" where
  "id_is_dev_loop [] n \<longleftrightarrow> n \<noteq> 8"
| "id_is_dev_loop (c # p) n \<longleftrightarrow> (if \<not> is_lower_hex c then True else id_is_dev_loop p (n + 1))"

definition ac_id_is_dev :: "string option \<Rightarrow> bool" where
  "ac_id_is_dev cid =
     (case cid of
        None \<Rightarrow> True
      | Some s \<Rightarrow> if cstr s = [] then True else id_is_dev_loop (cstr s) 0)"

definition ac_revoke :: "ac_ctx \<Rightarrow> string option \<Rightarrow> ac_ctx \<times> bool" where
  "ac_revoke ctx cid =
     (case cid of
        None \<Rightarrow> (ctx, False)
      | Some i \<Rightarrow>
          (case find_by_id ctx i of
             None \<Rightarrow> (ctx, False)
           | Some k \<Rightarrow> (ctx\<lparr>slots := (slots ctx)[k := zero_slot]\<rparr>, True)))"

definition ac_purge_expired :: "ac_ctx \<Rightarrow> i64 \<Rightarrow> ac_ctx \<times> nat" where
  "ac_purge_expired ctx now = clear_slots (\<lambda>s. occupied s \<and> slot_until s < now) ctx"

definition ac_count :: "ac_ctx \<Rightarrow> nat" where
  "ac_count ctx = count_if occupied (slots ctx)"

definition register_failure :: "ac_ctx \<Rightarrow> i64 \<Rightarrow> ac_ctx" where
  "register_failure ctx now =
     (let ctx = (if failed_attempts ctx < 255
                 then ctx\<lparr>failed_attempts := failed_attempts ctx + 1\<rparr> else ctx)
      in if max_failed_attempts ctx > 0 \<and> failed_attempts ctx \<ge> max_failed_attempts ctx
         then ctx\<lparr>lockout_until := now + lockout_seconds ctx\<rparr> else ctx)"

definition ac_evaluate ::
  "ac_ctx \<Rightarrow> u8 list option \<Rightarrow> i64 \<Rightarrow> ac_ctx \<times> ac_result \<times> string option" where
  "ac_evaluate ctx hash_ptr now =
     (case hash_ptr of
        None \<Rightarrow> (ctx, AC_DENIED_UNKNOWN, None)
      | Some hash \<Rightarrow>
          if \<not> ac_clock_trusted ctx then (ctx, AC_DENIED_NO_CLOCK, None)
          else
            (let ctx = ac_tick ctx now in
             if ac_is_locked_out ctx now then (ctx, AC_DENIED_LOCKOUT, None)
             else
               (case last_index_of (\<lambda>s. occupied s \<and> ct_equal (slot_hash s) hash AC_HASH_LEN)
                       (slots ctx) of
                  None \<Rightarrow> (register_failure ctx now, AC_DENIED_UNKNOWN, None)
                | Some k \<Rightarrow>
                    (let s = slots ctx ! k in
                     if now < slot_from s then (ctx, AC_DENIED_NOT_YET, None)
                     else if now > slot_until s then (ctx, AC_DENIED_EXPIRED, None)
                     else (ctx\<lparr>failed_attempts := 0, lockout_until := 0\<rparr>, AC_GRANTED,
                           Some (take AC_ID_LEN (slot_id s)))))))"


section \<open>Invariant\<close>

text \<open>
  A slot is well formed when its arrays have their declared sizes, its id is
  terminated, and an occupied slot has an id.  The table has its five slots,
  all well formed, and no two occupied slots share an id.
\<close>

definition slot_wf :: "ac_slot \<Rightarrow> bool" where
  "slot_wf s \<longleftrightarrow> length (slot_id s) = AC_ID_LEN \<and> length (slot_hash s) = AC_HASH_LEN \<and>
     slot_id s ! (AC_ID_LEN - 1) = NUL \<and> (occupied s \<longrightarrow> cstr (slot_id s) \<noteq> [])"

definition ids_unique :: "ac_slot list \<Rightarrow> bool" where
  "ids_unique ss \<longleftrightarrow>
     (\<forall>i<length ss. \<forall>j<length ss. occupied (ss ! i) \<and> occupied (ss ! j) \<and>
        cstr (slot_id (ss ! i)) = cstr (slot_id (ss ! j)) \<longrightarrow> i = j)"

definition ac_inv :: "ac_ctx \<Rightarrow> bool" where
  "ac_inv ctx \<longleftrightarrow> length (slots ctx) = AC_MAX_SLOTS \<and> (\<forall>s\<in>set (slots ctx). slot_wf s) \<and>
     ids_unique (slots ctx)"

declare ac_inv_def [inv_defs]

lemma zero_slot_simps [simp]:
  "\<not> occupied zero_slot" "\<not> transient zero_slot"
  "slot_hash zero_slot = replicate AC_HASH_LEN 0" "slot_id zero_slot = replicate AC_ID_LEN NUL"
  by (simp_all add: zero_slot_def)

lemma slot_wf_zero [simp]: "slot_wf zero_slot"
  by (simp add: slot_wf_def)

text \<open>\<open>ct_equal\<close> is equality of the compared bytes.\<close>

lemma ct_equal_iff:
  "n \<le> length a \<Longrightarrow> n \<le> length b \<Longrightarrow> ct_equal a b n \<longleftrightarrow> take n a = take n b"
  by (simp add: ct_equal_def fold_or_xor_eq_0 take_eq_iff_nth)

lemma ct_equal_hash [simp]:
  "length a = AC_HASH_LEN \<Longrightarrow> length b = AC_HASH_LEN \<Longrightarrow> ct_equal a b AC_HASH_LEN \<longleftrightarrow> a = b"
  by (simp add: ct_equal_iff)

text \<open>The id of a well-formed slot has at most eight characters, so comparing nine
  characters with \<open>strncmp\<close> compares whole strings.\<close>

lemma slot_wf_id_len:
  assumes "slot_wf s"
  shows "length (cstr (slot_id s)) < AC_ID_LEN"
proof -
  have "slot_id s ! (AC_ID_LEN - 1) \<in> set (slot_id s)"
    using assms by (intro nth_mem) (simp add: slot_wf_def)
  then have "NUL \<in> set (slot_id s)" using assms by (simp add: slot_wf_def)
  from length_cstr_less [OF this] show ?thesis using assms by (simp add: slot_wf_def)
qed

lemma take_eq_short: "length x < n \<Longrightarrow> x = take n y \<longleftrightarrow> x = y"
  by (cases "n \<le> length y") auto

lemma slot_id_match:
  assumes "slot_wf s"
  shows "strncmp_eq (slot_id s) cid AC_ID_LEN \<longleftrightarrow> cstr (slot_id s) = cstr cid"
  using slot_wf_id_len [OF assms] by (simp add: strncmp_eq_take take_eq_short)

lemma find_by_id_inv:
  assumes "ac_inv ctx"
  shows "find_by_id ctx cid =
    first_index (\<lambda>s. occupied s \<and> cstr (slot_id s) = cstr cid) (slots ctx)"
proof -
  have "first_index P xs = first_index Q xs" if "\<forall>x\<in>set xs. P x = Q x"
    for P Q :: "ac_slot \<Rightarrow> bool" and xs
    using that by (induction xs) auto
  moreover have "\<forall>s\<in>set (slots ctx). slot_wf s" using assms by (simp add: ac_inv_def)
  ultimately show ?thesis by (simp add: find_by_id_def slot_id_match)
qed

text \<open>An id names at most one slot, so the first hit is the only one.\<close>

lemma find_by_id_SomeI:
  assumes "ac_inv ctx" "i < AC_MAX_SLOTS" "occupied (slots ctx ! i)"
    "cstr (slot_id (slots ctx ! i)) = cstr cid"
  shows "find_by_id ctx cid = Some i"
  using assms unfolding find_by_id_inv [OF assms(1)]
  by (simp add: first_index_Some ac_inv_def ids_unique_def) (metis less_trans nat_neq_iff)

lemma find_by_id_SomeD:
  assumes "ac_inv ctx" "find_by_id ctx cid = Some i"
  shows "i < AC_MAX_SLOTS" "occupied (slots ctx ! i)" "cstr (slot_id (slots ctx ! i)) = cstr cid"
  using assms first_index_SomeD [of _ "slots ctx" i]
  by (auto simp: find_by_id_inv ac_inv_def)

lemma find_by_id_NoneD:
  assumes "ac_inv ctx" "find_by_id ctx cid = None" "i < AC_MAX_SLOTS" "occupied (slots ctx ! i)"
  shows "cstr (slot_id (slots ctx ! i)) \<noteq> cstr cid"
  using assms first_index_NoneD [of _ "slots ctx" i]
  by (auto simp: find_by_id_inv ac_inv_def)


section \<open>The map behind the slots\<close>

text \<open>
  What the table means, whatever the position of the slots: an id is bound to the
  hash, the window and the kind of its slot.
\<close>

type_synonym ac_entry = "u8 list \<times> i64 \<times> i64 \<times> bool"

definition entry_of :: "ac_slot \<Rightarrow> ac_entry" where
  "entry_of s = (slot_hash s, slot_from s, slot_until s, transient s)"

definition names_slot :: "string \<Rightarrow> ac_slot \<Rightarrow> bool" where
  "names_slot k s \<longleftrightarrow> occupied s \<and> cstr (slot_id s) = k"

definition ac_table :: "ac_ctx \<Rightarrow> string \<Rightarrow> ac_entry option" where
  "ac_table ctx k = map_option (\<lambda>i. entry_of (slots ctx ! i)) (first_index (names_slot k) (slots ctx))"

lemma ac_table_Some:
  assumes "ac_inv ctx"
  shows "ac_table ctx k = Some e \<longleftrightarrow>
    (\<exists>i<AC_MAX_SLOTS. names_slot k (slots ctx ! i) \<and> entry_of (slots ctx ! i) = e)"
proof
  assume "ac_table ctx k = Some e"
  then obtain i where "first_index (names_slot k) (slots ctx) = Some i" "entry_of (slots ctx ! i) = e"
    by (auto simp: ac_table_def)
  then show "\<exists>i<AC_MAX_SLOTS. names_slot k (slots ctx ! i) \<and> entry_of (slots ctx ! i) = e"
    using assms first_index_SomeD [of _ "slots ctx" i] by (auto simp: ac_inv_def)
next
  assume "\<exists>i<AC_MAX_SLOTS. names_slot k (slots ctx ! i) \<and> entry_of (slots ctx ! i) = e"
  then obtain i where i: "i < AC_MAX_SLOTS" "names_slot k (slots ctx ! i)" "entry_of (slots ctx ! i) = e"
    by blast
  have "first_index (names_slot k) (slots ctx) = find_by_id ctx k"
    using i(2) by (auto simp: find_by_id_inv [OF assms] names_slot_def intro!: arg_cong2 [where f = first_index])
  also have "\<dots> = Some i"
    using i assms by (intro find_by_id_SomeI) (auto simp: names_slot_def)
  finally show "ac_table ctx k = Some e" using i by (simp add: ac_table_def)
qed

lemma ac_table_None:
  "ac_inv ctx \<Longrightarrow> ac_table ctx k = None \<longleftrightarrow> (\<forall>i<AC_MAX_SLOTS. \<not> names_slot k (slots ctx ! i))"
  by (metis ac_table_Some not_None_eq)

text \<open>Two tables are equal when they have the same bindings.\<close>

lemma ac_table_eqI:
  assumes "\<And>k e. ac_table ctx k = Some e \<longleftrightarrow> m k = Some e"
  shows "ac_table ctx = m"
  by (rule ext) (metis assms not_None_eq)

lemma dom_ac_table:
  assumes "ac_inv ctx"
  shows "dom (ac_table ctx) =
    (\<lambda>i. cstr (slot_id (slots ctx ! i))) ` {i. i < AC_MAX_SLOTS \<and> occupied (slots ctx ! i)}"
proof -
  have "k \<in> dom (ac_table ctx) \<longleftrightarrow> (\<exists>i<AC_MAX_SLOTS. names_slot k (slots ctx ! i))" for k
    by (simp add: domIff ac_table_None [OF assms] del: not_None_eq)
  then have "dom (ac_table ctx) = {k. \<exists>i<AC_MAX_SLOTS. names_slot k (slots ctx ! i)}" by blast
  then show ?thesis by (auto simp: names_slot_def)
qed

lemma finite_ac_table: "ac_inv ctx \<Longrightarrow> finite (dom (ac_table ctx))"
  by (simp add: dom_ac_table)

lemma card_ac_table:
  assumes "ac_inv ctx"
  shows "card (dom (ac_table ctx)) = ac_count ctx"
proof -
  have "inj_on (\<lambda>i. cstr (slot_id (slots ctx ! i))) {i. i < AC_MAX_SLOTS \<and> occupied (slots ctx ! i)}"
    using assms by (auto simp: inj_on_def ac_inv_def ids_unique_def)
  then show ?thesis
    using assms
    by (simp add: dom_ac_table card_image ac_count_def count_if_length_filter
        length_filter_conv_card ac_inv_def)
qed

text \<open>Writing one slot, where its id already is or where nothing was.\<close>

lemma ac_inv_write:
  assumes "ac_inv ctx" "slot_wf s" "k < AC_MAX_SLOTS"
    "\<And>j. j < AC_MAX_SLOTS \<Longrightarrow> j \<noteq> k \<Longrightarrow> \<not> names_slot (cstr (slot_id s)) (slots ctx ! j)"
  shows "ac_inv (ctx\<lparr>slots := (slots ctx)[k := s]\<rparr>)"
proof -
  have len: "length (slots ctx) = AC_MAX_SLOTS" using assms(1) by (simp add: ac_inv_def)
  have "\<forall>x\<in>set ((slots ctx)[k := s]). slot_wf x"
    using assms(1,2) set_update_subset_insert [of "slots ctx" k s] by (auto simp: ac_inv_def)
  moreover have "ids_unique ((slots ctx)[k := s])"
    using assms(1,3,4) len unfolding ids_unique_def ac_inv_def names_slot_def
    by (simp add: nth_list_update) metis
  ultimately show ?thesis using len by (simp add: ac_inv_def)
qed

lemma ac_table_write:
  assumes "ac_inv ctx" "slot_wf s" "occupied s" "k < AC_MAX_SLOTS"
    "\<And>j. j < AC_MAX_SLOTS \<Longrightarrow> j \<noteq> k \<Longrightarrow> \<not> names_slot (cstr (slot_id s)) (slots ctx ! j)"
    "occupied (slots ctx ! k) \<Longrightarrow> names_slot (cstr (slot_id s)) (slots ctx ! k)"
  shows "ac_table (ctx\<lparr>slots := (slots ctx)[k := s]\<rparr>) =
    (ac_table ctx)(cstr (slot_id s) \<mapsto> entry_of s)"
proof (rule ac_table_eqI)
  fix c e
  let ?ctx = "ctx\<lparr>slots := (slots ctx)[k := s]\<rparr>"
  have inv: "ac_inv ?ctx" using assms(1,2,4,5) by (rule ac_inv_write)
  have len: "length (slots ctx) = AC_MAX_SLOTS" using assms(1) by (simp add: ac_inv_def)
  have at: "(slots ctx)[k := s] ! i = (if i = k then s else slots ctx ! i)" for i
    using assms(4) len by (simp add: nth_list_update)
  show "ac_table ?ctx c = Some e \<longleftrightarrow> ((ac_table ctx)(cstr (slot_id s) \<mapsto> entry_of s)) c = Some e"
  proof (cases "c = cstr (slot_id s)")
    case True
    then have "ac_table ?ctx c = Some e \<longleftrightarrow> entry_of s = e"
      using assms(3-5) by (auto simp: ac_table_Some [OF inv] at names_slot_def)
    with True show ?thesis by simp
  next
    case False
    have "names_slot c (slots ?ctx ! i) \<longleftrightarrow> names_slot c (slots ctx ! i)" for i
      using False assms(3,6) by (cases "i = k") (auto simp: at names_slot_def)
    moreover have "names_slot c (slots ctx ! i) \<Longrightarrow> slots ?ctx ! i = slots ctx ! i" for i
      using False assms(6) by (cases "i = k") (auto simp: at names_slot_def)
    ultimately have "ac_table ?ctx c = Some e \<longleftrightarrow> ac_table ctx c = Some e"
      unfolding ac_table_Some [OF inv] ac_table_Some [OF assms(1)] by metis
    with False show ?thesis by simp
  qed
qed

text \<open>Zeroing the slots that satisfy a condition.\<close>

lemma slots_clear [simp]:
  "i < length (slots ctx) \<Longrightarrow>
     slots (fst (clear_slots P ctx)) ! i = (if P (slots ctx ! i) then zero_slot else slots ctx ! i)"
  by (simp add: clear_slots_def)

lemma ac_inv_clear: 
  assumes "ac_inv ctx"
  shows "ac_inv (fst (clear_slots P ctx))"
  using assms unfolding ac_inv_def ids_unique_def by (auto simp: clear_slots_def)

lemma ac_table_clear:
  assumes "ac_inv ctx" "\<And>s. P s \<longleftrightarrow> occupied s \<and> Q (cstr (slot_id s)) (entry_of s)"
  shows "ac_table (fst (clear_slots P ctx)) =
    (\<lambda>k. case ac_table ctx k of None \<Rightarrow> None | Some e \<Rightarrow> if Q k e then None else Some e)"
proof (rule ac_table_eqI)
  fix c e
  have len: "length (slots ctx) = AC_MAX_SLOTS" using assms(1) by (simp add: ac_inv_def)
  have "names_slot c (slots (fst (clear_slots P ctx)) ! i) \<longleftrightarrow>
      names_slot c (slots ctx ! i) \<and> \<not> P (slots ctx ! i)" if "i < AC_MAX_SLOTS" for i
    using len that by (simp add: names_slot_def)
  then have "ac_table (fst (clear_slots P ctx)) c = Some e \<longleftrightarrow>
      (\<exists>i<AC_MAX_SLOTS. names_slot c (slots ctx ! i) \<and> \<not> P (slots ctx ! i) \<and>
         entry_of (slots ctx ! i) = e)"
    unfolding ac_table_Some [OF ac_inv_clear [OF assms(1)]]
    using len by (simp cong: conj_cong)
  also have "\<dots> \<longleftrightarrow> ac_table ctx c = Some e \<and> \<not> Q c e"
    by (auto simp: ac_table_Some [OF assms(1)] assms(2) names_slot_def)
  finally have "ac_table (fst (clear_slots P ctx)) c = Some e \<longleftrightarrow> ac_table ctx c = Some e \<and> \<not> Q c e" .
  then show "ac_table (fst (clear_slots P ctx)) c = Some e \<longleftrightarrow>
      (case ac_table ctx c of None \<Rightarrow> None | Some e \<Rightarrow> if Q c e then None else Some e) = Some e"
    by (auto split: option.splits)
qed


section \<open>The operations on the map\<close>

lemma free_slot_exists:
  assumes "ac_inv ctx"
  shows "first_index (\<lambda>s. \<not> occupied s) (slots ctx) = None \<longleftrightarrow> ac_count ctx = AC_MAX_SLOTS"
proof -
  have "length (slots ctx) = AC_MAX_SLOTS" using assms by (simp add: ac_inv_def)
  moreover have "first_index (\<lambda>s. \<not> occupied s) (slots ctx) = None \<longleftrightarrow>
      length (filter (\<lambda>s. \<not> occupied s) (slots ctx)) = 0"
    by (simp add: first_index_None filter_empty_conv)
  ultimately show ?thesis
    using sum_length_filter_compl [of occupied "slots ctx"]
    by (simp only: ac_count_def count_if_length_filter) linarith
qed

lemma ac_count_le: "ac_inv ctx \<Longrightarrow> ac_count ctx \<le> AC_MAX_SLOTS"
  using count_if_le [of occupied "slots ctx"] by (simp add: ac_count_def ac_inv_def)

text \<open>An id that fits its array, and the slot \<open>upsert\<close> writes for it.\<close>

definition id_fits :: "string \<Rightarrow> bool" where
  "id_fits cid \<longleftrightarrow> cstr cid \<noteq> [] \<and> length (cstr cid) < AC_ID_LEN"

lemma find_by_id_table:
  assumes "ac_inv ctx"
  shows "find_by_id ctx cid = None \<longleftrightarrow> ac_table ctx (cstr cid) = None"
  using assms
  by (simp add: ac_table_def names_slot_def [abs_def] find_by_id_inv)

lemma upsert_held:
  assumes "ac_inv ctx" "id_fits cid" "length h = AC_HASH_LEN" "f < u"
    "ac_table ctx (cstr cid) \<noteq> None \<or> ac_count ctx < AC_MAX_SLOTS"
  obtains k where "k < AC_MAX_SLOTS"
    "snd (upsert ctx (Some cid) (Some h) f u tr) = Some k"
    "ac_inv (fst (upsert ctx (Some cid) (Some h) f u tr))"
    "ac_table (fst (upsert ctx (Some cid) (Some h) f u tr)) = (ac_table ctx)(cstr cid \<mapsto> (h, f, u, tr))"
proof -
  define ix where "ix = (case find_by_id ctx cid of Some k \<Rightarrow> Some k
      | None \<Rightarrow> first_index (\<lambda>s. \<not> occupied s) (slots ctx))"
  have len: "length (slots ctx) = AC_MAX_SLOTS" using assms(1) by (simp add: ac_inv_def)
  have "ix \<noteq> None"
    using assms(5) find_by_id_table [OF assms(1), of cid] free_slot_exists [OF assms(1)]
    by (auto simp: ix_def split: option.splits)
  then obtain k where k: "ix = Some k" by blast
  have k_lt: "k < AC_MAX_SLOTS"
    using k len find_by_id_SomeD(1) [OF assms(1)] first_index_SomeD(1) [of _ "slots ctx"]
    by (fastforce simp: ix_def split: option.splits)
  have here: "occupied (slots ctx ! k) \<Longrightarrow> names_slot (cstr cid) (slots ctx ! k)"
    using k find_by_id_SomeD [OF assms(1)] first_index_SomeD(2) [of _ "slots ctx"]
    by (fastforce simp: ix_def names_slot_def split: option.splits)
  have nowhere: "\<not> names_slot (cstr cid) (slots ctx ! j)" if "j < AC_MAX_SLOTS" "j \<noteq> k" for j
    using k that find_by_id_SomeI [OF assms(1) that(1), of cid]
    by (auto simp: ix_def names_slot_def split: option.splits)
  define s where "s = (slots ctx ! k)\<lparr>occupied := True, transient := tr,
      slot_id := strncpy_bytes (AC_ID_LEN - 1) cid @ [NUL], slot_hash := take AC_HASH_LEN h,
      slot_from := f, slot_until := u\<rparr>"
  have cs: "cstr (slot_id s) = cstr cid"
    using assms(2) by (simp add: s_def id_fits_def)
  have wf: "slot_wf s" "occupied s"
    using assms(2,3) cs by (simp_all add: s_def slot_wf_def id_fits_def nth_append)
  have en: "entry_of s = (h, f, u, tr)" using assms(3) by (simp add: s_def entry_of_def)
  have up: "upsert ctx (Some cid) (Some h) f u tr = (ctx\<lparr>slots := (slots ctx)[k := s]\<rparr>, Some k)"
    using assms(2,4) k by (simp add: upsert_def id_fits_def s_def ix_def [symmetric])
  show ?thesis
  proof (rule that [of k])
    show "ac_inv (fst (upsert ctx (Some cid) (Some h) f u tr))"
      using ac_inv_write [OF assms(1) wf(1) k_lt] nowhere by (simp add: up cs)
    show "ac_table (fst (upsert ctx (Some cid) (Some h) f u tr)) = (ac_table ctx)(cstr cid \<mapsto> (h, f, u, tr))"
      using ac_table_write [OF assms(1) wf k_lt] nowhere here by (simp add: up cs en)
  qed (simp_all add: k_lt up)
qed

lemma upsert_refused:
  assumes "ac_inv ctx"
    "cstr cid = [] \<or> u \<le> f \<or> ac_table ctx (cstr cid) = None \<and> ac_count ctx = AC_MAX_SLOTS"
  shows "upsert ctx (Some cid) (Some h) f u tr = (ctx, None)"
  using assms find_by_id_table [OF assms(1), of cid] free_slot_exists [OF assms(1)]
  by (auto simp: upsert_def Let_def)

lemma upsert_keeps:
  "ac_clock_trusted (fst (upsert ctx cid h f u tr)) = ac_clock_trusted ctx"
  "failed_attempts (fst (upsert ctx cid h f u tr)) = failed_attempts ctx"
  "lockout_until (fst (upsert ctx cid h f u tr)) = lockout_until ctx"
  "max_failed_attempts (fst (upsert ctx cid h f u tr)) = max_failed_attempts ctx"
  "lockout_seconds (fst (upsert ctx cid h f u tr)) = lockout_seconds ctx"
  by (simp_all add: upsert_def Let_def split: option.splits)

text \<open>As ids are unique, revoking one clears the slots that carry it.\<close>

lemma revoke_clears:
  assumes "ac_inv ctx"
  shows "fst (ac_revoke ctx (Some cid)) = fst (clear_slots (names_slot (cstr cid)) ctx)"
proof (cases "find_by_id ctx cid")
  case None
  then have "\<forall>s\<in>set (slots ctx). \<not> names_slot (cstr cid) s"
    by (auto simp: find_by_id_inv [OF assms] first_index_None names_slot_def)
  then have "map (\<lambda>s. if names_slot (cstr cid) s then zero_slot else s) (slots ctx) = slots ctx"
    by (intro map_idI) simp
  then show ?thesis using None by (simp add: ac_revoke_def clear_slots_def)
next
  case (Some k)
  note k = find_by_id_SomeD [OF assms Some]
  have len: "length (slots ctx) = AC_MAX_SLOTS" using assms by (simp add: ac_inv_def)
  have "names_slot (cstr cid) (slots ctx ! i) \<longleftrightarrow> i = k" if "i < AC_MAX_SLOTS" for i
    using find_by_id_SomeI [OF assms that, of cid] Some k by (auto simp: names_slot_def)
  then have "(slots ctx)[k := zero_slot] =
      map (\<lambda>s. if names_slot (cstr cid) s then zero_slot else s) (slots ctx)"
    using k(1) len by (intro nth_equalityI) (auto simp: nth_list_update)
  then show ?thesis using Some by (simp add: ac_revoke_def clear_slots_def)
qed

lemma revoke_inv: "ac_inv ctx \<Longrightarrow> ac_inv (fst (ac_revoke ctx (Some cid)))"
  by (simp add: revoke_clears ac_inv_clear)

lemma revoke_table:
  assumes "ac_inv ctx"
  shows "ac_table (fst (ac_revoke ctx (Some cid))) = (ac_table ctx)(cstr cid := None)"
proof -
  have "ac_table (fst (ac_revoke ctx (Some cid))) =
      (\<lambda>k. case ac_table ctx k of None \<Rightarrow> None | Some e \<Rightarrow> if k = cstr cid then None else Some e)"
    unfolding revoke_clears [OF assms] by (rule ac_table_clear [OF assms]) (auto simp: names_slot_def)
  then show ?thesis by (auto simp: fun_eq_iff split: option.splits)
qed

lemma revoke_found:
  assumes "ac_inv ctx"
  shows "snd (ac_revoke ctx (Some cid)) \<longleftrightarrow> ac_table ctx (cstr cid) \<noteq> None"
  using find_by_id_table [OF assms, of cid] by (auto simp: ac_revoke_def split: option.splits)

lemma revoke_transient_table:
  assumes "ac_inv ctx"
  shows "ac_table (fst (ac_revoke_transient ctx)) =
    (\<lambda>k. case ac_table ctx k of None \<Rightarrow> None | Some (h, f, u, tr) \<Rightarrow> if tr then None else Some (h, f, u, tr))"
proof -
  have "ac_table (fst (ac_revoke_transient ctx)) =
      (\<lambda>k. case ac_table ctx k of None \<Rightarrow> None
         | Some e \<Rightarrow> if snd (snd (snd e)) then None else Some e)"
    unfolding ac_revoke_transient_def
    by (rule ac_table_clear [OF assms]) (simp add: entry_of_def)
  then show ?thesis by (auto simp: fun_eq_iff split: option.splits)
qed

lemma purge_table:
  assumes "ac_inv ctx"
  shows "ac_table (fst (ac_purge_expired ctx now)) =
    (\<lambda>k. case ac_table ctx k of None \<Rightarrow> None | Some (h, f, u, tr) \<Rightarrow> if u < now then None else Some (h, f, u, tr))"
proof -
  have "ac_table (fst (ac_purge_expired ctx now)) =
      (\<lambda>k. case ac_table ctx k of None \<Rightarrow> None
         | Some e \<Rightarrow> if fst (snd (snd e)) < now then None else Some e)"
    unfolding ac_purge_expired_def
    by (rule ac_table_clear [OF assms]) (simp add: entry_of_def)
  then show ?thesis by (auto simp: fun_eq_iff split: option.splits)
qed

lemma ac_inv_bulk:
  "ac_inv ctx \<Longrightarrow> ac_inv (fst (ac_revoke_transient ctx))"
  "ac_inv ctx \<Longrightarrow> ac_inv (fst (ac_purge_expired ctx now))"
  by (simp_all add: ac_revoke_transient_def ac_purge_expired_def ac_inv_clear)

text \<open>The operations on the counters leave the slots alone.\<close>

lemma slots_counters [simp]:
  "slots (ac_restore_attempts ctx n until) = slots ctx"
  "slots (ac_tick ctx now) = slots ctx"
  "slots (register_failure ctx now) = slots ctx"
  "slots (fst (ac_evaluate ctx hash now)) = slots ctx"
  by (simp_all add: ac_restore_attempts_def ac_tick_def register_failure_def ac_evaluate_def Let_def
      split: option.splits)

lemma ac_table_slots: "slots a = slots b \<Longrightarrow> ac_table a = ac_table b"
  by (rule ext) (simp add: ac_table_def)

lemma ac_inv_slots: "slots a = slots b \<Longrightarrow> ac_inv a \<longleftrightarrow> ac_inv b"
  by (simp add: ac_inv_def)

lemma ac_inv_init: "ac_inv (ac_init m l)"
  by (auto simp: ac_init_def ac_inv_def ids_unique_def)

lemma ac_table_init: "ac_table (ac_init m l) = Map.empty"
  by (rule ext) (simp add: ac_table_def first_index_None names_slot_def ac_init_def)


section \<open>The table as a code table\<close>

text \<open>The delivery channels hand over an id of eight lower-case hex characters and a
  window; what matters to the table is that the id fits and the window is not empty.\<close>

definition good_entry :: "string \<Rightarrow> ac_entry \<Rightarrow> bool" where
  "good_entry k e = (case e of (h, f, u, tr) \<Rightarrow>
     id_fits k \<and> NUL \<notin> set k \<and> length h = AC_HASH_LEN \<and> f < u)"

definition ac_put :: "ac_ctx \<Rightarrow> string \<Rightarrow> ac_entry \<Rightarrow> ac_ctx \<times> bool" where
  "ac_put ctx k e = (case e of (h, f, u, tr) \<Rightarrow>
     (let (ctx', r) = upsert ctx (Some k) (Some h) f u tr in (ctx', r \<noteq> None)))"

definition ac_del :: "ac_ctx \<Rightarrow> string \<Rightarrow> ac_ctx \<times> bool" where
  "ac_del ctx k = (if NUL \<in> set k then (ctx, False) else ac_revoke ctx (Some k))"

lemma ac_table_NUL: "NUL \<in> set k \<Longrightarrow> ac_table ctx k = None"
  by (auto simp: ac_table_def first_index_None names_slot_def)

lemma ac_put_inv: "ac_inv ctx \<Longrightarrow> good_entry k e \<Longrightarrow> ac_inv (fst (ac_put ctx k e))"
proof -
  assume inv: "ac_inv ctx" and g: "good_entry k e"
  obtain h f u tr where e: "e = (h, f, u, tr)" by (cases e)
  have "id_fits k" "length h = AC_HASH_LEN" "f < u" using g by (simp_all add: good_entry_def e)
  then have "ac_inv (fst (upsert ctx (Some k) (Some h) f u tr))"
    using upsert_held [OF inv, of k h f u tr] upsert_refused [OF inv, of k u f h tr] inv
      ac_count_le [OF inv]
    by (metis fst_conv le_neq_implies_less)
  then show ?thesis by (simp add: ac_put_def e split_def Let_def)
qed

lemma ac_put_room:
  assumes "ac_inv ctx" "good_entry k e" "k \<in> dom (ac_table ctx) \<or> card (dom (ac_table ctx)) < AC_MAX_SLOTS"
  shows "snd (ac_put ctx k e)" "ac_table (fst (ac_put ctx k e)) = (ac_table ctx)(k \<mapsto> e)"
proof -
  obtain h f u tr where e: "e = (h, f, u, tr)" by (cases e)
  have g: "id_fits k" "length h = AC_HASH_LEN" "f < u" "cstr k = k"
    using assms(2) by (simp_all add: good_entry_def e cstr_id)
  have r: "ac_table ctx (cstr k) \<noteq> None \<or> ac_count ctx < AC_MAX_SLOTS"
    using assms(3) g(4) card_ac_table [OF assms(1)] by auto
  show "snd (ac_put ctx k e)" "ac_table (fst (ac_put ctx k e)) = (ac_table ctx)(k \<mapsto> e)"
    by (rule upsert_held [OF assms(1) g(1-3) r, of tr], simp add: ac_put_def e g split_def Let_def)+
qed

lemma ac_put_full:
  assumes "ac_inv ctx" "good_entry k e" "k \<notin> dom (ac_table ctx)" "AC_MAX_SLOTS \<le> card (dom (ac_table ctx))"
  shows "ac_put ctx k e = (ctx, False)"
proof -
  obtain h f u tr where e: "e = (h, f, u, tr)" by (cases e)
  have g: "cstr k = k" using assms(2) by (simp add: good_entry_def e cstr_id)
  have "ac_table ctx k = None" "ac_count ctx = AC_MAX_SLOTS"
    using assms(3,4) card_ac_table [OF assms(1)] ac_count_le [OF assms(1)] by auto
  then show ?thesis using upsert_refused [OF assms(1), of k u f h tr] g
    by (simp add: ac_put_def e)
qed

interpretation ac: code_table ac_table ac_put ac_del ac_inv good_entry AC_MAX_SLOTS
proof unfold_locales
  fix t k e assume "ac_inv t" "good_entry k e"
    "k \<in> dom (ac_table t) \<or> card (dom (ac_table t)) < AC_MAX_SLOTS"
  then show "snd (ac_put t k e) \<and> ac_table (fst (ac_put t k e)) = (ac_table t)(k \<mapsto> e)"
    by (blast intro: ac_put_room)
next
  fix t k assume "ac_inv t"
  then show "ac_table (fst (ac_del t k)) = (ac_table t)(k := None)"
    "snd (ac_del t k) = (k \<in> dom (ac_table t))" "ac_inv (fst (ac_del t k))"
    by (auto simp: ac_del_def ac_table_NUL revoke_table revoke_found revoke_inv cstr_id fun_upd_idem)
qed (auto intro: ac_put_full ac_put_inv finite_ac_table)


section \<open>Runs of the access core\<close>

text \<open>Every call that changes the state, as an event.\<close>

datatype ac_event =
    Evaluate "u8 list" i64
  | Tick i64
  | Upsert string "u8 list" i64 i64
  | Upsert_transient string "u8 list" i64 i64
  | Revoke string
  | Revoke_transient
  | Purge_expired i64
  | Restore_attempts u8 i64
  | Trust_clock bool

fun ac_step :: "ac_ctx \<Rightarrow> ac_event \<Rightarrow> ac_ctx" where
  "ac_step ctx (Evaluate h now) = fst (ac_evaluate ctx (Some h) now)"
| "ac_step ctx (Tick now) = ac_tick ctx now"
| "ac_step ctx (Upsert i h f u) = fst (ac_upsert ctx (Some i) (Some h) f u)"
| "ac_step ctx (Upsert_transient i h f u) = fst (ac_upsert_transient ctx (Some i) (Some h) f u)"
| "ac_step ctx (Revoke i) = fst (ac_revoke ctx (Some i))"
| "ac_step ctx Revoke_transient = fst (ac_revoke_transient ctx)"
| "ac_step ctx (Purge_expired now) = fst (ac_purge_expired ctx now)"
| "ac_step ctx (Restore_attempts n t) = ac_restore_attempts ctx n t"
| "ac_step ctx (Trust_clock b) = ctx\<lparr>ac_clock_trusted := b\<rparr>"

text \<open>The pointers handed over are ids that fit and hashes of 32 bytes.\<close>

fun ac_legal :: "ac_event \<Rightarrow> bool" where
  "ac_legal (Evaluate h now) \<longleftrightarrow> length h = AC_HASH_LEN"
| "ac_legal (Upsert i h f u) \<longleftrightarrow> id_fits i \<and> length h = AC_HASH_LEN"
| "ac_legal (Upsert_transient i h f u) \<longleftrightarrow> id_fits i \<and> length h = AC_HASH_LEN"
| "ac_legal _ \<longleftrightarrow> True"

definition windows_ok :: "(string \<Rightarrow> ac_entry option) \<Rightarrow> bool" where
  "windows_ok m \<longleftrightarrow> (\<forall>k h f u tr. m k = Some (h, f, u, tr) \<longrightarrow>
     f < u \<and> (tr \<longrightarrow> u \<le> f + AC_TRANSIENT_MAX_S))"

definition ac_good :: "ac_ctx \<Rightarrow> bool" where
  "ac_good ctx \<longleftrightarrow> ac_inv ctx \<and> windows_ok (ac_table ctx)"

lemma windows_ok_upd:
  "windows_ok m \<Longrightarrow> f < u \<Longrightarrow> (tr \<Longrightarrow> u \<le> f + AC_TRANSIENT_MAX_S) \<Longrightarrow> windows_ok (m(k \<mapsto> (h, f, u, tr)))"
  by (auto simp: windows_ok_def)

lemma windows_ok_sub: "windows_ok m \<Longrightarrow> m' \<subseteq>\<^sub>m m \<Longrightarrow> windows_ok m'"
  by (auto simp: windows_ok_def map_le_def) (metis domI option.sel)+

lemma ac_good_upsert:
  assumes "ac_good ctx" "id_fits i" "length h = AC_HASH_LEN" "tr \<Longrightarrow> u \<le> f + AC_TRANSIENT_MAX_S"
  shows "ac_good (fst (upsert ctx (Some i) (Some h) f u tr))"
proof (cases "u \<le> f \<or> ac_table ctx (cstr i) = None \<and> ac_count ctx = AC_MAX_SLOTS")
  case True
  then show ?thesis
    using upsert_refused [of ctx i u f h tr] assms(1) by (auto simp: ac_good_def)
next
  case False
  have inv: "ac_inv ctx" and w: "windows_ok (ac_table ctx)" using assms(1) by (simp_all add: ac_good_def)
  have fu: "f < u" and r: "ac_table ctx (cstr i) \<noteq> None \<or> ac_count ctx < AC_MAX_SLOTS"
    using False ac_count_le [OF inv] by auto
  show ?thesis
    by (rule upsert_held [OF inv assms(2,3) fu r, of tr])
      (use windows_ok_upd [OF w fu assms(4)] in \<open>simp add: ac_good_def\<close>)
qed

lemma ac_good_slots: "slots a = slots b \<Longrightarrow> ac_good a \<longleftrightarrow> ac_good b"
  by (simp add: ac_good_def ac_inv_slots [of a b] ac_table_slots [of a b])

lemma ac_good_shrink:
  "ac_good ctx \<Longrightarrow> ac_inv ctx' \<Longrightarrow> ac_table ctx' \<subseteq>\<^sub>m ac_table ctx \<Longrightarrow> ac_good ctx'"
  by (auto simp: ac_good_def intro: windows_ok_sub)

lemma ac_step_good:
  assumes "ac_good ctx" "ac_legal e"
  shows "ac_good (ac_step ctx e)"
proof (cases e)
  case (Upsert i h f u)
  with assms show ?thesis by (simp add: ac_upsert_def ac_good_upsert)
next
  case (Upsert_transient i h f u)
  with assms show ?thesis by (simp add: ac_upsert_transient_def Let_def ac_good_upsert)
next
  case (Revoke i)
  then show ?thesis
    using assms ac_good_shrink [OF assms(1), of "ac_step ctx e"]
    by (simp add: ac_good_def revoke_inv revoke_table map_le_def)
next
  case Revoke_transient
  have "ac_table (ac_step ctx e) \<subseteq>\<^sub>m ac_table ctx"
    using Revoke_transient assms(1)
    by (auto simp: ac_good_def revoke_transient_table map_le_def split: option.splits if_splits)
  moreover have "ac_inv (ac_step ctx e)"
    using Revoke_transient assms(1) by (simp add: ac_good_def ac_inv_bulk)
  ultimately show ?thesis using ac_good_shrink [OF assms(1)] by blast
next
  case (Purge_expired now)
  have "ac_table (ac_step ctx e) \<subseteq>\<^sub>m ac_table ctx"
    using \<open>e = Purge_expired now\<close> assms(1)
    by (auto simp: ac_good_def purge_table map_le_def split: option.splits if_splits)
  moreover have "ac_inv (ac_step ctx e)"
    using \<open>e = Purge_expired now\<close> assms(1) by (simp add: ac_good_def ac_inv_bulk)
  ultimately show ?thesis using ac_good_shrink [OF assms(1)] by blast
qed (use assms ac_good_slots [of "ac_step ctx e" ctx] in simp_all)

interpretation ac_run: machine ac_step ac_good ac_legal
  by unfold_locales (rule ac_step_good)

lemma ac_good_init: "ac_good (ac_init m l)"
  by (simp add: ac_good_def ac_inv_init ac_table_init windows_ok_def)


section \<open>The verdict\<close>

text \<open>\<open>ac_evaluate\<close> on the map: what each verdict says about the table.\<close>

lemma last_match_inv:
  assumes "ac_inv ctx" "length h = AC_HASH_LEN"
  shows "last_index_of (\<lambda>s. occupied s \<and> ct_equal (slot_hash s) h AC_HASH_LEN) (slots ctx) =
    last_index_of (\<lambda>s. occupied s \<and> slot_hash s = h) (slots ctx)"
  unfolding last_index_of_def
  by (rule fold_cong) (use assms in \<open>auto simp: ac_inv_def slot_wf_def\<close>)

lemma last_match_Some:
  assumes "ac_inv ctx" "last_index_of (\<lambda>s. occupied s \<and> slot_hash s = h) (slots ctx) = Some k"
  shows "ac_table ctx (cstr (slot_id (slots ctx ! k))) =
      Some (h, slot_from (slots ctx ! k), slot_until (slots ctx ! k), transient (slots ctx ! k))"
    "k < AC_MAX_SLOTS"
  using last_index_of_SomeD(1,2) [OF assms(2)] assms(1)
  by (auto simp: ac_table_Some names_slot_def entry_of_def ac_inv_def)

lemma last_match_None:
  assumes "ac_inv ctx"
  shows "last_index_of (\<lambda>s. occupied s \<and> slot_hash s = h) (slots ctx) = None \<longleftrightarrow>
    (\<forall>k f u tr. ac_table ctx k \<noteq> Some (h, f, u, tr))"
proof -
  have "length (slots ctx) = AC_MAX_SLOTS" using assms by (simp add: ac_inv_def)
  then have "(\<forall>s\<in>set (slots ctx). \<not> (occupied s \<and> slot_hash s = h)) \<longleftrightarrow>
      (\<forall>i<AC_MAX_SLOTS. \<not> (occupied (slots ctx ! i) \<and> slot_hash (slots ctx ! i) = h))"
    by (simp add: all_set_conv_all_nth)
  then show ?thesis
    by (auto simp: last_index_of_None ac_table_Some [OF assms] names_slot_def entry_of_def)
qed

lemma slot_wf_id_take: "slot_wf s \<Longrightarrow> take AC_ID_LEN (slot_id s) = slot_id s"
  by (simp add: slot_wf_def)

lemma ac_inv_slot_wf: "ac_inv ctx \<Longrightarrow> i < AC_MAX_SLOTS \<Longrightarrow> slot_wf (slots ctx ! i)"
  by (simp add: ac_inv_def)

lemma tick_locked: "0 \<le> now \<Longrightarrow> ac_is_locked_out (ac_tick ctx now) now \<longleftrightarrow> ac_is_locked_out ctx now"
  by (simp add: ac_is_locked_out_def ac_tick_def)

lemma tick_keeps [simp]:
  "ac_clock_trusted (ac_tick ctx now) = ac_clock_trusted ctx"
  "max_failed_attempts (ac_tick ctx now) = max_failed_attempts ctx"
  "lockout_seconds (ac_tick ctx now) = lockout_seconds ctx"
  by (simp_all add: ac_tick_def)

lemmas evaluate_unfold = ac_evaluate_def Let_def tick_locked slots_counters tick_keeps

end
