(* ===== verification/Access_Verdict.thy ===== *)
theory Access_Verdict
  imports Access_Core
begin

text \<open>
  The verdict of \<^verbatim>\<open>ac_evaluate\<close> read on the map behind the slots, the rate at which a stranger
  may guess, and the properties of the access core.
\<close>

section \<open>How often a stranger may guess\<close>

text \<open>The verdicts of a sequence of typed codes with their times.\<close>

fun verdicts :: "ac_ctx \<Rightarrow> (u8 list \<times> i64) list \<Rightarrow> ac_result list" where
  "verdicts ctx [] = []"
| "verdicts ctx ((h, t) # es) =
     (let (ctx', r, cid) = ac_evaluate ctx (Some h) t in r # verdicts ctx' es)"

text \<open>How many failures may still be answered \<open>UNKNOWN\<close> up to time \<open>T\<close>: what is left of the
  current allowance and one allowance per lockout that can end by then.\<close>

definition budget :: "ac_ctx \<Rightarrow> i64 \<Rightarrow> i64 \<Rightarrow> int" where
  "budget ctx now T =
     (let M = int (unat (max_failed_attempts ctx)); S = lockout_seconds ctx; L = lockout_until ctx in
      if now < L then (if T < L then 0 else M * ((T - L) div S + 1))
      else (if L \<noteq> 0 then M else M - int (unat (failed_attempts ctx))) + M * ((T - now) div S))"

definition counting :: "ac_ctx \<Rightarrow> bool" where
  "counting ctx \<longleftrightarrow> 0 < max_failed_attempts ctx \<and> 0 < lockout_seconds ctx \<and>
     0 \<le> lockout_until ctx \<and> (lockout_until ctx = 0 \<longrightarrow> failed_attempts ctx < max_failed_attempts ctx)"

lemma div_mono_mult: "0 \<le> (M :: int) \<Longrightarrow> a \<le> b \<Longrightarrow> 0 < S \<Longrightarrow> M * (a div S) \<le> M * (b div S)"
  by (intro mult_left_mono zdiv_mono1) auto

lemma budget_mono:
  assumes "counting ctx" "0 \<le> now" "now \<le> t" "t \<le> T"
  shows "budget ctx t T \<le> budget ctx now T"
proof -
  let ?M = "int (unat (max_failed_attempts ctx))" and ?S = "lockout_seconds ctx" and ?L = "lockout_until ctx"
  have S: "0 < ?S" using assms(1) by (simp add: counting_def)
  have a: "?M * ((T - t) div ?S) \<le> ?M * ((T - now) div ?S)"
    using S assms(3) by (intro div_mono_mult) auto
  have b: "?M * ((T - t) div ?S) \<le> ?M * ((T - ?L) div ?S)" if "?L \<le> t"
    using S that by (intro div_mono_mult) auto
  show ?thesis using assms a b by (auto simp: budget_def Let_def algebra_simps)
qed

lemma budget_nonneg:
  assumes "counting ctx" "now \<le> T"
  shows "0 \<le> budget ctx now T"
proof -
  have S: "0 < lockout_seconds ctx" using assms(1) by (simp add: counting_def)
  have "uint (failed_attempts ctx) \<le> uint (max_failed_attempts ctx)" if "lockout_until ctx = 0"
    using assms(1) that by (simp add: counting_def word_less_def)
  then show ?thesis
    using S assms by (auto simp: budget_def Let_def pos_imp_zdiv_nonneg_iff intro!: add_nonneg_nonneg mult_nonneg_nonneg)
qed

lemma register_failure_counts:
  assumes "failed_attempts ctx < max_failed_attempts ctx"
  shows "register_failure ctx now =
    (let a = failed_attempts ctx + 1 in
     ctx\<lparr>failed_attempts := a,
         lockout_until := if unat (failed_attempts ctx) + 1 = unat (max_failed_attempts ctx)
           then now + lockout_seconds ctx else lockout_until ctx\<rparr>)"
    "unat (failed_attempts ctx + 1) = unat (failed_attempts ctx) + 1"
proof -
  have lt: "unat (failed_attempts ctx) < unat (max_failed_attempts ctx)"
    using assms by (simp add: word_less_nat_alt)
  moreover have "unat (max_failed_attempts ctx) < 256"
    using unsigned_less [of "max_failed_attempts ctx", where ?'a = nat] by simp
  ultimately have n: "unat (failed_attempts ctx) < 255" by linarith
  then show u: "unat (failed_attempts ctx + 1) = unat (failed_attempts ctx) + 1"
    by (subst unat_add_lem [THEN iffD1]) simp_all
  have f: "failed_attempts ctx < 255" using n by (simp add: word_less_nat_alt)
  have g: "max_failed_attempts ctx \<le> failed_attempts ctx + 1 \<longleftrightarrow>
      unat (failed_attempts ctx) + 1 = unat (max_failed_attempts ctx)"
    using lt by (simp only: word_le_nat_alt u) arith
  have m: "0 < max_failed_attempts ctx" using assms by (metis le_less_trans word_zero_le)
  show "register_failure ctx now =
    (let a = failed_attempts ctx + 1 in
     ctx\<lparr>failed_attempts := a,
         lockout_until := if unat (failed_attempts ctx) + 1 = unat (max_failed_attempts ctx)
           then now + lockout_seconds ctx else lockout_until ctx\<rparr>)"
    using f g m by (simp add: register_failure_def Let_def)
qed


lemma evaluate_counts:
  assumes "counting ctx" "0 \<le> t" "t \<le> T" "ac_evaluate ctx (Some h) t = (ctx', r, cid)" "r \<noteq> AC_GRANTED"
  shows "counting ctx' \<and> (if r = AC_DENIED_UNKNOWN then 1 else 0) + budget ctx' t T \<le> budget ctx t T
    \<and> max_failed_attempts ctx' = max_failed_attempts ctx \<and> lockout_seconds ctx' = lockout_seconds ctx"
proof -
  let ?c = "ac_tick ctx t"
  have tick: "counting ?c" "budget ?c t T = budget ctx t T"
    using assms(1,2) by (auto simp: counting_def ac_tick_def budget_def Let_def)
  show ?thesis
  proof (cases "r = AC_DENIED_UNKNOWN")
    case False
    then have "ctx' = ctx \<or> ctx' = ?c"
      using assms(4,5) by (auto simp: ac_evaluate_def Let_def split: if_splits option.splits)
    then show ?thesis using False tick assms(1) by auto
  next
    case True
    then have ctx': "ctx' = register_failure ?c t" and free: "\<not> ac_is_locked_out ?c t"
      using assms(4) by (auto simp: ac_evaluate_def Let_def split: if_splits option.splits)
    have L: "lockout_until ?c = 0"
      using free assms(2) by (auto simp: ac_tick_def ac_is_locked_out_def split: if_splits)
    have lt: "failed_attempts ?c < max_failed_attempts ?c" and S: "0 < lockout_seconds ?c"
      using tick(1) L by (simp_all add: counting_def)
    note rf = register_failure_counts [OF lt]
    let ?M = "int (unat (max_failed_attempts ?c))" and ?a = "int (unat (failed_attempts ?c))"
      and ?S = "lockout_seconds ?c"
    have fresh: "budget ?c t T = ?M - ?a + ?M * ((T - t) div ?S)"
      using L assms(2) by (simp add: budget_def Let_def)
    have div: "(T - (t + ?S)) div ?S + 1 = (T - t) div ?S"
      using div_add_self2 [of ?S "T - (t + ?S)"] S by simp
    have small: "(T - t) div ?S = 0" if "T < t + ?S"
      using that assms(3) by simp
    have sa: "uint (failed_attempts ?c + 1) = ?a + 1"
      using rf(2) by (simp only: uint_nat of_nat_add of_nat_1)
    show ?thesis
    proof (cases "unat (failed_attempts ?c) + 1 = unat (max_failed_attempts ?c)")
      case full: True
      then have "budget ctx' t T = ?M * ((T - t) div ?S)"
        using S div small by (auto simp: ctx' rf(1) Let_def budget_def)
      moreover have "?M = ?a + 1" using arg_cong [OF full, of int] by (simp only: of_nat_add of_nat_1)
      moreover have "counting ctx'"
        using full tick(1) S assms(2) by (simp add: ctx' rf(1) Let_def counting_def)
      ultimately show ?thesis using True fresh tick(2) by (simp add: ctx' rf(1) Let_def)
    next
      case False
      have "unat (failed_attempts ?c) + 1 < unat (max_failed_attempts ?c)"
        using lt False by (simp add: word_less_nat_alt)
      then have "failed_attempts ?c + 1 < max_failed_attempts ?c"
        by (simp only: word_less_nat_alt rf(2))
      then have "counting ctx'"
        using False tick(1) L by (simp add: ctx' rf(1) Let_def counting_def)
      moreover have "budget ctx' t T = ?M - (?a + 1) + ?M * ((T - t) div ?S)"
        using False L assms(2) by (simp add: ctx' rf(1) Let_def budget_def sa)
      ultimately show ?thesis using True fresh tick(2) by (simp add: ctx' rf(1) Let_def)
    qed
  qed
qed

lemma unknowns_budget:
  assumes "counting ctx" "0 \<le> now" "sorted_wrt (\<le>) (now # map snd es @ [T])"
    "AC_GRANTED \<notin> set (verdicts ctx es)"
  shows "int (count_list (verdicts ctx es) AC_DENIED_UNKNOWN) \<le> budget ctx now T"
  using assms
proof (induction es arbitrary: ctx now)
  case Nil
  then show ?case by (simp add: budget_nonneg)
next
  case (Cons ht es)
  obtain h t where ht: "ht = (h, t)" by (cases ht)
  obtain ctx' r cid where ev: "ac_evaluate ctx (Some h) t = (ctx', r, cid)" by (cases "ac_evaluate ctx (Some h) t")
  have t: "now \<le> t" "t \<le> T" "0 \<le> t" using Cons.prems(2,3) by (auto simp: ht)
  have r: "r \<noteq> AC_GRANTED" "AC_GRANTED \<notin> set (verdicts ctx' es)" using Cons.prems(4) by (auto simp: ht ev)
  note s = evaluate_counts [OF Cons.prems(1) t(3,2) ev r(1)]
  have "int (count_list (verdicts ctx' es) AC_DENIED_UNKNOWN) \<le> budget ctx' t T"
    using Cons.prems(3) s t(3) r(2) by (intro Cons.IH) (auto simp: ht)
  then show ?case
    using s budget_mono [OF Cons.prems(1,2) t(1,2)] by (auto simp: ht ev split: if_splits)
qed


text \<open>A hash stands in at most one entry: the backend never issues one code twice.\<close>

definition hash_unique :: "ac_ctx \<Rightarrow> u8 list \<Rightarrow> bool" where
  "hash_unique ctx h \<longleftrightarrow> (\<forall>k k' f u tr f' u' tr'. ac_table ctx k = Some (h, f, u, tr) \<and>
     ac_table ctx k' = Some (h, f', u', tr') \<longrightarrow> k = k')"

lemma hash_uniqueD:
  assumes "hash_unique ctx h" "ac_table ctx k = Some (h, f, u, tr)" "ac_table ctx k' = Some (h, f', u', tr')"
  shows "k' = k" "f' = f" "u' = u" "tr' = tr"
proof -
  show k: "k' = k" using assms unfolding hash_unique_def by blast
  show "f' = f" "u' = u" "tr' = tr" using assms(2,3) by (simp_all add: k)
qed

text \<open>The verdict when the clock is trusted and no lockout runs: the last slot with the hash decides.\<close>

lemma evaluate_last:
  assumes "ac_inv ctx" "length h = AC_HASH_LEN" "0 \<le> now" "ac_clock_trusted ctx" "lockout_until ctx \<le> now"
  shows "ac_evaluate ctx (Some h) now =
    (case last_index_of (\<lambda>s. occupied s \<and> slot_hash s = h) (slots ctx) of
       None \<Rightarrow> (register_failure (ac_tick ctx now) now, AC_DENIED_UNKNOWN, None)
     | Some k \<Rightarrow> (let s = slots ctx ! k in
         if now < slot_from s then (ac_tick ctx now, AC_DENIED_NOT_YET, None)
         else if slot_until s < now then (ac_tick ctx now, AC_DENIED_EXPIRED, None)
         else (ctx\<lparr>failed_attempts := 0, lockout_until := 0\<rparr>, AC_GRANTED, Some (take AC_ID_LEN (slot_id s)))))"
proof -
  have free: "\<not> ac_is_locked_out (ac_tick ctx now) now"
    using assms(3,5) by (simp add: ac_tick_def ac_is_locked_out_def)
  have reset: "(ac_tick ctx now)\<lparr>failed_attempts := 0, lockout_until := 0\<rparr> =
      ctx\<lparr>failed_attempts := 0, lockout_until := 0\<rparr>"
    by (simp add: ac_tick_def)
  show ?thesis
    using assms(4) free
    by (simp add: ac_evaluate_def Let_def reset last_match_inv [OF assms(1,2)] split: option.split)
qed

lemma evaluate_match:
  assumes "ac_inv ctx" "length h = AC_HASH_LEN" "0 \<le> now" "ac_clock_trusted ctx" "lockout_until ctx \<le> now"
  shows "(\<forall>k f u tr. ac_table ctx k \<noteq> Some (h, f, u, tr)) \<and>
      ac_evaluate ctx (Some h) now = (register_failure (ac_tick ctx now) now, AC_DENIED_UNKNOWN, None)
    \<or> (\<exists>cid f u tr. ac_table ctx (cstr cid) = Some (h, f, u, tr) \<and>
        ac_evaluate ctx (Some h) now =
          (if now < f then (ac_tick ctx now, AC_DENIED_NOT_YET, None)
           else if u < now then (ac_tick ctx now, AC_DENIED_EXPIRED, None)
           else (ctx\<lparr>failed_attempts := 0, lockout_until := 0\<rparr>, AC_GRANTED, Some cid)))"
proof (cases "last_index_of (\<lambda>s. occupied s \<and> slot_hash s = h) (slots ctx)")
  case None
  then show ?thesis using evaluate_last [OF assms] last_match_None [OF assms(1), of h] by simp
next
  case (Some k)
  have id: "take AC_ID_LEN (slot_id (slots ctx ! k)) = slot_id (slots ctx ! k)"
    using ac_inv_slot_wf [OF assms(1)] last_match_Some(2) [OF assms(1) Some] by (intro slot_wf_id_take)
  show ?thesis
    using last_match_Some(1) [OF assms(1) Some] evaluate_last [OF assms] unfolding Some id option.case Let_def by blast
qed

text \<open>\<open>decides ctx h k\<close>: slot \<open>k\<close> holds the hash, and no slot after it does.\<close>

definition decides :: "ac_ctx \<Rightarrow> u8 list \<Rightarrow> nat \<Rightarrow> bool" where
  "decides ctx h k \<longleftrightarrow> k < AC_MAX_SLOTS \<and> occupied (slots ctx ! k) \<and> slot_hash (slots ctx ! k) = h \<and>
     (\<forall>j<AC_MAX_SLOTS. k < j \<longrightarrow> \<not> (occupied (slots ctx ! j) \<and> slot_hash (slots ctx ! j) = h))"

lemma decides_last:
  assumes "length (slots ctx) = AC_MAX_SLOTS"
  shows "decides ctx h k \<longleftrightarrow> last_index_of (\<lambda>s. occupied s \<and> slot_hash s = h) (slots ctx) = Some k"
proof
  assume k: "decides ctx h k"
  let ?P = "\<lambda>s. occupied s \<and> slot_hash s = h"
  obtain j where j: "last_index_of ?P (slots ctx) = Some j"
    using k assms by (cases "last_index_of ?P (slots ctx)") (auto simp: decides_def last_index_of_None)
  note d = last_index_of_SomeD [OF j]
  have "\<not> k < j" "\<not> j < k" using k d(1,2) d(3) [of k] assms by (auto simp: decides_def)
  with j show "last_index_of ?P (slots ctx) = Some k" by simp
next
  assume k: "last_index_of (\<lambda>s. occupied s \<and> slot_hash s = h) (slots ctx) = Some k"
  show "decides ctx h k" using last_index_of_SomeD [OF k] assms by (auto simp: decides_def)
qed

lemma evaluate_no_clock:
  "\<not> ac_clock_trusted ctx \<Longrightarrow> ac_evaluate ctx (Some h) now = (ctx, AC_DENIED_NO_CLOCK, None)"
  by (simp add: ac_evaluate_def)

lemma evaluate_locked:
  "ac_clock_trusted ctx \<Longrightarrow> now < lockout_until ctx \<Longrightarrow> ac_evaluate ctx (Some h) now = (ctx, AC_DENIED_LOCKOUT, None)"
  by (simp add: ac_evaluate_def ac_tick_def ac_is_locked_out_def)


section \<open>Properties\<close>

text \<open>A context for the witnesses: two failures allowed, five minutes of lockout, one code.\<close>

definition demo_ctx :: ac_ctx where
  "demo_ctx = foldl ac_step (ac_init 2 300)
     [Trust_clock True, Upsert ''0000002a'' (replicate 32 7) 100 200]"

lemma demo_inv: "ac_inv demo_ctx"
  using ac_run.run_inv [OF ac_good_init, of "[Trust_clock True, Upsert ''0000002a'' (replicate 32 7) 100 200]" 2 300]
  by (simp add: demo_ctx_def ac_good_def id_fits_def)

lemma demo_slots: "slots demo_ctx = \<lparr>occupied = True, transient = False,
    slot_id = ''0000002a'' @ [NUL], slot_hash = replicate 32 7, slot_from = 100, slot_until = 200\<rparr> # replicate 4 zero_slot"
  by code_simp

lemma demo_fields:
  "ac_clock_trusted demo_ctx" "lockout_until demo_ctx = 0" "failed_attempts demo_ctx = 0"
  "max_failed_attempts demo_ctx = 2" "lockout_seconds demo_ctx = 300"
  by code_simp+

lemma demo_table: "ac_table demo_ctx = [''0000002a'' \<mapsto> (replicate 32 7, 100, 200, False)]"
  by (rule ext) (simp add: ac_table_def demo_slots names_slot_def entry_of_def first_index_None)

lemma demo_unique: "hash_unique demo_ctx h"
  by (auto simp: hash_unique_def demo_table split: if_splits)


text \<open>C3: the gate's verdict is right both ways.  In a well-formed table and at a time that is not
  negative, a code is granted exactly when the clock is trusted, no lockout is running and the
  last slot that holds its hash has a window that contains the time (the byte-wise comparison is
  equality of hashes).  When no two entries of the table carry this hash, that is: the table holds
  an entry with this hash whose window contains the time; without that condition it is not, for
  an earlier slot with an open window does not count.\<close>

theorem evaluate_granted_iff:
  assumes "ac_inv ctx" "length h = AC_HASH_LEN" "0 \<le> now"
  shows "(fst (snd (ac_evaluate ctx (Some h) now)) = AC_GRANTED \<longleftrightarrow>
      ac_clock_trusted ctx \<and> lockout_until ctx \<le> now \<and>
      (\<exists>k. decides ctx h k \<and> slot_from (slots ctx ! k) \<le> now \<and> now \<le> slot_until (slots ctx ! k))) \<and>
    (hash_unique ctx h \<longrightarrow> (fst (snd (ac_evaluate ctx (Some h) now)) = AC_GRANTED \<longleftrightarrow>
      ac_clock_trusted ctx \<and> lockout_until ctx \<le> now \<and>
      (\<exists>k f u tr. ac_table ctx k = Some (h, f, u, tr) \<and> f \<le> now \<and> now \<le> u)))"
proof (cases "ac_clock_trusted ctx \<and> lockout_until ctx \<le> now")
  case False
  then have "fst (snd (ac_evaluate ctx (Some h) now)) \<noteq> AC_GRANTED"
    using evaluate_no_clock [of ctx h now] evaluate_locked [of ctx now h]
    by (cases "ac_clock_trusted ctx") auto
  with False show ?thesis by auto
next
  case True
  then have t: "ac_clock_trusted ctx" "lockout_until ctx \<le> now" by auto
  have len: "length (slots ctx) = AC_MAX_SLOTS" using assms(1) by (simp add: ac_inv_def)
  note ev = evaluate_last [OF assms t]
  show ?thesis
  proof (cases "last_index_of (\<lambda>s. occupied s \<and> slot_hash s = h) (slots ctx)")
    case None
    with ev t last_match_None [OF assms(1), of h] show ?thesis by (simp add: decides_last [OF len])
  next
    case (Some k)
    let ?s = "slots ctx ! k"
    have g: "fst (snd (ac_evaluate ctx (Some h) now)) = AC_GRANTED \<longleftrightarrow> slot_from ?s \<le> now \<and> now \<le> slot_until ?s"
      using ev Some by (auto simp: Let_def)
    have e: "ac_table ctx (cstr (slot_id ?s)) = Some (h, slot_from ?s, slot_until ?s, transient ?s)"
      by (rule last_match_Some(1) [OF assms(1) Some])
    have "(\<exists>k' f u tr. ac_table ctx k' = Some (h, f, u, tr) \<and> f \<le> now \<and> now \<le> u) \<longleftrightarrow>
        slot_from ?s \<le> now \<and> now \<le> slot_until ?s" if "hash_unique ctx h"
      using e hash_uniqueD [OF that e] by blast
    with g t Some show ?thesis by (simp add: decides_last [OF len])
  qed
qed

theorem evaluate_granted_iff_witness:
  "fst (snd (ac_evaluate demo_ctx (Some (replicate 32 7)) 150)) = AC_GRANTED"
proof -
  have "\<exists>k f u tr. ac_table demo_ctx k = Some (replicate 32 7, f, u, tr) \<and> f \<le> 150 \<and> 150 \<le> u"
    by (rule exI [of _ "''0000002a''"], rule exI [of _ 100], rule exI [of _ 200], rule exI [of _ False])
      (simp add: demo_table)
  then show ?thesis
    using evaluate_granted_iff [of demo_ctx "replicate 32 7" 150]
    by (simp add: demo_inv demo_unique demo_fields)
qed

text \<open>Whatever the table holds, a granted verdict comes with the id of an entry that has
  this hash and whose window contains the time, and clears the attempt counter and the lockout.\<close>

theorem evaluate_granted_sound:
  assumes "ac_inv ctx" "length h = AC_HASH_LEN" "0 \<le> now" "ac_evaluate ctx (Some h) now = (ctx', AC_GRANTED, out)"
  shows "\<exists>cid f u tr. out = Some cid \<and> ac_table ctx (cstr cid) = Some (h, f, u, tr) \<and> f \<le> now \<and> now \<le> u
    \<and> ac_clock_trusted ctx \<and> lockout_until ctx \<le> now
    \<and> ctx' = ctx\<lparr>failed_attempts := 0, lockout_until := 0\<rparr>"
proof -
  have t: "ac_clock_trusted ctx" "lockout_until ctx \<le> now"
    using assms(4) evaluate_no_clock [of ctx h now] evaluate_locked [of ctx now h] by force+
  from evaluate_match [OF assms(1-3) t] show ?thesis
    using t assms(4) by (auto split: if_splits)
qed

theorem evaluate_granted_sound_witness:
  "\<exists>f u. ac_table demo_ctx ''0000002a'' = Some (replicate 32 7, f, u, False) \<and> f \<le> 200 \<and> 200 \<le> u"
  using evaluate_granted_sound [of demo_ctx "replicate 32 7" 200 demo_ctx "Some (''0000002a'' @ [NUL])"]
    demo_inv
  by (simp add: ac_evaluate_def ac_tick_def ac_is_locked_out_def demo_fields demo_slots
      last_index_of_def upt_rec ct_equal_def demo_table)

text \<open>A known code presented outside its window costs nothing.  It is refused as too early
  or expired, and neither the attempt counter nor the lockout moves, apart from a lockout that
  had run out.\<close>

theorem evaluate_out_of_window_free:
  assumes "ac_inv ctx" "length h = AC_HASH_LEN" "0 \<le> now" "hash_unique ctx h"
    "ac_clock_trusted ctx" "lockout_until ctx \<le> now"
    "ac_table ctx k = Some (h, f, u, tr)" "now < f \<or> u < now"
  shows "ac_evaluate ctx (Some h) now =
    (ac_tick ctx now, if now < f then AC_DENIED_NOT_YET else AC_DENIED_EXPIRED, None)"
proof -
  from evaluate_match [OF assms(1-3,5,6)] show ?thesis
    using assms(7,8) hash_uniqueD [OF assms(4,7)] by (elim disjE exE conjE) auto
qed

theorem evaluate_out_of_window_free_witness:
  "ac_evaluate demo_ctx (Some (replicate 32 7)) 50 = (demo_ctx, AC_DENIED_NOT_YET, None)"
  using evaluate_out_of_window_free [of demo_ctx "replicate 32 7" 50 "''0000002a''" 100 200 False]
  by (simp add: demo_inv demo_unique demo_fields demo_table ac_tick_def)

text \<open>C5: guessing is rate limited.  From a state with no failure counted, over any sequence of
  typed codes none of which is granted, the number of codes answered as unknown by time \<open>T\<close> is
  at most one allowance for every started lockout period: the counter never wraps and no
  sequence of times, failures and ticks gains an extra try.\<close>

theorem guessing_rate_bounded:
  assumes "0 < max_failed_attempts ctx" "0 < lockout_seconds ctx" "failed_attempts ctx = 0" "lockout_until ctx = 0"
    "0 \<le> t0" "sorted_wrt (\<le>) (t0 # map snd es @ [T])" "AC_GRANTED \<notin> set (verdicts ctx es)"
  shows "int (count_list (verdicts ctx es) AC_DENIED_UNKNOWN) \<le>
    int (unat (max_failed_attempts ctx)) * ((T - t0) div lockout_seconds ctx + 1)"
proof -
  have "counting ctx" using assms(1-4) by (simp add: counting_def)
  from unknowns_budget [OF this assms(5-7)] show ?thesis
    using assms(3-5) by (simp add: budget_def Let_def algebra_simps)
qed

theorem guessing_rate_bounded_witness:
  "int (count_list (verdicts demo_ctx [(replicate 32 0, 1), (replicate 32 0, 2), (replicate 32 0, 3)]) AC_DENIED_UNKNOWN) \<le> 2"
proof -
  have "AC_GRANTED \<notin> set (verdicts demo_ctx [(replicate 32 0, 1), (replicate 32 0, 2), (replicate 32 0, 3)])"
    by code_simp
  then show ?thesis
    using guessing_rate_bounded [of demo_ctx 1 "[(replicate 32 0, 1), (replicate 32 0, 2), (replicate 32 0, 3)]" 3]
    by (simp add: demo_fields)
qed


text \<open>A lockout holds until its deadline.  Whatever is typed while it runs, the right code
  included, is refused as locked out, and nothing in the context changes, so typing neither
  shortens nor extends it.\<close>

theorem lockout_holds:
  assumes "ac_clock_trusted ctx" "\<forall>(h, t) \<in> set es. t < lockout_until ctx"
  shows "verdicts ctx es = replicate (length es) AC_DENIED_LOCKOUT
    \<and> foldl (\<lambda>c (h, t). fst (ac_evaluate c (Some h) t)) ctx es = ctx"
  using assms(2)
proof (induction es)
  case (Cons e es)
  then show ?case using evaluate_locked [OF assms(1)] by (cases e) simp
qed simp

theorem lockout_holds_witness:
  "verdicts (ac_restore_attempts demo_ctx 2 500) [(replicate 32 7, 150), (replicate 32 0, 499)] =
    [AC_DENIED_LOCKOUT, AC_DENIED_LOCKOUT]"
  using lockout_holds [of "ac_restore_attempts demo_ctx 2 500" "[(replicate 32 7, 150), (replicate 32 0, 499)]"]
  by (simp add: ac_restore_attempts_def demo_fields numeral_2_eq_2)

text \<open>C18: the slots implement a bounded map from ids to codes.  An upsert binds the id to exactly
  the code given, replacing what was there, or is refused and changes nothing when the id is
  empty, the window is empty, or the id is new and all five slots are taken; a revocation removes
  exactly its id, a bulk revocation exactly the transient entries, a purge exactly the entries
  whose window has ended.\<close>

theorem table_operations_refine:
  assumes "ac_inv ctx" "length (cstr i) < AC_ID_LEN" "length h = AC_HASH_LEN"
  shows "(let (ctx', r) = upsert ctx (Some i) (Some h) f u tr in
      if cstr i = [] \<or> u \<le> f \<or> ac_table ctx (cstr i) = None \<and> card (dom (ac_table ctx)) = AC_MAX_SLOTS
      then ctx' = ctx \<and> r = None
      else ac_table ctx' = (ac_table ctx)(cstr i \<mapsto> (h, f, u, tr)) \<and> r \<noteq> None)
    \<and> ac_table (fst (ac_revoke ctx (Some i))) = (ac_table ctx)(cstr i := None)
    \<and> (snd (ac_revoke ctx (Some i)) \<longleftrightarrow> cstr i \<in> dom (ac_table ctx))
    \<and> ac_table (fst (ac_revoke_transient ctx)) =
        (\<lambda>k. case ac_table ctx k of None \<Rightarrow> None | Some (h, f, u, tr) \<Rightarrow> if tr then None else Some (h, f, u, tr))
    \<and> ac_table (fst (ac_purge_expired ctx now)) =
        (\<lambda>k. case ac_table ctx k of None \<Rightarrow> None | Some (h, f, u, tr) \<Rightarrow> if u < now then None else Some (h, f, u, tr))"
proof -
  have "let (ctx', r) = upsert ctx (Some i) (Some h) f u tr in
      if cstr i = [] \<or> u \<le> f \<or> ac_table ctx (cstr i) = None \<and> card (dom (ac_table ctx)) = AC_MAX_SLOTS
      then ctx' = ctx \<and> r = None
      else ac_table ctx' = (ac_table ctx)(cstr i \<mapsto> (h, f, u, tr)) \<and> r \<noteq> None"
  proof (cases "cstr i = [] \<or> u \<le> f \<or> ac_table ctx (cstr i) = None \<and> ac_count ctx = AC_MAX_SLOTS")
    case True
    then show ?thesis
      using upsert_refused [OF assms(1), of i u f h tr] card_ac_table [OF assms(1)] by auto
  next
    case False
    then have g: "id_fits i" "f < u" "ac_table ctx (cstr i) \<noteq> None \<or> ac_count ctx < AC_MAX_SLOTS"
      using assms(2) ac_count_le [OF assms(1)] by (auto simp: id_fits_def)
    show ?thesis
      by (rule upsert_held [OF assms(1) g(1) assms(3) g(2,3), of tr])
        (use False card_ac_table [OF assms(1)] in \<open>auto simp: split_def Let_def\<close>)
  qed
  then show ?thesis
    using assms(1) by (auto simp: revoke_table revoke_found revoke_transient_table purge_table)
qed

theorem table_operations_refine_witness:
  "ac_table (fst (upsert demo_ctx (Some ''0000002b'') (Some (replicate 32 9)) 10 20 True)) =
    [''0000002a'' \<mapsto> (replicate 32 7, 100, 200, False), ''0000002b'' \<mapsto> (replicate 32 9, 10, 20, True)]"
  using table_operations_refine [OF demo_inv, of "''0000002b''" "replicate 32 9" 10 20 True 0]
  by (simp add: demo_table split_def Let_def)

text \<open>C19: the table is well formed along every run.  After any sequence of evaluations, ticks,
  inserts, revocations, purges and restores from \<open>ac_init\<close>, the five slots are terminated and
  sized, ids are unique, every stored window is non-empty, and a transient code never spans more
  than fifteen minutes, whatever window was asked for.\<close>

theorem runs_keep_table_good:
  assumes "list_all ac_legal es"
  shows "ac_inv (foldl ac_step (ac_init m l) es)
    \<and> card (dom (ac_table (foldl ac_step (ac_init m l) es))) \<le> AC_MAX_SLOTS
    \<and> (\<forall>k h f u tr. ac_table (foldl ac_step (ac_init m l) es) k = Some (h, f, u, tr) \<longrightarrow>
         f < u \<and> (tr \<longrightarrow> u \<le> f + 900))"
  using ac_run.run_inv [OF ac_good_init assms, of m l] card_ac_table ac_count_le
  by (simp add: ac_good_def windows_ok_def)

theorem runs_keep_table_good_witness:
  "let ctx = foldl ac_step (ac_init 3 300) [Upsert_transient ''DEV-1'' (replicate 32 1) 0 100000] in
     ac_inv ctx \<and> ac_table ctx ''DEV-1'' = Some (replicate 32 1, 0, 900, True) \<and> card (dom (ac_table ctx)) \<le> 5"
proof -
  have "ac_table (foldl ac_step (ac_init 3 300) [Upsert_transient ''DEV-1'' (replicate 32 1) 0 100000]) ''DEV-1''
      = Some (replicate 32 1, 0, 900, True)"
    by code_simp
  then show ?thesis
    using runs_keep_table_good [of "[Upsert_transient ''DEV-1'' (replicate 32 1) 0 100000]" 3 300]
    by (simp add: id_fits_def)
qed

lemma format_loop_iff:
  "format_loop s n d l x \<longleftrightarrow>
     length s + n = AC_CODE_LEN
     \<and> length (filter (\<lambda>c. CHR ''0'' \<le> c \<and> c \<le> CHR ''9'') s) + d = AC_REQUIRED_DIGITS
     \<and> length (filter (\<lambda>c. CHR ''A'' \<le> c \<and> c \<le> CHR ''D'') s) + l = AC_REQUIRED_LETTERS
     \<and> length (filter (\<lambda>c. c = CHR ''*'' \<or> c = CHR ''#'') s) + x = AC_REQUIRED_SPECIALS
     \<and> (\<forall>c\<in>set s. (CHR ''0'' \<le> c \<and> c \<le> CHR ''9'') \<or> (CHR ''A'' \<le> c \<and> c \<le> CHR ''D'') \<or> c = CHR ''*'' \<or> c = CHR ''#'')"
  by (induction s n d l x rule: format_loop.induct) (auto simp: Let_def less_eq_char_def)


text \<open>The typed code is accepted for evaluation exactly when it has nine keys, six digits, two
  of the letters A to D and one of the signs star and hash, in any order; the loop that counts
  and gives up early decides the same as counting the whole string.\<close>

theorem format_valid_iff:
  "ac_format_valid (Some s) \<longleftrightarrow> (let c = cstr s in
     length c = 9 \<and> length (filter (\<lambda>x. x \<in> set ''0123456789'') c) = 6 \<and>
     length (filter (\<lambda>x. x \<in> set ''ABCD'') c) = 2 \<and> length (filter (\<lambda>x. x \<in> set ''*#'') c) = 1)"
  (is "?L \<longleftrightarrow> ?R")
proof -
  let ?c = "cstr s" and ?d = "\<lambda>x. CHR ''0'' \<le> x \<and> x \<le> CHR ''9''"
    and ?l = "\<lambda>x. CHR ''A'' \<le> x \<and> x \<le> CHR ''D''" and ?s = "\<lambda>x. x = CHR ''*'' \<or> x = CHR ''#''"
  have d: "?d = (\<lambda>x. x \<in> set ''0123456789'')" and l: "?l = (\<lambda>x. x \<in> set ''ABCD'')"
    and x: "?s = (\<lambda>x. x \<in> set ''*#'')"
    unfolding char_range by simp_all
  have sum: "length c = length (filter ?d c) + length (filter ?l c) + length (filter ?s c) +
      length (filter (\<lambda>x. \<not> (?d x \<or> ?l x \<or> ?s x)) c)" for c
    by (induction c) (auto simp: less_eq_char_def)
  show ?thesis
    using sum [of ?c] unfolding ac_format_valid_def option.case format_loop_iff Let_def
      d [symmetric] l [symmetric] x [symmetric]
    by (auto simp: filter_empty_conv)
qed

text \<open>An id counts as a development code exactly when it is not eight lower-case hex
  characters, the form of every id the backend issues; empty and missing ids count too.\<close>

theorem id_is_dev_iff:
  "ac_id_is_dev cid \<longleftrightarrow>
     (\<forall>s. cid = Some s \<longrightarrow> \<not> (length (cstr s) = 8 \<and> list_all is_lower_hex (cstr s)))"
proof -
  have "id_is_dev_loop p n \<longleftrightarrow> \<not> (length p + n = 8 \<and> list_all is_lower_hex p)" for p n
    by (induction p n rule: id_is_dev_loop.induct) auto
  then show ?thesis by (auto simp: ac_id_is_dev_def split: option.splits)
qed

theorem id_is_dev_iff_witness:
  "\<not> ac_id_is_dev (Some ''0000002a'') \<and> ac_id_is_dev (Some ''DEV-1'') \<and> ac_id_is_dev None"
  using id_is_dev_iff [of "Some ''0000002a''"] id_is_dev_iff [of "Some ''DEV-1''"] id_is_dev_iff [of None]
  by (simp add: is_lower_hex_def)

text \<open>A table filled by two upserts of the same hash.\<close>

definition twice_ctx :: ac_ctx where
  "twice_ctx = foldl ac_step (ac_init 2 300)
     [Trust_clock True, Upsert ''0000002a'' (replicate 32 7) 100 200,
      Upsert ''0000002b'' (replicate 32 7) 100 120]"

text \<open>When two entries carry the same hash the scan keeps the last one, so a code whose window
  is open is refused as expired if a later slot holds the same hash with a window that has
  closed.\<close>

theorem duplicate_hash_last_slot_decides:
  "ac_inv twice_ctx \<and> ac_clock_trusted twice_ctx \<and> lockout_until twice_ctx \<le> 150
   \<and> ac_table twice_ctx ''0000002a'' = Some (replicate 32 7, 100, 200, False)
   \<and> fst (snd (ac_evaluate twice_ctx (Some (replicate 32 7)) 150)) = AC_DENIED_EXPIRED"
proof -
  have "ac_inv twice_ctx"
    using ac_run.run_inv [OF ac_good_init, of "[Trust_clock True, Upsert ''0000002a'' (replicate 32 7) 100 200,
      Upsert ''0000002b'' (replicate 32 7) 100 120]" 2 300]
    by (simp add: twice_ctx_def ac_good_def id_fits_def)
  moreover have "ac_clock_trusted twice_ctx" "lockout_until twice_ctx \<le> 150"
    "ac_table twice_ctx ''0000002a'' = Some (replicate 32 7, 100, 200, False)"
    "fst (snd (ac_evaluate twice_ctx (Some (replicate 32 7)) 150)) = AC_DENIED_EXPIRED"
    by code_simp+
  ultimately show ?thesis by simp
qed

end
