(* ===== verification/Ui.thy ===== *)
theory Ui
  imports Access_Verdict
begin

text \<open>
  \<^verbatim>\<open>components/ui\<close>: what the panel shows.  The guest-facing state machine, with
  its two clocks, and the rendering derived from it and from the access context.  The attempt
  counter and the lockout are read from the access context; the ui keeps no copy.
\<close>

section \<open>Data\<close>

abbreviation UI_CODE_LEN :: nat where "UI_CODE_LEN \<equiv> AC_CODE_LEN"
abbreviation UI_ENTRY_TIMEOUT_MS :: u32 where "UI_ENTRY_TIMEOUT_MS \<equiv> 10000"
abbreviation UI_GRANTED_MS :: u32 where "UI_GRANTED_MS \<equiv> 3000"
abbreviation UI_DENIED_MS :: u32 where "UI_DENIED_MS \<equiv> 2000"
abbreviation UI_INFO_MS :: u32 where "UI_INFO_MS \<equiv> 3000"

record ui_now =
  ms :: u32
  epoch :: i64

datatype ui_screen =
    UI_SCREEN_IDLE
  | UI_SCREEN_ENTRY
  | UI_SCREEN_GRANTED
  | UI_SCREEN_DENIED
  | UI_SCREEN_NOT_YET
  | UI_SCREEN_EXPIRED
  | UI_SCREEN_LOCKOUT
  | UI_SCREEN_NO_CLOCK

record ui_render_t =
  r_screen :: ui_screen
  progress_permille :: u16
  attempts_used :: u8
  attempts_max :: u8
  seconds_remaining :: u32
  panel_on :: bool

datatype ui_action = UI_ACTION_NONE | UI_ACTION_SUBMIT | UI_ACTION_CLEAR_BUFFER

record ui_ctx =
  screen :: ui_screen
  entry_len :: u8
  entry_deadline_ms :: u32
  screen_until_ms :: u32
  ui_clock_trusted :: bool


section \<open>Operations\<close>

definition permille_remaining_ms :: "u32 \<Rightarrow> u32 \<Rightarrow> u32 \<Rightarrow> u16" where
  "permille_remaining_ms now_ms deadline_ms span_ms =
     (if span_ms = 0 \<or> sint (deadline_ms - now_ms) \<le> 0 then 0
      else
        (let remaining = deadline_ms - now_ms in
         if remaining \<ge> span_ms then 1000 else ucast ((remaining * 1000) div span_ms)))"

definition permille_remaining_s :: "i64 \<Rightarrow> i64 \<Rightarrow> i32 \<Rightarrow> u16" where
  "permille_remaining_s now deadline span_s =
     (if span_s \<le> 0 \<or> deadline \<le> now then 0
      else
        (let remaining = deadline - now in
         if remaining \<ge> span_s then 1000 else word_of_int ((remaining * 1000) div span_s)))"

definition go_idle :: "ui_ctx \<Rightarrow> ui_ctx" where
  "go_idle ctx = ctx\<lparr>screen := UI_SCREEN_IDLE, entry_len := 0, entry_deadline_ms := 0,
     screen_until_ms := 0\<rparr>"

definition ui_init :: ui_ctx where
  "ui_init = \<lparr>screen = UI_SCREEN_IDLE, entry_len = 0, entry_deadline_ms = 0,
     screen_until_ms = 0, ui_clock_trusted = False\<rparr>"

definition ui_set_clock_trusted :: "ui_ctx \<Rightarrow> bool \<Rightarrow> ui_ctx" where
  "ui_set_clock_trusted ctx trusted =
     (let ctx = ctx\<lparr>ui_clock_trusted := trusted\<rparr> in if \<not> trusted then go_idle ctx else ctx)"

definition ui_on_key :: "ui_ctx \<Rightarrow> ac_ctx \<Rightarrow> ui_now \<Rightarrow> ui_ctx \<times> ui_action" where
  "ui_on_key ctx ac now =
     (if \<not> ui_clock_trusted ctx then
        (ctx\<lparr>entry_len := 0, screen := UI_SCREEN_NO_CLOCK,
             screen_until_ms := ms now + UI_INFO_MS\<rparr>, UI_ACTION_NONE)
      else if ac_is_locked_out ac (epoch now) then (ctx, UI_ACTION_NONE)
      else
        (let ctx = (if screen ctx \<noteq> UI_SCREEN_ENTRY
                    then ctx\<lparr>entry_len := 0, screen := UI_SCREEN_ENTRY\<rparr> else ctx);
             ctx = ctx\<lparr>entry_len := entry_len ctx + 1,
                       entry_deadline_ms := ms now + UI_ENTRY_TIMEOUT_MS\<rparr>
         in (ctx, if unat (entry_len ctx) \<ge> UI_CODE_LEN then UI_ACTION_SUBMIT else UI_ACTION_NONE)))"

definition ui_on_long_press :: "ui_ctx \<Rightarrow> ac_ctx \<Rightarrow> ui_now \<Rightarrow> ui_ctx \<times> ui_action" where
  "ui_on_long_press ctx ac now =
     (if ui_clock_trusted ctx \<and> ac_is_locked_out ac (epoch now) then (ctx, UI_ACTION_NONE)
      else (go_idle ctx, UI_ACTION_CLEAR_BUFFER))"

definition ui_on_result :: "ui_ctx \<Rightarrow> ac_ctx \<Rightarrow> ac_result \<Rightarrow> ui_now \<Rightarrow> ui_ctx \<times> ui_action" where
  "ui_on_result ctx ac r now =
     (let ctx = ctx\<lparr>entry_len := 0\<rparr> in
      (case r of
         AC_GRANTED \<Rightarrow>
           ctx\<lparr>screen := UI_SCREEN_GRANTED, screen_until_ms := ms now + UI_GRANTED_MS\<rparr>
       | AC_DENIED_NOT_YET \<Rightarrow>
           ctx\<lparr>screen := UI_SCREEN_NOT_YET, screen_until_ms := ms now + UI_INFO_MS\<rparr>
       | AC_DENIED_EXPIRED \<Rightarrow>
           ctx\<lparr>screen := UI_SCREEN_EXPIRED, screen_until_ms := ms now + UI_INFO_MS\<rparr>
       | AC_DENIED_NO_CLOCK \<Rightarrow>
           ctx\<lparr>screen := UI_SCREEN_NO_CLOCK, screen_until_ms := ms now + UI_INFO_MS\<rparr>
       | _ \<Rightarrow>
           if ac_is_locked_out ac (epoch now) then go_idle ctx
           else ctx\<lparr>screen := UI_SCREEN_DENIED, screen_until_ms := ms now + UI_DENIED_MS\<rparr>,
       UI_ACTION_CLEAR_BUFFER))"

definition ui_tick :: "ui_ctx \<Rightarrow> ac_ctx \<Rightarrow> ui_now \<Rightarrow> ui_ctx \<times> ui_action" where
  "ui_tick ctx ac now =
     (if ui_clock_trusted ctx \<and> ac_is_locked_out ac (epoch now)
      then (ctx\<lparr>entry_len := 0\<rparr>, UI_ACTION_NONE)
      else if screen ctx = UI_SCREEN_ENTRY then
        (if sint (entry_deadline_ms ctx - ms now) \<le> 0
         then (go_idle ctx, UI_ACTION_CLEAR_BUFFER) else (ctx, UI_ACTION_NONE))
      else if screen_until_ms ctx \<noteq> 0 \<and> sint (screen_until_ms ctx - ms now) \<le> 0
      then (go_idle ctx, UI_ACTION_NONE)
      else (ctx, UI_ACTION_NONE))"

definition ui_render :: "ui_ctx \<Rightarrow> ac_ctx \<Rightarrow> ui_now \<Rightarrow> ui_render_t" where
  "ui_render ctx ac now =
     (let r = \<lparr>r_screen = UI_SCREEN_IDLE, progress_permille = 0,
                attempts_used = failed_attempts ac, attempts_max = max_failed_attempts ac,
                seconds_remaining = 0, panel_on = False\<rparr>
      in if ui_clock_trusted ctx \<and> ac_is_locked_out ac (epoch now)
         then r\<lparr>r_screen := UI_SCREEN_LOCKOUT, panel_on := True,
                progress_permille :=
                  permille_remaining_s (epoch now) (lockout_until ac) (lockout_seconds ac),
                seconds_remaining := word_of_int (lockout_until ac - epoch now)\<rparr>
         else
           (let r = r\<lparr>r_screen := screen ctx, panel_on := (screen ctx \<noteq> UI_SCREEN_IDLE)\<rparr>
            in if screen ctx = UI_SCREEN_ENTRY
               then r\<lparr>progress_permille :=
                        permille_remaining_ms (ms now) (entry_deadline_ms ctx) UI_ENTRY_TIMEOUT_MS\<rparr>
               else r))"


section \<open>Invariant\<close>

text \<open>
  Between two calls an entry in progress has one to eight keys, shows the entry screen and needs
  a trusted clock.
\<close>

definition ui_inv :: "ui_ctx \<Rightarrow> bool" where
  "ui_inv ctx \<longleftrightarrow> unat (entry_len ctx) < UI_CODE_LEN \<and>
     (entry_len ctx \<noteq> 0 \<longrightarrow> screen ctx = UI_SCREEN_ENTRY \<and> ui_clock_trusted ctx)"

declare ui_inv_def [inv_defs]

lemma ui_inv_idle [simp]: "ui_inv (go_idle ctx)" "ui_inv ui_init"
  by (simp_all add: ui_inv_def go_idle_def ui_init_def)

lemma go_idle_simps [simp]:
  "entry_len (go_idle ctx) = 0" "screen (go_idle ctx) = UI_SCREEN_IDLE"
  "ui_clock_trusted (go_idle ctx) = ui_clock_trusted ctx"
  "screen_until_ms (go_idle ctx) = 0"
  by (simp_all add: go_idle_def)

lemma entry_len_plus_1:
  "unat (entry_len ctx) < UI_CODE_LEN \<Longrightarrow> unat (entry_len ctx + 1) = Suc (unat (entry_len ctx))"
  by (subst unat_add_lem [THEN iffD1]) simp_all

lemma ui_set_clock_trusted_inv: "ui_inv ctx \<Longrightarrow> ui_inv (ui_set_clock_trusted ctx b)"
  by (simp add: ui_set_clock_trusted_def Let_def) (simp add: ui_inv_def)

lemma ui_on_long_press_inv: "ui_inv ctx \<Longrightarrow> ui_inv (fst (ui_on_long_press ctx ac now))"
  by (simp add: ui_on_long_press_def)

lemma ui_on_result_idle [simp]:
  "entry_len (fst (ui_on_result ctx ac r now)) = 0"
  "ui_clock_trusted (fst (ui_on_result ctx ac r now)) = ui_clock_trusted ctx"
  by (simp_all add: ui_on_result_def Let_def split: ac_result.split)

lemma ui_on_result_inv: "ui_inv (fst (ui_on_result ctx ac r now))"
  by (simp add: ui_inv_def)

lemma ui_tick_inv: "ui_inv ctx \<Longrightarrow> ui_inv (fst (ui_tick ctx ac now))"
  by (simp add: ui_tick_def) (simp add: ui_inv_def)

text \<open>A key keeps the invariant unless it is the ninth, and then the action says so.\<close>

lemma ui_on_key_entry:
  assumes "ui_inv ctx" "ui_clock_trusted ctx" "\<not> ac_is_locked_out ac (epoch now)"
  shows "screen (fst (ui_on_key ctx ac now)) = UI_SCREEN_ENTRY"
    "unat (entry_len (fst (ui_on_key ctx ac now))) = Suc (unat (entry_len ctx))"
    "entry_deadline_ms (fst (ui_on_key ctx ac now)) = ms now + UI_ENTRY_TIMEOUT_MS"
    "ui_clock_trusted (fst (ui_on_key ctx ac now))"
    "snd (ui_on_key ctx ac now) =
       (if Suc (unat (entry_len ctx)) = UI_CODE_LEN then UI_ACTION_SUBMIT else UI_ACTION_NONE)"
  using assms entry_len_plus_1 [of ctx] by (auto simp: ui_on_key_def Let_def ui_inv_def)

lemma ui_on_key_inert:
  "ui_clock_trusted ctx \<Longrightarrow> ac_is_locked_out ac (epoch now) \<Longrightarrow>
     ui_on_key ctx ac now = (ctx, UI_ACTION_NONE)"
  "\<not> ui_clock_trusted ctx \<Longrightarrow> entry_len (fst (ui_on_key ctx ac now)) = 0"
  "\<not> ui_clock_trusted ctx \<Longrightarrow> snd (ui_on_key ctx ac now) = UI_ACTION_NONE"
  by (simp_all add: ui_on_key_def)

lemma ui_on_key_inv:
  assumes "ui_inv ctx" "snd (ui_on_key ctx ac now) \<noteq> UI_ACTION_SUBMIT"
  shows "ui_inv (fst (ui_on_key ctx ac now))"
proof (cases "ui_clock_trusted ctx \<and> \<not> ac_is_locked_out ac (epoch now)")
  case True
  then have t: "ui_clock_trusted ctx" "\<not> ac_is_locked_out ac (epoch now)" by auto
  have "Suc (unat (entry_len ctx)) \<noteq> UI_CODE_LEN"
    using assms ui_on_key_entry(5) [OF assms(1) t] by auto
  moreover have "unat (entry_len ctx) < UI_CODE_LEN" using assms(1) by (simp add: ui_inv_def)
  ultimately show ?thesis using ui_on_key_entry [OF assms(1) t] by (simp add: ui_inv_def)
next
  case False
  then show ?thesis using assms(1) by (auto simp: ui_on_key_def ui_inv_def)
qed


section \<open>Properties\<close>

text \<open>Keys pressed one after the other.\<close>

fun press_keys :: "ui_ctx \<Rightarrow> ac_ctx \<Rightarrow> ui_now list \<Rightarrow> ui_ctx" where
  "press_keys ctx ac [] = ctx"
| "press_keys ctx ac (n # ns) = press_keys (fst (ui_on_key ctx ac n)) ac ns"

lemma press_keys_entry:
  assumes "ui_inv ctx" "ui_clock_trusted ctx" "\<forall>n\<in>set ns. \<not> ac_is_locked_out ac (epoch n)"
    "unat (entry_len ctx) + length ns < UI_CODE_LEN" "ns \<noteq> []"
  shows "screen (press_keys ctx ac ns) = UI_SCREEN_ENTRY \<and>
    entry_deadline_ms (press_keys ctx ac ns) = ms (last ns) + UI_ENTRY_TIMEOUT_MS \<and>
    ui_clock_trusted (press_keys ctx ac ns)"
  using assms
proof (induction ns arbitrary: ctx)
  case (Cons n ns)
  let ?c = "fst (ui_on_key ctx ac n)"
  have u: "\<not> ac_is_locked_out ac (epoch n)" using Cons.prems(3) by simp
  note k = ui_on_key_entry [OF Cons.prems(1,2) u]
  have "snd (ui_on_key ctx ac n) \<noteq> UI_ACTION_SUBMIT" using Cons.prems(4) k(5) by auto
  then have inv: "ui_inv ?c" by (rule ui_on_key_inv [OF Cons.prems(1)])
  show ?case
  proof (cases ns)
    case Nil
    then show ?thesis using k by simp
  next
    case (Cons m ms)
    then have "screen (press_keys ?c ac ns) = UI_SCREEN_ENTRY \<and>
        entry_deadline_ms (press_keys ?c ac ns) = ui_now.ms (last ns) + UI_ENTRY_TIMEOUT_MS \<and>
        ui_clock_trusted (press_keys ?c ac ns)"
      using Cons.prems inv k by (intro Cons.IH) auto
    then show ?thesis using Cons by simp
  qed
qed simp

text \<open>The panel does not reveal how many keys have been entered.  Two entries of different
  lengths whose last keys were pressed at the same time are rendered identically at every later
  time, so only the time since the last key is visible.\<close>

theorem entry_length_hidden:
  assumes "ui_inv ctx" "entry_len ctx = 0" "ui_clock_trusted ctx"
    "\<forall>n\<in>set ns \<union> set ns'. \<not> ac_is_locked_out ac (epoch n)"
    "0 < length ns" "length ns < UI_CODE_LEN" "0 < length ns'" "length ns' < UI_CODE_LEN"
    "last ns = last ns'"
  shows "ui_render (press_keys ctx ac ns) ac now = ui_render (press_keys ctx ac ns') ac now"
  using press_keys_entry [of ctx ns ac] press_keys_entry [of ctx ns' ac] assms
  by (simp add: ui_render_def Let_def)

theorem entry_length_hidden_witness:
  "let ctx = ui_init\<lparr>ui_clock_trusted := True\<rparr>; k = \<lambda>t. \<lparr>ms = t, epoch = 150\<rparr> in
     ui_render (press_keys ctx demo_ctx [k 5, k 6, k 7, k 9]) demo_ctx (k 500) =
     ui_render (press_keys ctx demo_ctx [k 9]) demo_ctx (k 500)"
  using entry_length_hidden [of "ui_init\<lparr>ui_clock_trusted := True\<rparr>"
      "[\<lparr>ms = 5, epoch = 150\<rparr>, \<lparr>ms = 6, epoch = 150\<rparr>, \<lparr>ms = 7, epoch = 150\<rparr>, \<lparr>ms = 9, epoch = 150\<rparr>]"
      "[\<lparr>ms = 9, epoch = 150\<rparr>]" demo_ctx "\<lparr>ms = 500, epoch = 150\<rparr>"]
  by (simp add: ui_inv_def ui_init_def ac_is_locked_out_def demo_fields)

text \<open>An entry left alone is abandoned after ten seconds.  Ticks before that change nothing;
  the first tick from then on (for the next 24 days, whatever the counter reads and wherever it
  wraps) darkens the panel and tells the caller to clear its buffer.\<close>

theorem entry_times_out:
  assumes "ui_inv ctx" "ui_clock_trusted ctx" "\<not> ac_is_locked_out ac e" "\<not> ac_is_locked_out ac e'"
    "d < 10000 + 2 ^ 31"
  shows "let ctx' = fst (ui_on_key ctx ac \<lparr>ms = of_nat t, epoch = e\<rparr>) in
    ui_tick ctx' ac \<lparr>ms = of_nat (t + d), epoch = e'\<rparr> =
      (if d < 10000 then (ctx', UI_ACTION_NONE) else (go_idle ctx', UI_ACTION_CLEAR_BUFFER))"
proof -
  note k = ui_on_key_entry [OF assms(1,2), of ac "\<lparr>ms = of_nat t, epoch = e\<rparr>"]
  have "sint (of_nat t + of_nat 10000 - of_nat (t + d) :: u32) \<le> 0 \<longleftrightarrow> 10000 \<le> d"
    by (rule deadline_passed) (use assms(5) in simp_all)
  then have "sint (of_nat t + 10000 - of_nat (t + d) :: u32) \<le> 0 \<longleftrightarrow> 10000 \<le> d" by simp
  then show ?thesis using assms(3,4) k by (auto simp: ui_tick_def Let_def)
qed

theorem entry_times_out_witness:
  "snd (ui_tick (fst (ui_on_key (ui_init\<lparr>ui_clock_trusted := True\<rparr>) demo_ctx \<lparr>ms = 5, epoch = 150\<rparr>))
     demo_ctx \<lparr>ms = 10005, epoch = 160\<rparr>) = UI_ACTION_CLEAR_BUFFER"
  using entry_times_out [of "ui_init\<lparr>ui_clock_trusted := True\<rparr>" demo_ctx 150 160 10000 5]
  by (simp add: ui_inv_def ui_init_def ac_is_locked_out_def demo_fields Let_def)

text \<open>How long a verdict stays on the panel.\<close>

definition notice_ms :: "ac_result \<Rightarrow> nat" where
  "notice_ms r = (if r \<in> {AC_DENIED_UNKNOWN, AC_DENIED_BAD_FORMAT, AC_DENIED_LOCKOUT} then 2000 else 3000)"

lemma notice_armed:
  assumes "\<not> ac_is_locked_out ac (epoch now)"
  shows "screen_until_ms (fst (ui_on_result ctx ac r now)) = ms now + of_nat (notice_ms r)"
    "screen (fst (ui_on_result ctx ac r now)) \<notin> {UI_SCREEN_IDLE, UI_SCREEN_ENTRY}"
  using assms by (simp_all add: ui_on_result_def Let_def notice_ms_def split: ac_result.split)

text \<open>A verdict is shown for its time and then the panel goes dark: two seconds for a wrong
  code, three for the others.  This needs the deadline not to fall on zero of the wrapping
  counter, which the code uses for no deadline.\<close>

theorem notice_goes_dark:
  assumes "\<not> ac_is_locked_out ac e" "\<not> ac_is_locked_out ac e'"
    "(of_nat (t + notice_ms r) :: u32) \<noteq> 0" "d < notice_ms r + 2 ^ 31"
  shows "let ctx' = fst (ui_on_result ctx ac r \<lparr>ms = of_nat t, epoch = e\<rparr>) in
    fst (ui_tick ctx' ac \<lparr>ms = of_nat (t + d), epoch = e'\<rparr>) =
      (if d < notice_ms r then ctx' else go_idle ctx')"
proof -
  have "sint (of_nat t + of_nat (notice_ms r) - of_nat (t + d) :: u32) \<le> 0 \<longleftrightarrow> notice_ms r \<le> d"
    by (rule deadline_passed) (use assms(4) in \<open>simp_all add: notice_ms_def\<close>)
  then show ?thesis
    using assms(1-3) notice_armed [of ac "\<lparr>ms = of_nat t, epoch = e\<rparr>" ctx r]
    by (simp add: ui_tick_def Let_def)
qed

theorem notice_goes_dark_witness:
  "screen (fst (ui_tick (fst (ui_on_result ui_init demo_ctx AC_GRANTED \<lparr>ms = 7, epoch = 150\<rparr>))
     demo_ctx \<lparr>ms = 3007, epoch = 153\<rparr>)) = UI_SCREEN_IDLE"
  using notice_goes_dark [of demo_ctx 150 153 7 AC_GRANTED 3000 ui_init]
  by (simp add: ac_is_locked_out_def demo_fields Let_def notice_ms_def)

text \<open>When the deadline of a verdict does fall on zero of the counter, the panel keeps showing
  it: no number of ticks, at whatever times, takes it away.  Only a key or a long press does.\<close>

theorem notice_stuck_at_wrap:
  assumes "\<not> ac_is_locked_out ac e" "\<forall>n\<in>set ns. \<not> ac_is_locked_out ac (epoch n)"
  shows "let ctx' = fst (ui_on_result ctx ac AC_GRANTED \<lparr>ms = - 3000, epoch = e\<rparr>) in
    screen ctx' = UI_SCREEN_GRANTED \<and> foldl (\<lambda>c n. fst (ui_tick c ac n)) ctx' ns = ctx'"
proof -
  let ?c = "fst (ui_on_result ctx ac AC_GRANTED \<lparr>ms = - 3000, epoch = e\<rparr>)"
  have c: "screen ?c = UI_SCREEN_GRANTED" "screen_until_ms ?c = 0"
    by (simp_all add: ui_on_result_def)
  have "foldl (\<lambda>c n. fst (ui_tick c ac n)) ?c ns = ?c"
    using assms(2) by (induction ns) (simp_all add: ui_tick_def c)
  then show ?thesis by (simp add: c)
qed

theorem notice_stuck_at_wrap_witness:
  "screen (foldl (\<lambda>c n. fst (ui_tick c demo_ctx n))
     (fst (ui_on_result ui_init demo_ctx AC_GRANTED \<lparr>ms = - 3000, epoch = 150\<rparr>))
     [\<lparr>ms = 0, epoch = 153\<rparr>, \<lparr>ms = 60000, epoch = 213\<rparr>]) = UI_SCREEN_GRANTED"
  using notice_stuck_at_wrap [of demo_ctx 150 "[\<lparr>ms = 0, epoch = 153\<rparr>, \<lparr>ms = 60000, epoch = 213\<rparr>]" ui_init]
  by (simp add: ac_is_locked_out_def demo_fields Let_def)

end
