(* ===== verification/Gate_Ctrl.thy ===== *)
theory Gate_Ctrl
  imports Ui
begin

text \<open>
  \<^verbatim>\<open>components/gate_ctrl\<close>: from a key to a verdict.  The controller owns the typed characters,
  feeds the ui, and at nine keys hashes the buffer and asks the access core.  The hash
  (\<open>sha256(code || salt)\<close> on the target) is a parameter: all that is used of it is that it fills
  32 bytes.
\<close>

section \<open>Data\<close>

record gate_ctrl =
  g_ac :: ac_ctx
  g_ui :: ui_ctx
  buf :: string            \<comment> \<open>\<open>char buf[AC_CODE_LEN + 1]\<close>\<close>

record gate_out =
  submitted :: bool
  gate_result :: ac_result
  open_lock :: bool
  persist_attempts :: bool
  matched_id :: string

type_synonym gate_hash_fn = "string \<Rightarrow> u8 list"

abbreviation wiped_buf :: string where
  "wiped_buf \<equiv> replicate (AC_CODE_LEN + 1) NUL"

text \<open>\<open>memset(&out, 0, sizeof(out))\<close>; the zero of the result type is \<open>AC_GRANTED\<close>.\<close>

definition zero_out :: gate_out where
  "zero_out = \<lparr>submitted = False, gate_result = AC_GRANTED, open_lock = False,
     persist_attempts = False, matched_id = replicate AC_ID_LEN NUL\<rparr>"


section \<open>Operations\<close>

text \<open>\<open>while (n--) *v++ = 0;\<close> over a whole buffer.\<close>

definition wipe :: "string \<Rightarrow> string" where
  "wipe p = map (\<lambda>_. NUL) p"

definition attempts_changed :: "ac_ctx \<Rightarrow> u8 \<Rightarrow> i64 \<Rightarrow> bool" where
  "attempts_changed ac f0 l0 \<longleftrightarrow> failed_attempts ac \<noteq> f0 \<or> lockout_until ac \<noteq> l0"

definition gate_init :: "ac_ctx \<Rightarrow> ui_ctx \<Rightarrow> gate_ctrl" where
  "gate_init ac ui = \<lparr>g_ac = ac, g_ui = ui, buf = replicate (AC_CODE_LEN + 1) NUL\<rparr>"

definition submit :: "gate_hash_fn \<Rightarrow> gate_ctrl \<Rightarrow> ui_now \<Rightarrow> gate_out \<Rightarrow> gate_ctrl \<times> gate_out" where
  "submit hash g now out =
     (let f0 = failed_attempts (g_ac g);
          l0 = lockout_until (g_ac g);
          code = (buf g)[AC_CODE_LEN := NUL];
          h = hash (cstr code);
          (ac, r, cid) = ac_evaluate (g_ac g) (Some h) (epoch now);
          ui = fst (ui_on_result (g_ui g) ac r now)
      in (\<lparr>g_ac = ac, g_ui = ui, buf = wipe code\<rparr>,
          out\<lparr>submitted := True, gate_result := r, open_lock := (r = AC_GRANTED),
              persist_attempts := attempts_changed ac f0 l0,
              matched_id := (case cid of None \<Rightarrow> matched_id out | Some i \<Rightarrow> i)\<rparr>))"

definition gate_on_key :: "gate_hash_fn \<Rightarrow> gate_ctrl \<Rightarrow> char \<Rightarrow> ui_now \<Rightarrow> gate_ctrl \<times> gate_out" where
  "gate_on_key hash g key now =
     (let (ui, a) = ui_on_key (g_ui g) (g_ac g) now;
          g = g\<lparr>g_ui := ui\<rparr>;
          n = unat (entry_len ui)
      in if n = 0 then (g, zero_out)
         else
           (let g = (if n = 1 then g\<lparr>buf := wipe (buf g)\<rparr> else g);
                g = (if n \<le> AC_CODE_LEN then g\<lparr>buf := (buf g)[n - 1 := key]\<rparr> else g)
            in if a = UI_ACTION_SUBMIT then submit hash g now zero_out else (g, zero_out)))"

definition gate_on_long_press :: "gate_ctrl \<Rightarrow> ui_now \<Rightarrow> gate_ctrl \<times> gate_out" where
  "gate_on_long_press g now =
     (let (ui, a) = ui_on_long_press (g_ui g) (g_ac g) now;
          g = g\<lparr>g_ui := ui\<rparr>
      in (if a = UI_ACTION_CLEAR_BUFFER then g\<lparr>buf := wipe (buf g)\<rparr> else g, zero_out))"

definition gate_tick :: "gate_ctrl \<Rightarrow> ui_now \<Rightarrow> gate_ctrl \<times> gate_out" where
  "gate_tick g now =
     (let f0 = failed_attempts (g_ac g);
          l0 = lockout_until (g_ac g);
          g = (if ui_clock_trusted (g_ui g) then g\<lparr>g_ac := ac_tick (g_ac g) (epoch now)\<rparr> else g);
          (ui, a) = ui_tick (g_ui g) (g_ac g) now;
          g = g\<lparr>g_ui := ui\<rparr>;
          g = (if a = UI_ACTION_CLEAR_BUFFER then g\<lparr>buf := wipe (buf g)\<rparr> else g)
      in (g, zero_out\<lparr>persist_attempts := attempts_changed (g_ac g) f0 l0\<rparr>))"


section \<open>Invariant\<close>

text \<open>
  The buffer has its ten characters.  While an entry of \<open>n\<close> keys is in progress everything from
  position \<open>n\<close> on is NUL, so what is hashed at nine keys is exactly the nine keys.
\<close>

definition gate_inv :: "gate_ctrl \<Rightarrow> bool" where
  "gate_inv g \<longleftrightarrow> ac_good (g_ac g) \<and> ui_inv (g_ui g) \<and> length (buf g) = AC_CODE_LEN + 1"

declare gate_inv_def [inv_defs]

datatype gate_event =
    Key char ui_now
  | Long_press ui_now
  | Gate_tick ui_now

fun gate_step :: "gate_hash_fn \<Rightarrow> gate_ctrl \<Rightarrow> gate_event \<Rightarrow> gate_ctrl \<times> gate_out" where
  "gate_step hash g (Key k n) = gate_on_key hash g k n"
| "gate_step hash g (Long_press n) = gate_on_long_press g n"
| "gate_step hash g (Gate_tick n) = gate_tick g n"

lemma wipe_length [simp]: "length (wipe p) = length p"
  by (simp add: wipe_def)

lemma wipe_full: "length p = AC_CODE_LEN + 1 \<Longrightarrow> wipe p = wiped_buf"
  by (simp add: wipe_def map_replicate_const)

lemma ac_good_evaluate: "ac_good ctx \<Longrightarrow> ac_good (fst (ac_evaluate ctx h now))"
  using ac_good_slots [of "fst (ac_evaluate ctx h now)" ctx] by simp

lemma ac_good_tick: "ac_good ctx \<Longrightarrow> ac_good (ac_tick ctx now)"
  using ac_good_slots [of "ac_tick ctx now" ctx] by simp

lemma submit_inv:
  assumes "ac_good (g_ac g)" "length (buf g) = AC_CODE_LEN + 1"
  shows "gate_inv (fst (submit hash g now out))" "buf (fst (submit hash g now out)) = wiped_buf"
    "entry_len (g_ui (fst (submit hash g now out))) = 0"
proof -
  obtain ac r cid where e: "ac_evaluate (g_ac g) (Some (hash (cstr ((buf g)[AC_CODE_LEN := NUL])))) (epoch now) = (ac, r, cid)"
    by (cases "ac_evaluate (g_ac g) (Some (hash (cstr ((buf g)[AC_CODE_LEN := NUL])))) (epoch now)")
  with assms(1) have "ac_good ac" using ac_good_evaluate by (metis fst_conv)
  then show "gate_inv (fst (submit hash g now out))" "buf (fst (submit hash g now out)) = wiped_buf"
    "entry_len (g_ui (fst (submit hash g now out))) = 0"
    using assms(2) by (simp_all add: submit_def Let_def e gate_inv_def ui_on_result_inv wipe_full)
qed

text \<open>The buffer after a key was stored at the position the ui reports.\<close>

definition stored :: "gate_ctrl \<Rightarrow> nat \<Rightarrow> char \<Rightarrow> string" where
  "stored g n key =
     (let b = (if n = 1 then wipe (buf g) else buf g) in
      if n \<noteq> 0 \<and> n \<le> AC_CODE_LEN then b[n - 1 := key] else b)"

lemma length_stored [simp]: "length (stored g n key) = length (buf g)"
  by (simp add: stored_def Let_def)

lemma gate_on_key_stored:
  "gate_on_key hash g key now =
     (let (ui, a) = ui_on_key (g_ui g) (g_ac g) now;
          n = unat (entry_len ui);
          g' = g\<lparr>g_ui := ui, buf := (if n = 0 then buf g else stored g n key)\<rparr>
      in if n \<noteq> 0 \<and> a = UI_ACTION_SUBMIT then submit hash g' now zero_out else (g', zero_out))"
  by (simp add: gate_on_key_def stored_def Let_def split_def)

lemma gate_on_key_inv:
  assumes "gate_inv g"
  shows "gate_inv (fst (gate_on_key hash g key now))"
proof -
  obtain ui a where u: "ui_on_key (g_ui g) (g_ac g) now = (ui, a)" by (cases "ui_on_key (g_ui g) (g_ac g) now")
  have g: "ac_good (g_ac g)" "length (buf g) = AC_CODE_LEN + 1" using assms by (simp_all add: gate_inv_def)
  show ?thesis
  proof (cases "unat (entry_len ui) \<noteq> 0 \<and> a = UI_ACTION_SUBMIT")
    case True
    then show ?thesis using g by (simp add: gate_on_key_stored u Let_def submit_inv(1))
  next
    case False
    have "ui_inv ui"
    proof (cases "a = UI_ACTION_SUBMIT")
      case True
      with False have "entry_len ui = 0" by (simp add: unat_eq_zero)
      then show ?thesis by (simp add: ui_inv_def)
    next
      case False
      then show ?thesis
        using ui_on_key_inv [of "g_ui g" "g_ac g" now] assms by (simp add: u gate_inv_def)
    qed
    then show ?thesis using False g by (auto simp: gate_on_key_stored u Let_def gate_inv_def)
  qed
qed

lemma gate_step_inv:
  assumes "gate_inv g"
  shows "gate_inv (fst (gate_step hash g e))"
proof (cases e)
  case (Key k n)
  then show ?thesis using assms by (simp add: gate_on_key_inv)
next
  case (Long_press n)
  then show ?thesis
    using assms ui_on_long_press_inv [of "g_ui g" "g_ac g" n]
    by (simp add: gate_on_long_press_def gate_inv_def split_def Let_def)
next
  case (Gate_tick n)
  then show ?thesis
    using assms ui_tick_inv [of "g_ui g" _ n] ac_good_tick
    by (simp add: gate_tick_def gate_inv_def split_def Let_def)
qed

text \<open>A step judges: it changes the counters of the table and nothing else in it.\<close>

lemma evaluate_clock [simp]: "ac_clock_trusted (fst (ac_evaluate ctx h now)) = ac_clock_trusted ctx"
  by (cases h) (simp_all add: ac_evaluate_def register_failure_def Let_def split_def split: option.split)

lemma submit_table:
  "slots (g_ac (fst (submit hash g now out))) = slots (g_ac g)"
  "ac_clock_trusted (g_ac (fst (submit hash g now out))) = ac_clock_trusted (g_ac g)"
  by (simp_all add: submit_def split_def Let_def)

lemma gate_step_table:
  "slots (g_ac (fst (gate_step hash g e))) = slots (g_ac g)"
  "ac_clock_trusted (g_ac (fst (gate_step hash g e))) = ac_clock_trusted (g_ac g)"
  by (cases e; simp add: gate_on_key_stored gate_on_long_press_def gate_tick_def split_def Let_def submit_table)+

interpretation gate_run: machine "\<lambda>g e. fst (gate_step hash g e)" gate_inv "\<lambda>_. True" for hash
  by unfold_locales (rule gate_step_inv)

lemma gate_inv_init: "ac_good ac \<Longrightarrow> ui_inv ui \<Longrightarrow> gate_inv (gate_init ac ui)"
  by (simp add: gate_init_def gate_inv_def)


section \<open>Typing a code\<close>

text \<open>The keys \<open>p\<close> of the entry in progress are what the buffer holds, and nothing else.\<close>

definition typing :: "gate_ctrl \<Rightarrow> string \<Rightarrow> bool" where
  "typing g p \<longleftrightarrow> gate_inv g \<and> ui_clock_trusted (g_ui g) \<and> unat (entry_len (g_ui g)) = length p \<and>
     NUL \<notin> set p \<and> (p \<noteq> [] \<longrightarrow> buf g = p @ replicate (AC_CODE_LEN + 1 - length p) NUL)"

lemma stored_typing:
  assumes "typing g p" "length p < AC_CODE_LEN"
  shows "stored g (Suc (length p)) key = (p @ [key]) @ replicate (AC_CODE_LEN - length p) NUL"
proof (cases p)
  case Nil
  then show ?thesis
    using assms by (simp add: stored_def typing_def gate_inv_def wipe_full numeral_eq_Suc)
next
  case (Cons c cs)
  then have b: "buf g = p @ replicate (AC_CODE_LEN + 1 - length p) NUL" using assms(1) by (simp add: typing_def)
  have "replicate (AC_CODE_LEN + 1 - length p) NUL = NUL # replicate (AC_CODE_LEN - length p) NUL"
    using assms(2) by (simp add: Suc_diff_le replicate_Suc [symmetric] del: replicate_Suc)
  then show ?thesis using Cons assms(2) by (simp add: stored_def b list_update_append)
qed

lemma key_typing:
  assumes "typing g p" "length p < AC_CODE_LEN" "key \<noteq> NUL" "\<not> ac_is_locked_out (g_ac g) (epoch now)"
  obtains g' where "g_ac g' = g_ac g" "buf g' = (p @ [key]) @ replicate (AC_CODE_LEN - length p) NUL"
    "ui_clock_trusted (g_ui g')" "unat (entry_len (g_ui g')) = Suc (length p)"
    "gate_on_key hash g key now =
       (if Suc (length p) = AC_CODE_LEN then submit hash g' now zero_out else (g', zero_out))"
proof -
  have t: "ui_inv (g_ui g)" "ui_clock_trusted (g_ui g)" and n: "unat (entry_len (g_ui g)) = length p"
    using assms(1) by (simp_all add: typing_def gate_inv_def)
  note k = ui_on_key_entry [OF t assms(4)]
  let ?ui = "fst (ui_on_key (g_ui g) (g_ac g) now)"
  let ?g = "g\<lparr>g_ui := ?ui, buf := stored g (Suc (length p)) key\<rparr>"
  show ?thesis
  proof (rule that [of ?g])
    show "buf ?g = (p @ [key]) @ replicate (AC_CODE_LEN - length p) NUL"
      using stored_typing [OF assms(1,2)] by simp
    show "gate_on_key hash g key now =
       (if Suc (length p) = AC_CODE_LEN then submit hash ?g now zero_out else (?g, zero_out))"
      using k n by (simp add: gate_on_key_stored split_def Let_def)
  qed (use k n in simp_all)
qed

text \<open>Keys typed one after the other, with what each call returned.\<close>

fun type_keys :: "gate_hash_fn \<Rightarrow> gate_ctrl \<Rightarrow> (char \<times> ui_now) list \<Rightarrow> gate_ctrl \<times> gate_out list" where
  "type_keys hash g [] = (g, [])"
| "type_keys hash g ((k, n) # kns) =
     (let (g1, out) = gate_on_key hash g k n; (g2, outs) = type_keys hash g1 kns in (g2, out # outs))"

lemma type_keys_typing:
  assumes "typing g p" "length p + length kns < AC_CODE_LEN" "NUL \<notin> fst ` set kns"
    "\<forall>(k, n) \<in> set kns. \<not> ac_is_locked_out (g_ac g) (epoch n)"
  shows "typing (fst (type_keys hash g kns)) (p @ map fst kns)
    \<and> g_ac (fst (type_keys hash g kns)) = g_ac g
    \<and> snd (type_keys hash g kns) = replicate (length kns) zero_out"
  using assms
proof (induction kns arbitrary: g p)
  case (Cons kn kns)
  obtain k n where kn: "kn = (k, n)" by (cases kn)
  have k: "k \<noteq> NUL" "\<not> ac_is_locked_out (g_ac g) (epoch n)" "length p < AC_CODE_LEN"
    using Cons.prems by (auto simp: kn)
  from key_typing [OF Cons.prems(1) k(3,1,2), of hash] obtain g' where
    g': "g_ac g' = g_ac g" "buf g' = (p @ [k]) @ replicate (AC_CODE_LEN - length p) NUL"
      "ui_clock_trusted (g_ui g')" "unat (entry_len (g_ui g')) = Suc (length p)"
    and on: "gate_on_key hash g k n =
       (if Suc (length p) = AC_CODE_LEN then submit hash g' n zero_out else (g', zero_out))"
    by blast
  have lt: "Suc (length p) < AC_CODE_LEN" using Cons.prems(2) by (simp add: kn)
  then have on: "gate_on_key hash g k n = (g', zero_out)" using on by simp
  have "gate_inv g'" using gate_on_key_inv [of g hash k n] Cons.prems(1) on by (simp add: typing_def)
  then have ty: "typing g' (p @ [k])"
    using g' k(1) Cons.prems(1) lt by (simp add: typing_def)
  have "typing (fst (type_keys hash g' kns)) ((p @ [k]) @ map fst kns)
    \<and> g_ac (fst (type_keys hash g' kns)) = g_ac g'
    \<and> snd (type_keys hash g' kns) = replicate (length kns) zero_out"
    using Cons.prems g'(1) by (intro Cons.IH [OF ty]) (auto simp: kn)
  then show ?case by (simp add: kn on g'(1) split_def Let_def)
qed simp

lemma type_keys_snoc:
  "type_keys hash g (kns @ [(k, n)]) =
     (let (g1, outs) = type_keys hash g kns; (g2, out) = gate_on_key hash g1 k n in (g2, outs @ [out]))"
proof (induction kns arbitrary: g)
  case (Cons a kns)
  then show ?case by (cases a) (simp add: split_def Let_def)
qed (simp add: split_def)

lemma typing_fresh:
  assumes "gate_inv g" "entry_len (g_ui g) = 0" "ui_clock_trusted (g_ui g)"
  shows "typing g []"
  using assms by (simp add: typing_def)


section \<open>Properties\<close>

text \<open>Nine keys are judged as typed.  From a state with no entry in progress, the first eight
  keys return nothing to do; the ninth submits, and the verdict, the new access context and the
  order to open the lock are those of evaluating the hash of exactly the nine keys at the time of
  the ninth; afterwards the buffer is all NUL and no entry is in progress.\<close>

theorem nine_keys_decide:
  assumes "gate_inv g" "entry_len (g_ui g) = 0" "ui_clock_trusted (g_ui g)"
    "length kns = AC_CODE_LEN" "NUL \<notin> fst ` set kns"
    "\<forall>(k, n) \<in> set kns. \<not> ac_is_locked_out (g_ac g) (epoch n)"
    "ac_evaluate (g_ac g) (Some (hash (map fst kns))) (epoch (snd (last kns))) = (ac', r, cid)"
    "type_keys hash g kns = (g', outs)"
  shows "map submitted outs = replicate 8 False @ [True]
    \<and> map open_lock outs = replicate 8 False @ [r = AC_GRANTED]
    \<and> gate_result (last outs) = r \<and> g_ac g' = ac' \<and> buf g' = wiped_buf \<and> entry_len (g_ui g') = 0"
proof -
  define xs where "xs = butlast kns"
  obtain k n where l: "last kns = (k, n)" by (cases "last kns")
  have "kns \<noteq> []" using assms(4) by auto
  then have kns: "kns = xs @ [(k, n)]" by (simp add: xs_def l [symmetric])
  have len: "length xs = 8" using assms(4) by (simp add: kns)
  have k: "k \<noteq> NUL" "\<not> ac_is_locked_out (g_ac g) (epoch n)" using assms(5,6) by (auto simp: kns)
  let ?g1 = "fst (type_keys hash g xs)"
  have "typing ?g1 ([] @ map fst xs) \<and> g_ac ?g1 = g_ac g \<and> snd (type_keys hash g xs) = replicate (length xs) zero_out"
    by (rule type_keys_typing [OF typing_fresh [OF assms(1-3)]])
      (use assms(5,6) len in \<open>auto simp: kns\<close>)
  then have t: "typing ?g1 (map fst xs)" and ac: "g_ac ?g1 = g_ac g"
    and o8: "snd (type_keys hash g xs) = replicate 8 zero_out" by (simp_all add: len)
  have lt: "length (map fst xs) < AC_CODE_LEN" by (simp add: len)
  from key_typing [OF t lt k(1), of n hash] k(2) ac len obtain g2 where
    g2: "g_ac g2 = g_ac g" "buf g2 = map fst xs @ [k, NUL]"
    and on: "gate_on_key hash ?g1 k n = submit hash g2 n zero_out"
    by (auto simp: numeral_eq_Suc)
  have code: "cstr ((buf g2)[AC_CODE_LEN := NUL]) = map fst kns" "length (buf g2) = AC_CODE_LEN + 1"
    using assms(5) len k(1) by (auto simp: g2 kns list_update_append cstr_append cstr_id)
  have ty: "type_keys hash g kns = (fst (submit hash g2 n zero_out),
      replicate 8 zero_out @ [snd (submit hash g2 n zero_out)])"
    using o8 on by (simp add: kns type_keys_snoc split_def Let_def)
  have e: "ac_evaluate (g_ac g2) (Some (hash (cstr ((buf g2)[AC_CODE_LEN := NUL])))) (epoch n) = (ac', r, cid)"
    using assms(7) by (simp only: g2(1) code(1)) (simp add: kns)
  have sub: "submitted (snd (submit hash g2 n zero_out))" "gate_result (snd (submit hash g2 n zero_out)) = r"
    "open_lock (snd (submit hash g2 n zero_out)) \<longleftrightarrow> r = AC_GRANTED" "g_ac (fst (submit hash g2 n zero_out)) = ac'"
    by (simp_all only: submit_def e Let_def split_conv) simp_all
  have good: "ac_good (g_ac g2)" using assms(1) by (simp add: g2 gate_inv_def)
  note s = submit_inv [OF good code(2), of hash n zero_out]
  show ?thesis using assms(8) sub s(2,3) by (auto simp: ty zero_out_def)
qed

text \<open>A gate with a toy hash that copies the nine keys into the first bytes, for the witnesses.\<close>

definition demo_hash :: gate_hash_fn where
  "demo_hash s = take 32 (map of_char s @ replicate 32 0)"

definition demo_gate :: gate_ctrl where
  "demo_gate = gate_init
     (foldl ac_step (ac_init 2 300) [Trust_clock True, Upsert ''0000002a'' (demo_hash ''12A34B56#'') 100 200])
     (ui_init\<lparr>ui_clock_trusted := True\<rparr>)"

lemma demo_gate_inv: "gate_inv demo_gate"
proof -
  have "ac_good (foldl ac_step (ac_init 2 300) [Trust_clock True, Upsert ''0000002a'' (demo_hash ''12A34B56#'') 100 200])"
    by (rule ac_run.run_inv [OF ac_good_init]) (simp add: id_fits_def demo_hash_def)
  then show ?thesis unfolding demo_gate_def by (rule gate_inv_init) (simp add: ui_inv_def ui_init_def)
qed

lemma demo_gate_fields:
  "entry_len (g_ui demo_gate) = 0" "ui_clock_trusted (g_ui demo_gate)" "lockout_until (g_ac demo_gate) = 0"
  by code_simp+

abbreviation demo_keys :: "(char \<times> ui_now) list" where
  "demo_keys \<equiv> map (\<lambda>c. (c, \<lparr>ms = 5, epoch = 150\<rparr>)) ''12A34B56#''"

theorem nine_keys_decide_witness:
  "map open_lock (snd (type_keys demo_hash demo_gate demo_keys)) = replicate 8 False @ [True]"
proof -
  have "fst (snd (ac_evaluate (g_ac demo_gate) (Some (demo_hash ''12A34B56#'')) 150)) = AC_GRANTED"
    by code_simp
  then obtain ac' cid where
    "ac_evaluate (g_ac demo_gate) (Some (demo_hash ''12A34B56#'')) 150 = (ac', AC_GRANTED, cid)"
    by (metis prod.collapse)
  then show ?thesis
    using nine_keys_decide [of demo_gate demo_keys demo_hash ac' AC_GRANTED cid
        "fst (type_keys demo_hash demo_gate demo_keys)" "snd (type_keys demo_hash demo_gate demo_keys)"]
    by (simp add: demo_gate_inv demo_gate_fields ac_is_locked_out_def del: type_keys.simps)
qed

text \<open>Only a key reaches \<open>submit\<close>, and only while an entry of eight keys is in progress.\<close>

lemma opens_by_submit:
  assumes "gate_inv g" "gate_step hash g e = (g', out)" "open_lock out"
  obtains key now g1 where "e = Key key now" "g_ac g1 = g_ac g"
    "buf g1 = stored g AC_CODE_LEN key" "(g', out) = submit hash g1 now zero_out"
    "ui_clock_trusted (g_ui g)" "\<not> ac_is_locked_out (g_ac g) (epoch now)"
    "unat (entry_len (g_ui g)) = AC_CODE_LEN - 1"
proof (cases e)
  case (Key key now)
  obtain ui a where u: "ui_on_key (g_ui g) (g_ac g) now = (ui, a)"
    by (cases "ui_on_key (g_ui g) (g_ac g) now")
  let ?n = "unat (entry_len ui)"
  let ?g1 = "g\<lparr>g_ui := ui, buf := stored g ?n key\<rparr>"
  have sub: "?n \<noteq> 0 \<and> a = UI_ACTION_SUBMIT" and out: "(g', out) = submit hash ?g1 now zero_out"
    using assms(2,3) by (auto simp: Key gate_on_key_stored u Let_def zero_out_def split: if_splits)
  have inv: "ui_inv (g_ui g)" using assms(1) by (simp add: gate_inv_def)
  have t: "ui_clock_trusted (g_ui g)" "\<not> ac_is_locked_out (g_ac g) (epoch now)"
    using sub u ui_on_key_inert(1) [of "g_ui g" "g_ac g" now] ui_on_key_inert(3) [of "g_ui g" "g_ac g" now]
    by auto
  note k = ui_on_key_entry [OF inv t]
  have n: "?n = AC_CODE_LEN" "unat (entry_len (g_ui g)) = AC_CODE_LEN - 1"
    using sub u k(2,5) by (auto split: if_splits)
  show ?thesis using that [OF Key, of ?g1] out t n by simp
next
  case (Long_press now)
  then show ?thesis using assms(2,3) by (auto simp: gate_on_long_press_def Let_def split_def zero_out_def)
next
  case (Gate_tick now)
  then show ?thesis using assms(2,3) by (auto simp: gate_tick_def Let_def split_def zero_out_def)
qed

text \<open>What an order to open implies, for the callers of the controller.\<close>

lemma open_order_sound:
  assumes "gate_inv g" "\<forall>s. length (hash s) = AC_HASH_LEN" "gate_step hash g e = (g', out)" "open_lock out"
    "\<forall>key now. e = Key key now \<longrightarrow> 0 \<le> epoch now"
  shows "\<exists>key now cid f u tr. e = Key key now \<and> unat (entry_len (g_ui g)) = 8
    \<and> ac_table (g_ac g) (cstr cid) =
        Some (hash (cstr ((stored g AC_CODE_LEN key)[AC_CODE_LEN := NUL])), f, u, tr)
    \<and> f \<le> epoch now \<and> epoch now \<le> u
    \<and> ac_clock_trusted (g_ac g) \<and> ui_clock_trusted (g_ui g) \<and> lockout_until (g_ac g) \<le> epoch now
    \<and> submitted out \<and> gate_result out = AC_GRANTED \<and> matched_id out = cid"
proof -
  from opens_by_submit [OF assms(1,3,4)] obtain key now g1 where
    e: "e = Key key now" and g1: "g_ac g1 = g_ac g" "buf g1 = stored g AC_CODE_LEN key"
    and sub: "(g', out) = submit hash g1 now zero_out"
    and t: "ui_clock_trusted (g_ui g)" "\<not> ac_is_locked_out (g_ac g) (epoch now)"
    and n: "unat (entry_len (g_ui g)) = AC_CODE_LEN - 1"
    by blast
  let ?h = "hash (cstr ((stored g AC_CODE_LEN key)[AC_CODE_LEN := NUL]))"
  obtain ac r c where ev: "ac_evaluate (g_ac g) (Some ?h) (epoch now) = (ac, r, c)"
    by (cases "ac_evaluate (g_ac g) (Some ?h) (epoch now)")
  have out: "r = AC_GRANTED" "submitted out" "gate_result out = r"
    "matched_id out = (case c of None \<Rightarrow> matched_id zero_out | Some i \<Rightarrow> i)"
    using sub assms(4) by (simp_all add: submit_def g1 ev Let_def)
  have inv: "ac_inv (g_ac g)" and h: "length ?h = AC_HASH_LEN" and now: "0 \<le> epoch now"
    using assms(1,2,5) e by (simp_all add: gate_inv_def ac_good_def)
  have c: "ac_clock_trusted (g_ac g)" "lockout_until (g_ac g) \<le> epoch now"
    using ev out(1) evaluate_no_clock [of "g_ac g" ?h "epoch now"] t(2)
    by (auto simp: ac_is_locked_out_def)
  from evaluate_match [OF inv h now c] obtain cid f u tr where
    "ac_table (g_ac g) (cstr cid) = Some (?h, f, u, tr)" "c = Some cid" "f \<le> epoch now" "epoch now \<le> u"
    using ev out(1) by (auto split: if_splits)
  with e n t c out show ?thesis by auto
qed

lemma open_needs_clock:
  assumes "gate_inv g" "gate_step hash g e = (g', out)" "open_lock out"
  shows "ac_clock_trusted (g_ac g)"
proof -
  obtain key now g1 where "e = Key key now" and g1: "g_ac g1 = g_ac g" and "buf g1 = stored g AC_CODE_LEN key"
    and sub: "(g', out) = submit hash g1 now zero_out"
    by (rule opens_by_submit [OF assms])
  show ?thesis
  proof (rule ccontr)
    assume "\<not> ?thesis"
    then have "ac_evaluate (g_ac g1) (Some h) t = (g_ac g1, AC_DENIED_NO_CLOCK, None)" for h t
      by (simp add: ac_evaluate_def g1)
    then show False using sub assms(3) by (simp add: submit_def Let_def)
  qed
qed

text \<open>The lock is ordered open only for a valid code.  Whatever the state and the event, an
  order to open comes from the ninth key of an entry, with trusted clocks and no lockout, and the
  table holds an entry for the hash of the nine characters whose window contains the time.\<close>

theorem opens_only_for_valid_code:
  assumes "gate_inv g" "\<forall>s. length (hash s) = AC_HASH_LEN" "gate_step hash g e = (g', out)" "open_lock out"
    "\<forall>key now. e = Key key now \<longrightarrow> 0 \<le> epoch now"
  shows "\<exists>key now cid f u tr. e = Key key now \<and> unat (entry_len (g_ui g)) = 8
    \<and> ac_table (g_ac g) (cstr cid) =
        Some (hash (cstr ((stored g AC_CODE_LEN key)[AC_CODE_LEN := NUL])), f, u, tr)
    \<and> f \<le> epoch now \<and> epoch now \<le> u
    \<and> ac_clock_trusted (g_ac g) \<and> ui_clock_trusted (g_ui g) \<and> lockout_until (g_ac g) \<le> epoch now
    \<and> submitted out \<and> gate_result out = AC_GRANTED \<and> matched_id out = cid"
  using assms by (rule open_order_sound)

definition eight_keys :: gate_ctrl where
  "eight_keys = fst (type_keys demo_hash demo_gate (take 8 demo_keys))"

lemma eight_keys_inv: "gate_inv eight_keys"
  using type_keys_typing [of demo_gate "[]" "take 8 demo_keys" demo_hash] typing_fresh [of demo_gate]
  by (simp add: eight_keys_def typing_def demo_gate_inv demo_gate_fields ac_is_locked_out_def
      del: type_keys.simps)

theorem opens_only_for_valid_code_witness:
  "\<exists>cid f u tr. ac_table (g_ac eight_keys) (cstr cid) =
      Some (demo_hash (cstr ((stored eight_keys 9 CHR ''#'')[9 := NUL])), f, u, tr) \<and> f \<le> 150 \<and> 150 \<le> u"
proof -
  let ?e = "Key CHR ''#'' \<lparr>ms = 5, epoch = 150\<rparr>"
  have o: "open_lock (snd (gate_step demo_hash eight_keys ?e))" by code_simp
  have h: "\<forall>s. length (demo_hash s) = AC_HASH_LEN" by (auto simp: demo_hash_def min_def)
  have "gate_step demo_hash eight_keys ?e =
      (fst (gate_step demo_hash eight_keys ?e), snd (gate_step demo_hash eight_keys ?e))" by simp
  from opens_only_for_valid_code [OF eight_keys_inv h this o] show ?thesis by force
qed

text \<open>Every change of the attempt counter or of the lockout is reported for persistence, by
  keys, long presses and ticks alike, a lockout that ran out included; and nothing else is.\<close>

theorem persist_reported:
  assumes "gate_step hash g e = (g', out)"
  shows "persist_attempts out \<longleftrightarrow>
    (failed_attempts (g_ac g'), lockout_until (g_ac g')) \<noteq> (failed_attempts (g_ac g), lockout_until (g_ac g))"
proof (cases e)
  case (Key key now)
  have sub: "persist_attempts (snd (submit hash x now zero_out)) \<longleftrightarrow>
      (failed_attempts (g_ac (fst (submit hash x now zero_out))),
       lockout_until (g_ac (fst (submit hash x now zero_out)))) \<noteq> (failed_attempts (g_ac x), lockout_until (g_ac x))" for x
    by (simp add: submit_def Let_def split_def attempts_changed_def)
  obtain ui a where u: "ui_on_key (g_ui g) (g_ac g) now = (ui, a)"
    by (cases "ui_on_key (g_ui g) (g_ac g) now")
  let ?n = "unat (entry_len ui)"
  let ?x = "g\<lparr>g_ui := ui, buf := (if ?n = 0 then buf g else stored g ?n key)\<rparr>"
  show ?thesis
  proof (cases "?n \<noteq> 0 \<and> a = UI_ACTION_SUBMIT")
    case True
    then have "submit hash ?x now zero_out = (g', out)"
      using assms by (simp add: Key gate_on_key_stored u Let_def)
    then show ?thesis using sub [of ?x] by simp
  next
    case False
    then have "gate_on_key hash g key now = (?x, zero_out)"
      by (auto simp: gate_on_key_stored u Let_def)
    then have "(?x, zero_out) = (g', out)" using assms by (simp add: Key)
    then show ?thesis by (auto simp: zero_out_def)
  qed
next
  case (Long_press now)
  then show ?thesis
    using assms by (auto simp: gate_on_long_press_def Let_def split_def zero_out_def split: if_splits)
next
  case (Gate_tick now)
  then show ?thesis using assms by (auto simp: gate_tick_def Let_def split_def attempts_changed_def)
qed


theorem persist_reported_witness:
  "persist_attempts (snd (gate_step demo_hash (demo_gate\<lparr>g_ac := ac_restore_attempts (g_ac demo_gate) 2 200\<rparr>)
     (Gate_tick \<lparr>ms = 0, epoch = 200\<rparr>)))"
  using persist_reported [of demo_hash "demo_gate\<lparr>g_ac := ac_restore_attempts (g_ac demo_gate) 2 200\<rparr>"
      "Gate_tick \<lparr>ms = 0, epoch = 200\<rparr>"
      "fst (gate_step demo_hash (demo_gate\<lparr>g_ac := ac_restore_attempts (g_ac demo_gate) 2 200\<rparr>) (Gate_tick \<lparr>ms = 0, epoch = 200\<rparr>))"
      "snd (gate_step demo_hash (demo_gate\<lparr>g_ac := ac_restore_attempts (g_ac demo_gate) 2 200\<rparr>) (Gate_tick \<lparr>ms = 0, epoch = 200\<rparr>))"]
  by (simp add: gate_tick_def ac_restore_attempts_def ac_tick_def Let_def split_def demo_gate_fields)

text \<open>With time that does not run backwards, an entry is never cut off by a lockout.\<close>

definition wiped_when_idle :: "gate_ctrl \<Rightarrow> i64 \<Rightarrow> bool" where
  "wiped_when_idle g t \<longleftrightarrow> gate_inv g \<and> ui_clock_trusted (g_ui g) \<and>
     (entry_len (g_ui g) = 0 \<longrightarrow> buf g = wiped_buf) \<and>
     (entry_len (g_ui g) \<noteq> 0 \<longrightarrow> lockout_until (g_ac g) \<le> t)"

fun event_epoch :: "gate_event \<Rightarrow> i64" where
  "event_epoch (Key k n) = epoch n"
| "event_epoch (Long_press n) = epoch n"
| "event_epoch (Gate_tick n) = epoch n"

lemma wiped_step:
  assumes "wiped_when_idle g t" "0 \<le> t" "t \<le> event_epoch e"
  shows "wiped_when_idle (fst (gate_step hash g e)) (event_epoch e)"
proof -
  have inv: "gate_inv (fst (gate_step hash g e))"
    using assms(1) gate_step_inv by (simp add: wiped_when_idle_def)
  have g: "gate_inv g" "ui_inv (g_ui g)" "ui_clock_trusted (g_ui g)" "length (buf g) = AC_CODE_LEN + 1"
    and idle: "entry_len (g_ui g) = 0 \<Longrightarrow> buf g = wiped_buf"
    and busy: "entry_len (g_ui g) \<noteq> 0 \<Longrightarrow> lockout_until (g_ac g) \<le> t"
    using assms(1) by (auto simp: wiped_when_idle_def gate_inv_def)
  show ?thesis
  proof (cases e)
    case (Key key now)
    obtain ui a where u: "ui_on_key (g_ui g) (g_ac g) now = (ui, a)"
      by (cases "ui_on_key (g_ui g) (g_ac g) now")
    show ?thesis
    proof (cases "ac_is_locked_out (g_ac g) (epoch now)")
      case True
      then have "entry_len (g_ui g) = 0"
        using busy assms(3) by (force simp: Key ac_is_locked_out_def)
      then show ?thesis
        using inv idle g ui_on_key_inert(1) [OF g(3) True]
        by (simp add: Key gate_on_key_stored Let_def wiped_when_idle_def)
    next
      case False
      note k = ui_on_key_entry [OF g(2,3) False]
      let ?x = "g\<lparr>g_ui := ui, buf := stored g (unat (entry_len ui)) key\<rparr>"
      have n: "unat (entry_len ui) \<noteq> 0" "entry_len ui \<noteq> 0" "ui_clock_trusted ui"
        using k u by auto
      show ?thesis
      proof (cases "a = UI_ACTION_SUBMIT")
        case True
        have "ac_good (g_ac ?x)" "length (buf ?x) = AC_CODE_LEN + 1" using g by (simp_all add: gate_inv_def)
        note s = submit_inv [OF this, of hash now zero_out]
        have "ui_clock_trusted (g_ui (fst (submit hash ?x now zero_out)))"
          using n by (simp add: submit_def Let_def split_def)
        then show ?thesis using s True n by (simp add: Key gate_on_key_stored u Let_def wiped_when_idle_def)
      next
        case False
        then show ?thesis
          using inv n \<open>\<not> ac_is_locked_out (g_ac g) (epoch now)\<close>
          by (simp add: Key gate_on_key_stored u Let_def wiped_when_idle_def ac_is_locked_out_def)
      qed
    qed
  next
    case (Long_press now)
    then show ?thesis
      using inv g idle busy assms(3)
      by (auto simp: gate_on_long_press_def ui_on_long_press_def wiped_when_idle_def Let_def wipe_full)
  next
    case (Gate_tick now)
    have l: "lockout_until (ac_tick (g_ac g) (epoch now)) \<le> epoch now"
      if "lockout_until (g_ac g) \<le> t" using that assms(2,3) by (simp add: Gate_tick ac_tick_def)
    have "entry_len (g_ui g) = 0" if "ac_is_locked_out (ac_tick (g_ac g) (epoch now)) (epoch now)"
      using that l busy by (force simp: ac_is_locked_out_def)
    moreover have "screen (g_ui g) \<noteq> UI_SCREEN_ENTRY \<Longrightarrow> entry_len (g_ui g) = 0"
      using g(2) by (auto simp: ui_inv_def)
    ultimately show ?thesis
      using inv g idle busy l Gate_tick
      by (auto simp: gate_tick_def ui_tick_def wiped_when_idle_def Let_def wipe_full)
  qed
qed

text \<open>C11: the typed characters never outlive the entry.  With a trusted clock that does not run
  backwards, after any sequence of keys, long presses and ticks, whenever no entry is in progress
  the buffer is all NUL: after a verdict, a long press, a timeout and during a lockout.\<close>

theorem plaintext_wiped:
  assumes "ac_good ac" "0 \<le> t0" "sorted_wrt (\<le>) (t0 # map event_epoch es)"
    "g = foldl (\<lambda>g e. fst (gate_step hash g e)) (gate_init ac (ui_init\<lparr>ui_clock_trusted := True\<rparr>)) es"
    "entry_len (g_ui g) = 0"
  shows "buf g = wiped_buf"
proof -
  have run: "wiped_when_idle (foldl (\<lambda>g e. fst (gate_step hash g e)) x es) (last (t # map event_epoch es))"
    if "wiped_when_idle x t" "0 \<le> t" "sorted_wrt (\<le>) (t # map event_epoch es)" for x t
    using that
  proof (induction es arbitrary: x t)
    case (Cons e es)
    have "wiped_when_idle (fst (gate_step hash x e)) (event_epoch e)"
      using Cons.prems by (intro wiped_step [of x t]) auto
    then show ?case using Cons.IH [of "fst (gate_step hash x e)" "event_epoch e"] Cons.prems by auto
  qed simp
  have "wiped_when_idle (gate_init ac (ui_init\<lparr>ui_clock_trusted := True\<rparr>)) t0"
    using assms(1) by (simp add: wiped_when_idle_def gate_init_def gate_inv_def ui_init_def ui_inv_def)
  from run [OF this assms(2,3)] show ?thesis using assms(4,5) by (simp add: wiped_when_idle_def)
qed

theorem plaintext_wiped_witness:
  "buf (foldl (\<lambda>g e. fst (gate_step demo_hash g e)) (gate_init (ac_init 2 300) (ui_init\<lparr>ui_clock_trusted := True\<rparr>))
     [Key CHR ''1'' \<lparr>ms = 5, epoch = 150\<rparr>, Long_press \<lparr>ms = 9, epoch = 151\<rparr>]) = wiped_buf"
proof -
  have "entry_len (g_ui (foldl (\<lambda>g e. fst (gate_step demo_hash g e)) (gate_init (ac_init 2 300) (ui_init\<lparr>ui_clock_trusted := True\<rparr>))
     [Key CHR ''1'' \<lparr>ms = 5, epoch = 150\<rparr>, Long_press \<lparr>ms = 9, epoch = 151\<rparr>])) = 0"
    by code_simp
  then show ?thesis
    by (intro plaintext_wiped [of "ac_init 2 300" 0 "[Key CHR ''1'' \<lparr>ms = 5, epoch = 150\<rparr>, Long_press \<lparr>ms = 9, epoch = 151\<rparr>]" _ demo_hash])
      (simp_all add: ac_good_init)
qed

end
