(* ===== verification/Keypad_Logic.thy ===== *)
theory Keypad_Logic
  imports Gate_Prelude
begin

text \<open>
  \<^verbatim>\<open>components/keypad/keypad_logic\<close>: from raw scans of the 4x4 matrix to key events.  Debounce,
  ghosting and the long press; the scan itself (GPIO) is the caller's.  The \<open>int8_t\<close>
  \<open>held_index\<close>, \<open>-1\<close> when nothing is held, is a \<open>nat option\<close>.  The events written into
  \<open>out[]\<close> are returned as a list; a caller without a buffer has capacity 0.
\<close>

section \<open>Data\<close>

abbreviation KP_KEYS :: nat where "KP_KEYS \<equiv> 16"
abbreviation KP_DEBOUNCE_MS :: u32 where "KP_DEBOUNCE_MS \<equiv> 15"
abbreviation KP_LONGPRESS_MS :: u32 where "KP_LONGPRESS_MS \<equiv> 1500"
abbreviation KP_MAX_EVENTS :: nat where "KP_MAX_EVENTS \<equiv> 4"

definition KP_MAP :: string where
  "KP_MAP = ''123A456B789C*0#D''"

datatype kp_event =
    KP_EV_PRESS char
  | KP_EV_LONG_PRESS char

record kp_logic =
  stable :: u16
  candidate :: u16
  candidate_since_ms :: u32
  candidate_pending :: bool
  press_started_ms :: u32
  held_index :: "nat option"
  long_fired :: bool
  ghost_blocked :: bool


section \<open>Operations\<close>

definition kp_index_to_char :: "int \<Rightarrow> char" where
  "kp_index_to_char index =
     (if index < 0 \<or> index \<ge> int KP_KEYS then NUL else KP_MAP ! nat index)"

text \<open>\<open>v &= v - 1\<close> clears the lowest bit that is set, so the loop ends.\<close>

lemma clear_lowest_less:
  assumes "v \<noteq> (0 :: u16)"
  shows "unat (v AND (v - 1)) < unat v"
proof -
  have "v AND (v - 1) \<le> v - 1" by (rule word_and_le1)
  moreover have "unat (v - 1) = unat v - 1" using assms by (rule unat_minus_one)
  moreover have "0 < unat v" using assms by (simp add: unat_gt_0)
  ultimately show ?thesis by (simp add: word_le_nat_alt)
qed

function popcount_loop :: "u16 \<Rightarrow> nat \<Rightarrow> nat" where
  "popcount_loop v n = (if v \<noteq> 0 then popcount_loop (v AND (v - 1)) (n + 1) else n)"
  by pat_completeness auto
termination
  by (relation "measure (\<lambda>(v, n). unat v)") (auto intro: clear_lowest_less)

declare popcount_loop.simps [simp del]

definition popcount16 :: "u16 \<Rightarrow> nat" where
  "popcount16 v = popcount_loop v 0"

definition lowest_set_index :: "u16 \<Rightarrow> nat option" where
  "lowest_set_index v = first_index (\<lambda>i. v AND push_bit i 1 \<noteq> 0) [0..<KP_KEYS]"

definition kp_logic_init :: kp_logic where
  "kp_logic_init = \<lparr>stable = 0, candidate = 0, candidate_since_ms = 0, candidate_pending = False,
     press_started_ms = 0, held_index = None, long_fired = False, ghost_blocked = False\<rparr>"

text \<open>The ghosting filter: more than one key blocks until all are released.\<close>

definition ghost_filter :: "kp_logic \<Rightarrow> u16 \<Rightarrow> kp_logic \<times> u16" where
  "ghost_filter st raw =
     (let st = (if popcount16 raw > 1 then st\<lparr>ghost_blocked := True\<rparr>
                else if raw = 0 then st\<lparr>ghost_blocked := False\<rparr> else st)
      in (st, if ghost_blocked st then 0 else raw))"

text \<open>A candidate held long enough becomes the stable bitmap.\<close>

definition kp_accept :: "kp_logic \<Rightarrow> u32 \<Rightarrow> nat \<Rightarrow> kp_logic \<times> kp_event list" where
  "kp_accept st now out_cap =
     (let previous = stable st;
          st = st\<lparr>stable := candidate st, candidate_pending := False\<rparr>;
          newly_down = stable st AND NOT previous;
          (st, out) =
            (if newly_down \<noteq> 0 then
               (let idx = lowest_set_index newly_down
                in (st\<lparr>held_index := idx, press_started_ms := now, long_fired := False\<rparr>,
                    if 0 < out_cap
                    then [KP_EV_PRESS (kp_index_to_char (case idx of None \<Rightarrow> - 1 | Some i \<Rightarrow> int i))]
                    else []))
             else (st, []));
          st = (if stable st = 0 then st\<lparr>held_index := None, long_fired := False\<rparr> else st)
      in (st, out))"

definition kp_debounce :: "kp_logic \<Rightarrow> u16 \<Rightarrow> u32 \<Rightarrow> nat \<Rightarrow> kp_logic \<times> kp_event list" where
  "kp_debounce st raw now out_cap =
     (if raw \<noteq> stable st then
        (if \<not> candidate_pending st \<or> raw \<noteq> candidate st then
           (st\<lparr>candidate := raw, candidate_since_ms := now, candidate_pending := True\<rparr>, [])
         else if now - candidate_since_ms st \<ge> KP_DEBOUNCE_MS then kp_accept st now out_cap
         else (st, []))
      else (st\<lparr>candidate_pending := False\<rparr>, []))"

definition kp_long_press :: "kp_logic \<Rightarrow> u32 \<Rightarrow> kp_event list \<Rightarrow> nat \<Rightarrow> kp_logic \<times> kp_event list" where
  "kp_long_press st now out out_cap =
     (case held_index st of
        Some i \<Rightarrow>
          if \<not> long_fired st \<and> now - press_started_ms st \<ge> KP_LONGPRESS_MS then
            (st\<lparr>long_fired := True\<rparr>,
             if length out < out_cap then out @ [KP_EV_LONG_PRESS (kp_index_to_char (int i))] else out)
          else (st, out)
      | None \<Rightarrow> (st, out))"

definition kp_logic_update :: "kp_logic \<Rightarrow> u16 \<Rightarrow> u32 \<Rightarrow> nat \<Rightarrow> kp_logic \<times> kp_event list" where
  "kp_logic_update st raw now out_cap =
     (if out_cap = 0 then (st, [])
      else
        (let (st, raw) = ghost_filter st raw;
             (st, out) = kp_debounce st raw now out_cap
         in kp_long_press st now out out_cap))"


section \<open>Counting bits\<close>

lemma popcount_loop_add: "popcount_loop v n = popcount_loop v 0 + n"
proof (induction "unat v" arbitrary: v n rule: less_induct)
  case less
  show ?case
  proof (cases "v = 0")
    case False
    let ?w = "v AND (v - 1)"
    have IH: "popcount_loop ?w m = popcount_loop ?w 0 + m" for m
      by (rule less) (rule clear_lowest_less [OF False])
    have u: "popcount_loop v m = popcount_loop ?w (m + 1)" for m
      using False by (subst popcount_loop.simps) simp
    show ?thesis unfolding u IH [of "n + 1"] IH [of "0 + 1"] by simp
  qed (simp add: popcount_loop.simps)
qed

lemma popcount16_0 [simp]: "popcount16 0 = 0"
  by (simp add: popcount16_def popcount_loop.simps)

lemma popcount16_step:
  assumes "v \<noteq> 0"
  shows "popcount16 v = Suc (popcount16 (v AND (v - 1)))"
proof -
  have "popcount_loop v 0 = popcount_loop (v AND (v - 1)) 1"
    using assms by (subst popcount_loop.simps) simp
  then show ?thesis using popcount_loop_add [of "v AND (v - 1)" 1] by (simp add: popcount16_def)
qed

lemma clear_lowest_nat:
  "n \<noteq> (0 :: nat) \<Longrightarrow> \<exists>k. bit n k \<and> (\<forall>i. bit (n AND (n - 1)) i \<longleftrightarrow> bit n i \<and> i \<noteq> k)"
proof (induction n rule: nat_bit_induct)
  case (even n)
  then obtain k where k: "bit n k" "\<forall>i. bit (n AND (n - 1)) i \<longleftrightarrow> bit n i \<and> i \<noteq> k" by auto
  have d: "(2 * n - 1) div 2 = n - 1" using even.hyps by simp
  have b: "\<not> bit (2 * n) 0" "bit (2 * n) (Suc j) = bit n j" "bit (2 * n - 1) (Suc j) = bit (n - 1) j" for j
    using d by (simp_all add: bit_Suc bit_0 del: One_nat_def)
  have "bit (2 * n AND (2 * n - 1)) i \<longleftrightarrow> bit (2 * n) i \<and> i \<noteq> Suc k" for i
    using k b by (cases i) (simp_all only: bit_and_iff, auto)
  then show ?case using k(1) b by (intro exI [of _ "Suc k"]) simp
next
  case (odd n)
  have "bit (Suc (2 * n) AND (Suc (2 * n) - 1)) i \<longleftrightarrow> bit (Suc (2 * n)) i \<and> i \<noteq> 0" for i
    by (cases i) (simp_all only: bit_and_iff, simp_all add: bit_Suc bit_0)
  then show ?case by (intro exI [of _ 0]) (simp add: bit_0)
qed simp

lemma clear_lowest_word:
  assumes "v \<noteq> (0 :: u16)"
  obtains k where "bit v k" "\<And>i. bit (v AND (v - 1)) i \<longleftrightarrow> bit v i \<and> i \<noteq> k"
proof -
  have "unat v \<noteq> 0" using assms by (simp add: unat_eq_zero)
  then obtain k where k: "bit (unat v) k" "\<forall>i. bit (unat v AND (unat v - 1)) i \<longleftrightarrow> bit (unat v) i \<and> i \<noteq> k"
    using clear_lowest_nat by blast
  have "unat (v AND (v - 1)) = (unat v AND (unat v - 1))"
    by (simp add: unsigned_and_eq unat_minus_one [OF assms])
  moreover have u: "bit (unat w) i \<longleftrightarrow> bit w i" for w :: u16 and i
    by (auto simp: bit_unsigned_iff dest: bit_imp_le_length)
  ultimately have "bit (v AND (v - 1)) i \<longleftrightarrow> bit v i \<and> i \<noteq> k" for i
    using k(2) by metis
  moreover have "bit v k" using k(1) u by blast
  ultimately show ?thesis using that by blast
qed

lemma popcount16_card: "popcount16 v = card {i. bit v i}"
proof (induction "unat v" arbitrary: v rule: less_induct)
  case less
  show ?case
  proof (cases "v = 0")
    case False
    from clear_lowest_word [OF this] obtain k
      where k: "bit v k" "\<And>i. bit (v AND (v - 1)) i \<longleftrightarrow> bit v i \<and> i \<noteq> k" by blast
    have "{i. bit (v AND (v - 1)) i} = {i. bit v i} - {k}" using k(2) by auto
    moreover have "finite {i. bit v i}"
      by (rule finite_subset [of _ "{..<16}"]) (auto dest: bit_imp_le_length)
    moreover have "popcount16 (v AND (v - 1)) = card {i. bit (v AND (v - 1)) i}"
      by (rule less) (rule clear_lowest_less [OF False])
    ultimately show ?thesis
      using k(1) card_Suc_Diff1 [of "{i. bit v i}" k] by (simp add: popcount16_step [OF False])
  qed (simp add: bot_fun_def)
qed

lemma bit_key: "v AND push_bit i 1 \<noteq> (0 :: u16) \<longleftrightarrow> bit v i"
  using and_push_bit_1 [of v i] by blast

text \<open>At most one key down: the bitmap is empty or a single bit.\<close>

lemma single_key:
  assumes "popcount16 v \<le> 1" "v \<noteq> 0"
  obtains i where "i < KP_KEYS" "\<And>j. bit v j \<longleftrightarrow> j = i" "lowest_set_index v = Some i"
proof -
  have fin: "finite {i. bit v i}"
    by (rule finite_subset [of _ "{..<16}"]) (auto dest: bit_imp_le_length)
  obtain i where i: "bit v i" using assms(2) by (auto simp: bit_eq_iff)
  have only: "bit v j \<longleftrightarrow> j = i" for j
    using assms(1) fin i by (auto simp: popcount16_card card_le_Suc0_iff_eq)
  have lt: "i < KP_KEYS" using bit_imp_le_length [OF i] by simp
  have "lowest_set_index v = Some i"
    using only lt unfolding lowest_set_index_def bit_key by (simp add: first_index_Some)
  with only lt that show ?thesis by blast
qed

text \<open>The bit-clearing loop counts the keys that are down, for each of the 65536 bitmaps.\<close>

theorem popcount16_counts: "popcount16 v = length (filter (bit v) [0..<KP_KEYS])"
proof -
  have "{i. bit v i} = set (filter (bit v) [0..<KP_KEYS])"
    by (auto dest: bit_imp_le_length)
  moreover have "distinct (filter (bit v) [0..<KP_KEYS])" by simp
  ultimately show ?thesis unfolding popcount16_card by (metis distinct_card)
qed



section \<open>Runs of scans\<close>

text \<open>The scans \<open>(raw, now_ms)\<close> in order, and all events reported.\<close>

fun kp_run :: "kp_logic \<Rightarrow> (u16 \<times> u32) list \<Rightarrow> nat \<Rightarrow> kp_logic \<times> kp_event list" where
  "kp_run st [] cap = (st, [])"
| "kp_run st ((raw, now) # xs) cap =
     (let (st1, out) = kp_logic_update st raw now cap; (st2, outs) = kp_run st1 xs cap in (st2, out @ outs))"

lemma kp_run_snoc:
  "kp_run st (xs @ [(raw, now)]) cap =
     (let (st1, outs) = kp_run st xs cap; (st2, out) = kp_logic_update st1 raw now cap in (st2, outs @ out))"
proof (induction xs arbitrary: st)
  case (Cons x xs)
  then show ?case by (cases x) (simp add: split_def Let_def)
qed (simp add: split_def)

text \<open>A pending single-key candidate has been read in every scan since it was first seen.\<close>

definition held_since :: "(u16 \<times> u32) list \<Rightarrow> u16 \<Rightarrow> u32 \<Rightarrow> bool" where
  "held_since xs raw since \<longleftrightarrow>
     (\<exists>pre mid. xs = pre @ mid \<and> mid \<noteq> [] \<and> snd (hd mid) = since \<and> (\<forall>(r, t) \<in> set mid. r = raw))"

lemma held_since_new: "held_since (xs @ [(raw, now)]) raw now"
  unfolding held_since_def by (rule exI [of _ xs], rule exI [of _ "[(raw, now)]"]) simp

lemma held_since_more: "held_since xs raw t \<Longrightarrow> held_since (xs @ [(raw, now)]) raw t"
  unfolding held_since_def
proof (elim exE conjE)
  fix pre mid
  assume "xs = pre @ mid" "mid \<noteq> []" "snd (hd mid) = t" "\<forall>(r, t) \<in> set mid. r = raw"
  then show "\<exists>pre mid. xs @ [(raw, now)] = pre @ mid \<and> mid \<noteq> [] \<and> snd (hd mid) = t \<and> (\<forall>(r, t) \<in> set mid. r = raw)"
    by (intro exI [of _ pre] exI [of _ "mid @ [(raw, now)]"]) auto
qed

definition kp_inv :: "(u16 \<times> u32) list \<Rightarrow> kp_logic \<Rightarrow> bool" where
  "kp_inv xs st \<longleftrightarrow>
     (candidate_pending st \<and> candidate st \<noteq> 0 \<longrightarrow> held_since xs (candidate st) (candidate_since_ms st))"

text \<open>What the ghosting filter lets through is a single key that was really read, or nothing.\<close>

lemma ghost_filter_single:
  "ghost_filter st raw = (st', r) \<Longrightarrow> r \<noteq> 0 \<Longrightarrow> r = raw \<and> popcount16 raw \<le> 1"
  "ghost_filter st raw = (st', r) \<Longrightarrow> \<exists>b. st' = st\<lparr>ghost_blocked := b\<rparr>"
  by (auto simp: ghost_filter_def Let_def split: if_splits intro: exI [of _ "ghost_blocked st'"])

lemma kp_accept_keeps:
  "candidate_pending (fst (kp_accept st now cap)) = False"
  by (simp add: kp_accept_def Let_def split_def)

lemma kp_long_press_keeps:
  "candidate_pending (fst (kp_long_press st now out cap)) = candidate_pending st"
  "candidate (fst (kp_long_press st now out cap)) = candidate st"
  "candidate_since_ms (fst (kp_long_press st now out cap)) = candidate_since_ms st"
  by (simp_all add: kp_long_press_def split: option.splits)

lemma kp_update_inv:
  assumes "kp_inv xs st" "0 < cap"
  shows "kp_inv (xs @ [(raw, now)]) (fst (kp_logic_update st raw now cap))"
proof -
  obtain st1 r where g: "ghost_filter st raw = (st1, r)" by (cases "ghost_filter st raw")
  obtain st2 out where d: "kp_debounce st1 r now cap = (st2, out)" by (cases "kp_debounce st1 r now cap")
  have s1: "candidate st1 = candidate st" "candidate_pending st1 = candidate_pending st"
    "candidate_since_ms st1 = candidate_since_ms st"
    using ghost_filter_single(2) [OF g] by auto
  have "kp_inv (xs @ [(raw, now)]) st2"
    using d assms(1) s1 ghost_filter_single(1) [OF g] kp_accept_keeps [of st1 now cap]
    by (auto simp: kp_debounce_def kp_inv_def split: if_splits intro: held_since_new held_since_more)
  then show ?thesis
    using assms(2) by (simp add: kp_logic_update_def g d kp_inv_def kp_long_press_keeps)
qed

lemma kp_run_inv:
  "0 < cap \<Longrightarrow> kp_inv xs (fst (kp_run kp_logic_init xs cap))"
proof (induction xs rule: rev_induct)
  case Nil
  then show ?case by (simp add: kp_inv_def kp_logic_init_def)
next
  case (snoc x xs)
  then show ?case by (cases x) (simp add: kp_run_snoc split_def Let_def kp_update_inv)
qed


lemma long_press_events:
  "set (snd (kp_long_press st now out cap)) \<inter> range KP_EV_PRESS = set out \<inter> range KP_EV_PRESS"
  by (auto simp: kp_long_press_def split: option.splits)

text \<open>C27: a reported key press was a steady single key.  Whatever scans came before, a press is
  reported only when the current scan shows exactly one key, that key is the one reported, and
  every scan since some scan at least 15 ms earlier (on the wrapping counter) showed the same
  single key; bounces and ghosted combinations never become a press.\<close>

theorem press_is_debounced:
  assumes "0 < cap" "KP_EV_PRESS key \<in> set (snd (kp_logic_update (fst (kp_run kp_logic_init xs cap)) raw now cap))"
  shows "popcount16 raw = 1 \<and> (\<exists>i<KP_KEYS. bit raw i \<and> key = KP_MAP ! i) \<and>
    (\<exists>t. held_since (xs @ [(raw, now)]) raw t \<and> 15 \<le> unat (now - t))"
proof -
  let ?st = "fst (kp_run kp_logic_init xs cap)"
  obtain st1 r where g: "ghost_filter ?st raw = (st1, r)" by (cases "ghost_filter ?st raw")
  obtain st2 out where d: "kp_debounce st1 r now cap = (st2, out)" by (cases "kp_debounce st1 r now cap")
  obtain b where st1: "st1 = ?st\<lparr>ghost_blocked := b\<rparr>" using ghost_filter_single(2) [OF g] by blast
  have "KP_EV_PRESS key \<in> set out"
    using assms long_press_events [of st2 now out cap] by (auto simp: kp_logic_update_def g d)
  then have acc: "candidate_pending ?st" "r = candidate ?st" "now - candidate_since_ms ?st \<ge> KP_DEBOUNCE_MS"
    and out: "out = snd (kp_accept st1 now cap)"
    using d by (auto simp: kp_debounce_def st1 split: if_splits)
  let ?new = "candidate ?st AND NOT (stable ?st)"
  have new: "?new \<noteq> 0" "key = kp_index_to_char (case lowest_set_index ?new of None \<Rightarrow> - 1 | Some i \<Rightarrow> int i)"
    using \<open>KP_EV_PRESS key \<in> set out\<close> assms(1)
    by (auto simp: out kp_accept_def Let_def st1 split: if_splits)
  then have "r \<noteq> 0" using acc(2) by auto
  then have r: "r = raw" "popcount16 raw \<le> 1" using ghost_filter_single(1) [OF g] by auto
  from single_key [OF r(2)] \<open>r \<noteq> 0\<close> r(1) obtain i where
    i: "i < KP_KEYS" "\<And>j. bit raw j \<longleftrightarrow> j = i" "lowest_set_index raw = Some i"
    by blast
  have "bit ?new j \<longrightarrow> j = i" for j using i(2) acc(2) r(1) by (simp add: bit_and_iff)
  moreover obtain j where "bit ?new j" using new(1) by (metis bit_eqI bit_0_eq bot_apply bot_bool_def)
  ultimately have "bit ?new j \<longleftrightarrow> j = i" for j by blast
  then have "bit ?new j \<longleftrightarrow> bit raw j" for j using i(2) by blast
  then have "?new = raw" by (metis bit_eqI)
  then have key: "key = KP_MAP ! i" using new(2) i by (simp add: kp_index_to_char_def)
  have "held_since xs raw (candidate_since_ms ?st)"
    using kp_run_inv [OF assms(1), of xs] acc \<open>r \<noteq> 0\<close> r(1) by (simp add: kp_inv_def)
  then have "held_since (xs @ [(raw, now)]) raw (candidate_since_ms ?st)" by (rule held_since_more)
  moreover have "15 \<le> unat (now - candidate_since_ms ?st)" using acc(3) by (simp add: word_le_nat_alt)
  moreover have "popcount16 raw = 1"
    using r \<open>r \<noteq> 0\<close> popcount16_step [of raw] by auto
  ultimately show ?thesis using i key by blast
qed

theorem press_is_debounced_witness:
  "\<exists>t. held_since [(32, 0), (32, 5), (32, 15)] 32 t \<and> 15 \<le> unat (15 - t)"
proof -
  have "KP_EV_PRESS CHR ''5'' \<in> set (snd (kp_logic_update (fst (kp_run kp_logic_init [(32, 0), (32, 5)] 4)) 32 15 4))"
    by code_simp
  from press_is_debounced [OF _ this] show ?thesis by simp
qed

text \<open>The event that a long press can follow.\<close>

definition armed_after :: "kp_event list \<Rightarrow> kp_logic \<Rightarrow> bool" where
  "armed_after es st \<longleftrightarrow>
     (\<forall>i. held_index st = Some i \<and> \<not> long_fired st \<longrightarrow>
        es \<noteq> [] \<and> last es = KP_EV_PRESS (kp_index_to_char (int i)))"

definition longs_follow :: "kp_event list \<Rightarrow> bool" where
  "longs_follow es \<longleftrightarrow>
     (\<forall>j<length es. \<forall>k. es ! j = KP_EV_LONG_PRESS k \<longrightarrow> 0 < j \<and> es ! (j - 1) = KP_EV_PRESS k)"

lemma longs_follow_press: "longs_follow es \<Longrightarrow> longs_follow (es @ [KP_EV_PRESS k])"
  by (auto simp: longs_follow_def nth_append less_Suc_eq)

lemma longs_follow_long:
  "longs_follow es \<Longrightarrow> es \<noteq> [] \<Longrightarrow> last es = KP_EV_PRESS k \<Longrightarrow> longs_follow (es @ [KP_EV_LONG_PRESS k])"
  by (auto simp: longs_follow_def nth_append less_Suc_eq last_conv_nth)

lemma kp_debounce_armed:
  assumes "armed_after es st" "longs_follow es" "1 < cap" "kp_debounce st raw now cap = (st', out)"
  shows "armed_after (es @ out) st' \<and> longs_follow (es @ out) \<and> length out \<le> 1"
proof (cases "kp_debounce st raw now cap = kp_accept st now cap")
  case True
  then show ?thesis
    using assms
    by (auto simp: kp_accept_def Let_def armed_after_def split: if_splits intro: longs_follow_press)
next
  case False
  then show ?thesis
    using assms by (auto simp: kp_debounce_def armed_after_def split: if_splits)
qed

lemma kp_update_armed:
  assumes "armed_after es st" "longs_follow es" "1 < cap" "kp_logic_update st raw now cap = (st', out)"
  shows "armed_after (es @ out) st' \<and> longs_follow (es @ out)"
proof -
  obtain st1 r where g: "ghost_filter st raw = (st1, r)" by (cases "ghost_filter st raw")
  obtain st2 o2 where d: "kp_debounce st1 r now cap = (st2, o2)" by (cases "kp_debounce st1 r now cap")
  obtain b where st1: "st1 = st\<lparr>ghost_blocked := b\<rparr>" using ghost_filter_single(2) [OF g] by blast
  have "armed_after es st1" using assms(1) by (simp add: armed_after_def st1)
  from kp_debounce_armed [OF this assms(2,3) d]
  have a: "armed_after (es @ o2) st2" "longs_follow (es @ o2)" "length o2 \<le> 1" by auto
  have u: "kp_long_press st2 now o2 cap = (st', out)" using assms(3,4) by (simp add: kp_logic_update_def g d)
  show ?thesis
    using u a assms(3) longs_follow_long [OF a(2)]
    by (auto simp: kp_long_press_def armed_after_def split: option.splits if_splits)
qed

text \<open>A long press fires once and for the key that is down.  In the stream of all events
  reported over any sequence of scans, every long press comes immediately after the press of the
  same key: there is no second long press of one hold and none without a press.\<close>

theorem long_press_once:
  assumes "1 < cap" "snd (kp_run kp_logic_init xs cap) = es" "j < length es" "es ! j = KP_EV_LONG_PRESS key"
  shows "0 < j \<and> es ! (j - 1) = KP_EV_PRESS key"
proof -
  have "armed_after (snd (kp_run kp_logic_init xs cap)) (fst (kp_run kp_logic_init xs cap)) \<and>
      longs_follow (snd (kp_run kp_logic_init xs cap))"
  proof (induction xs rule: rev_induct)
    case Nil
    show ?case by (simp add: armed_after_def longs_follow_def kp_logic_init_def)
  next
    case (snoc x xs)
    obtain raw now where x: "x = (raw, now)" by (cases x)
    show ?case
      using snoc kp_update_armed [OF _ _ assms(1), of "snd (kp_run kp_logic_init xs cap)" "fst (kp_run kp_logic_init xs cap)" raw now]
      by (simp add: x kp_run_snoc split_def Let_def) (metis prod.collapse)
  qed
  then show ?thesis using assms(2-4) by (auto simp: longs_follow_def)
qed


theorem long_press_once_witness:
  "snd (kp_run kp_logic_init [(32, 0), (32, 15), (32, 1515), (32, 9000)] 4) ! 0 = KP_EV_PRESS CHR ''5''"
proof -
  let ?es = "snd (kp_run kp_logic_init [(32, 0), (32, 15), (32, 1515), (32, 9000)] 4)"
  have "1 < length ?es" "?es ! 1 = KP_EV_LONG_PRESS CHR ''5''" by code_simp+
  from long_press_once [OF _ refl this] show ?thesis by (simp del: kp_run.simps)
qed

end
