(* ===== verification/Esp_Err.thy ===== *)
theory Esp_Err
  imports Gate_Prelude
begin

text \<open>
  The result codes of ESP-IDF (\<^verbatim>\<open>esp_err_t\<close>) that the source names; every other
  code is an \<open>ESP_ERR_OTHER\<close>.  And a device on the I2C bus, by the driver's functions on
  the state of the bus; a failed transfer yields \<open>None\<close> or \<open>False\<close>.
\<close>

datatype esp_err =
    ESP_OK
  | ESP_FAIL
  | ESP_ERR_NO_MEM
  | ESP_ERR_INVALID_ARG
  | ESP_ERR_INVALID_STATE
  | ESP_ERR_INVALID_SIZE
  | ESP_ERR_NOT_FOUND
  | ESP_ERR_TIMEOUT
  | ESP_ERR_NVS_NO_FREE_PAGES
  | ESP_ERR_NVS_NEW_VERSION_FOUND
  | ESP_ERR_OTHER int

record 'b i2c =
  transmit_receive :: "'b \<Rightarrow> u8 list \<Rightarrow> nat \<Rightarrow> 'b \<times> u8 list option"
  transmit :: "'b \<Rightarrow> u8 list \<Rightarrow> 'b \<times> bool"
  probe :: "'b \<Rightarrow> 'b \<times> bool"

end
