(* ===== verification/Keypad.thy ===== *)
theory Keypad
  imports Keypad_Logic Esp_Err
begin

text \<open>
  \<^verbatim>\<open>components/keypad/keypad.c\<close>: the driver around \<open>keypad_logic\<close>.  It scans the matrix, feeds
  the logic and posts the events to a bounded queue that the main loop drains.

  The wiring is outside: \<open>sense\<close> gives the level of an input pin under the levels driven on the
  output pins.  What the platform answers when the driver starts is an argument; logging and the
  delays are left out.
\<close>

section \<open>State\<close>

record keypad_config =
  rows :: "nat list"
  cols :: "nat list"
  scan_period_ms :: u32
  queue_depth :: nat

abbreviation KEYPAD_DEFAULT_CONFIG :: keypad_config where
  "KEYPAD_DEFAULT_CONFIG \<equiv> \<lparr>rows = [4, 5, 6, 7], cols = [15, 16, 17, 18], scan_period_ms = 5, queue_depth = 8\<rparr>"

type_synonym pin_levels = "nat \<Rightarrow> bool"
type_synonym sense_fn = "pin_levels \<Rightarrow> nat \<Rightarrow> bool"

text \<open>The statics, the logic that is a local of the task, and the levels of the output pins.\<close>

record keypad =
  kp_cfg :: keypad_config
  kp_queue :: "kp_event list option"
  kp_task :: bool
  kp_running :: bool
  kp_st :: kp_logic
  kp_pins :: pin_levels


section \<open>Operations\<close>

text \<open>Row \<open>r\<close> low, the others high.\<close>

definition drive_row :: "keypad_config \<Rightarrow> nat \<Rightarrow> pin_levels \<Rightarrow> pin_levels" where
  "drive_row cfg r pins = foldl (\<lambda>p i. p(rows cfg ! i := (i \<noteq> r))) pins [0..<4]"

definition read_cols :: "sense_fn \<Rightarrow> keypad_config \<Rightarrow> nat \<Rightarrow> pin_levels \<Rightarrow> u16 \<Rightarrow> u16" where
  "read_cols sense cfg r pins bitmap =
     foldl (\<lambda>b c. if \<not> sense pins (cols cfg ! c) then b OR push_bit (r * 4 + c) 1 else b) bitmap [0..<4]"

definition scan_row :: "sense_fn \<Rightarrow> keypad_config \<Rightarrow> pin_levels \<times> u16 \<Rightarrow> nat \<Rightarrow> pin_levels \<times> u16" where
  "scan_row sense cfg s r =
     (let pins = drive_row cfg r (fst s) in (pins, read_cols sense cfg r pins (snd s)))"

definition release_rows :: "keypad_config \<Rightarrow> pin_levels \<Rightarrow> pin_levels" where
  "release_rows cfg pins = foldl (\<lambda>p i. p(rows cfg ! i := True)) pins [0..<4]"

definition keypad_scan_once :: "sense_fn \<Rightarrow> keypad_config \<Rightarrow> pin_levels \<Rightarrow> pin_levels \<times> u16" where
  "keypad_scan_once sense cfg pins =
     (let (pins, bitmap) = foldl (scan_row sense cfg) (pins, 0) [0..<4]
      in (release_rows cfg pins, bitmap))"

text \<open>\<open>xQueueSend\<close> without waiting: an event that does not fit is dropped.\<close>

definition post :: "nat \<Rightarrow> kp_event list \<Rightarrow> kp_event \<Rightarrow> kp_event list" where
  "post depth q e = (if length q < depth then q @ [e] else q)"

text \<open>The period of the task in ticks of a \<open>tick_hz\<close> clock, at least one.\<close>

definition task_period :: "u32 \<Rightarrow> keypad_config \<Rightarrow> u32" where
  "task_period tick_hz cfg =
     (let period = scan_period_ms cfg * tick_hz div 1000 in if period = 0 then 1 else period)"

text \<open>One round of the loop of \<open>keypad_task\<close>.\<close>

definition keypad_turn :: "sense_fn \<Rightarrow> u32 \<Rightarrow> keypad \<Rightarrow> keypad" where
  "keypad_turn sense now_ms k =
     (if \<not> kp_running k then k
      else
        (let (pins, raw) = keypad_scan_once sense (kp_cfg k) (kp_pins k);
             (lg, events) = kp_logic_update (kp_st k) raw now_ms KP_MAX_EVENTS
         in k\<lparr>kp_pins := pins, kp_st := lg,
              kp_queue := map_option (\<lambda>q. foldl (post (queue_depth (kp_cfg k))) q events) (kp_queue k)\<rparr>))"

text \<open>What the platform answers when the driver starts.  \<open>None\<close> is an abort of
  \<open>ESP_ERROR_CHECK\<close>.\<close>

record keypad_env =
  gpio_config_err :: esp_err
  queue_made :: bool
  task_made :: bool

definition keypad_start ::
  "keypad_env \<Rightarrow> keypad_config option \<Rightarrow> bool \<Rightarrow> keypad \<Rightarrow> (keypad \<times> esp_err) option" where
  "keypad_start e cfg has_out k =
     (case cfg of
        None \<Rightarrow> Some (k, ESP_ERR_INVALID_ARG)
      | Some c \<Rightarrow>
          if \<not> has_out then Some (k, ESP_ERR_INVALID_ARG)
          else if kp_running k then Some (k, ESP_ERR_INVALID_STATE)
          else if gpio_config_err e \<noteq> ESP_OK then None
          else
            (let k = k\<lparr>kp_cfg := c, kp_pins := release_rows c (kp_pins k)\<rparr>
             in if \<not> queue_made e then Some (k\<lparr>kp_queue := None\<rparr>, ESP_ERR_NO_MEM)
                else if \<not> task_made e then Some (k\<lparr>kp_running := False, kp_queue := None\<rparr>, ESP_ERR_NO_MEM)
                else Some (k\<lparr>kp_queue := Some [], kp_running := True, kp_task := True,
                       kp_st := kp_logic_init\<rparr>, ESP_OK)))"

definition keypad_stop :: "keypad \<Rightarrow> keypad" where
  "keypad_stop k =
     (if \<not> kp_running k then k
      else k\<lparr>kp_running := False, kp_queue := None, kp_task := False\<rparr>)"

text \<open>The main loop takes everything that is there.\<close>

definition drain :: "keypad \<Rightarrow> keypad \<times> kp_event list" where
  "drain k = (case kp_queue k of None \<Rightarrow> (k, []) | Some q \<Rightarrow> (k\<lparr>kp_queue := Some []\<rparr>, q))"


section \<open>The matrix\<close>

text \<open>A column with a pull-up reads low exactly when a closed key joins it to a row driven low.\<close>

definition matrix :: "keypad_config \<Rightarrow> (nat \<Rightarrow> nat \<Rightarrow> bool) \<Rightarrow> sense_fn \<Rightarrow> bool" where
  "matrix cfg closed sense \<longleftrightarrow> length (rows cfg) = 4 \<and> distinct (rows cfg) \<and>
     (\<forall>p c. c < 4 \<longrightarrow> (sense p (cols cfg ! c) \<longleftrightarrow> \<not> (\<exists>r<4. \<not> p (rows cfg ! r) \<and> closed r c)))"

lemma foldl_upd_other: "x \<notin> f ` set is \<Longrightarrow> foldl (\<lambda>p i. p(f i := v i)) p is x = p x"
  by (induction "is" arbitrary: p) auto

lemma foldl_upd:
  "inj_on f (set is) \<Longrightarrow> distinct is \<Longrightarrow> i \<in> set is \<Longrightarrow> foldl (\<lambda>p i. p(f i := v i)) p is (f i) = v i"
proof (induction "is" arbitrary: p)
  case (Cons j js)
  show ?case
  proof (cases "i = j")
    case True
    then have "f i \<notin> f ` set js" using Cons.prems by (auto simp: inj_on_def)
    then have "foldl (\<lambda>p i. p(f i := v i)) (p(f j := v j)) js (f i) = v i"
      by (subst foldl_upd_other) (simp_all add: True)
    then show ?thesis by (simp only: foldl.simps)
  next
    case False
    then show ?thesis using Cons by simp
  qed
qed simp

lemma driven:
  assumes "matrix cfg closed sense" "i < 4"
  shows "drive_row cfg r pins (rows cfg ! i) \<longleftrightarrow> i \<noteq> r" "release_rows cfg pins (rows cfg ! i)"
proof -
  have "inj_on ((!) (rows cfg)) (set [0..<4])"
    using assms(1) by (simp add: matrix_def inj_on_nth)
  from foldl_upd [OF this, of i "\<lambda>i. i \<noteq> r"] foldl_upd [OF this, of i "\<lambda>_. True"] assms(2)
  show "drive_row cfg r pins (rows cfg ! i) \<longleftrightarrow> i \<noteq> r" "release_rows cfg pins (rows cfg ! i)"
    by (simp_all add: drive_row_def release_rows_def)
qed

lemma bit_read_cols:
  assumes "matrix cfg closed sense" "r < 4"
  shows "bit (read_cols sense cfg r (drive_row cfg r pins) b) k \<longleftrightarrow>
    bit b k \<or> (\<exists>c<4. k = r * 4 + c \<and> closed r c)"
proof -
  have s: "sense (drive_row cfg r pins) (cols cfg ! c) \<longleftrightarrow> \<not> closed r c" if "c < 4" for c
    using assms that driven(1) [OF assms(1), of _ r pins] by (auto simp: matrix_def)
  have g: "bit (foldl (\<lambda>b c. if \<not> sense (drive_row cfg r pins) (cols cfg ! c) then b OR push_bit (r * 4 + c) 1 else b) b cs) k
      \<longleftrightarrow> bit b k \<or> (\<exists>c\<in>set cs. k = r * 4 + c \<and> closed r c)" if "\<forall>c\<in>set cs. c < 4" for cs
    using that
  proof (induction cs arbitrary: b)
    case (Cons c cs)
    have "c < 4" using Cons.prems by simp
    have "bit (push_bit (r * 4 + c) (1 :: u16)) k \<longleftrightarrow> k = r * 4 + c"
      using assms(2) \<open>c < 4\<close> by (auto simp: bit_simps)
    then show ?case using Cons s [OF \<open>c < 4\<close>] by (auto simp: bit_or_iff)
  qed simp
  show ?thesis unfolding read_cols_def using g [of "[0..<4]"] by auto
qed

lemma bit_scan:
  assumes "matrix cfg closed sense"
  shows "bit (snd (keypad_scan_once sense cfg pins)) k \<longleftrightarrow> k < 16 \<and> closed (k div 4) (k mod 4)"
proof -
  have g: "bit (snd (foldl (scan_row sense cfg) (p, b) rs)) k \<longleftrightarrow>
      bit b k \<or> (\<exists>r\<in>set rs. \<exists>c<4. k = r * 4 + c \<and> closed r c)" if "\<forall>r\<in>set rs. r < 4" for p b rs
    using that
  proof (induction rs arbitrary: p b)
    case (Cons r rs)
    then show ?case by (simp add: scan_row_def Let_def bit_read_cols [OF assms])
  qed simp
  have "(\<exists>r<4. \<exists>c<4. k = r * 4 + c \<and> closed r c) \<longleftrightarrow> k < 16 \<and> closed (k div 4) (k mod 4)"
  proof
    assume "k < 16 \<and> closed (k div 4) (k mod 4)"
    then show "\<exists>r<4. \<exists>c<4. k = r * 4 + c \<and> closed r c"
      by (intro exI [of _ "k div 4"] conjI exI [of _ "k mod 4"]) auto
  qed auto
  moreover have "bit (snd (foldl (scan_row sense cfg) (pins, 0) [0..<4])) k \<longleftrightarrow> (\<exists>r<4. \<exists>c<4. k = r * 4 + c \<and> closed r c)"
    using g [of "[0..<4]" pins 0] by (simp add: Bex_def)
  ultimately show ?thesis by (simp add: keypad_scan_once_def split_def Let_def)
qed


section \<open>A key held down\<close>

text \<open>The phases of the logic while one key is read: nothing yet, a candidate, accepted.\<close>

definition at_rest :: "kp_logic \<Rightarrow> bool" where
  "at_rest st \<longleftrightarrow> stable st = 0 \<and> \<not> candidate_pending st \<and> held_index st = None \<and> \<not> ghost_blocked st"

definition waiting :: "u16 \<Rightarrow> nat \<Rightarrow> kp_logic \<Rightarrow> bool" where
  "waiting w t0 st \<longleftrightarrow> stable st = 0 \<and> candidate_pending st \<and> candidate st = w \<and>
     candidate_since_ms st = of_nat t0 \<and> held_index st = None \<and> \<not> ghost_blocked st"

definition accepted_at :: "u16 \<Rightarrow> nat \<Rightarrow> kp_logic \<Rightarrow> bool" where
  "accepted_at w t1 st \<longleftrightarrow> stable st = w \<and> held_index st \<noteq> None \<and>
     press_started_ms st = of_nat t1 \<and> \<not> ghost_blocked st"

lemmas phases = at_rest_def waiting_def accepted_at_def

lemmas update_defs = kp_logic_update_def ghost_filter_def kp_debounce_def kp_long_press_def

text \<open>The bitmap of a single key.\<close>

definition key_bitmap :: "u16 \<Rightarrow> nat \<Rightarrow> bool" where
  "key_bitmap w i \<longleftrightarrow> popcount16 w = 1 \<and> w \<noteq> 0 \<and> lowest_set_index w = Some i \<and> i < KP_KEYS"

lemma scan_of_rest:
  "key_bitmap w i \<Longrightarrow> at_rest st \<Longrightarrow>
     snd (kp_logic_update st w (of_nat t) 4) = [] \<and> waiting w t (fst (kp_logic_update st w (of_nat t) 4))"
  by (auto simp: update_defs phases key_bitmap_def Let_def)

lemma scan_of_waiting:
  assumes "key_bitmap w i" "waiting w t0 st" "t0 \<le> t" "t < t0 + 1500"
  shows "if t < t0 + 15 then kp_logic_update st w (of_nat t) 4 = (st, [])
    else snd (kp_logic_update st w (of_nat t) 4) = [KP_EV_PRESS (KP_MAP ! i)] \<and>
      accepted_at w t (fst (kp_logic_update st w (of_nat t) 4))"
proof -
  have u: "unat (of_nat t - of_nat t0 :: u32) = t - t0"
    using assms(3,4) by (intro unat_of_nat_diff) auto
  have e: "(15 :: u32) \<le> of_nat t - of_nat t0 \<longleftrightarrow> t0 + 15 \<le> t"
    using assms(3) by (auto simp: word_le_nat_alt u)
  show ?thesis
    using assms(1,2) by (auto simp: update_defs phases key_bitmap_def kp_accept_def kp_index_to_char_def Let_def e not_le)
qed

lemma scan_of_accepted:
  assumes "key_bitmap w i" "accepted_at w t1 st" "t1 \<le> t" "t < t1 + 1500"
  shows "snd (kp_logic_update st w (of_nat t) 4) = [] \<and> accepted_at w t1 (fst (kp_logic_update st w (of_nat t) 4))"
proof -
  have u: "unat (of_nat t - of_nat t1 :: u32) = t - t1"
    using assms(3,4) by (intro unat_of_nat_diff) auto
  have e: "(1500 :: u32) \<le> of_nat t - of_nat t1 \<longleftrightarrow> False"
    using assms(3,4) by (auto simp: word_le_nat_alt u)
  show ?thesis
    using assms(1,2) by (auto simp: update_defs phases key_bitmap_def Let_def e split: option.splits)
qed

text \<open>The scans at the times \<open>ts\<close>, all reading \<open>w\<close>, and what they post.\<close>

abbreviation scan_step :: "nat \<Rightarrow> u16 \<Rightarrow> kp_logic \<times> kp_event list \<Rightarrow> nat \<Rightarrow> kp_logic \<times> kp_event list" where
  "scan_step depth w s t \<equiv>
     (let (lg, es) = kp_logic_update (fst s) w (of_nat t) 4 in (lg, foldl (post depth) (snd s) es))"

lemma accepted_run:
  assumes "key_bitmap w i" "accepted_at w t1 st" "\<forall>t\<in>set ts. t1 \<le> t \<and> t < t1 + 1500"
  shows "snd (foldl (scan_step depth w) (st, q) ts) = q"
  using assms(2,3)
proof (induction ts arbitrary: st)
  case (Cons t ts)
  note a = scan_of_accepted [OF assms(1) Cons.prems(1), of t]
  have "scan_step depth w (st, q) t = (fst (kp_logic_update st w (of_nat t) 4), q)"
    using a Cons.prems(2) by (simp add: split_def Let_def)
  then show ?case using Cons.IH a Cons.prems(2) by simp
qed simp

lemma waiting_run:
  assumes "key_bitmap w i" "waiting w t0 st" "sorted ts" "\<forall>t\<in>set ts. t0 \<le> t \<and> t < t0 + 1500"
    "length q < depth"
  shows "snd (foldl (scan_step depth w) (st, q) ts) =
    (if \<exists>t\<in>set ts. t0 + 15 \<le> t then q @ [KP_EV_PRESS (KP_MAP ! i)] else q)"
  using assms(2-4)
proof (induction ts arbitrary: st)
  case (Cons t ts)
  note a = scan_of_waiting [OF assms(1) Cons.prems(1), of t]
  show ?case
  proof (cases "t < t0 + 15")
    case True
    then have "scan_step depth w (st, q) t = (st, q)" using a Cons.prems(3) by (simp add: split_def)
    then show ?thesis using Cons.IH [OF Cons.prems(1)] Cons.prems True by (auto simp: not_le)
  next
    case False
    let ?lg = "fst (kp_logic_update st w (of_nat t) 4)"
    have acc: "accepted_at w t ?lg" and "scan_step depth w (st, q) t = (?lg, q @ [KP_EV_PRESS (KP_MAP ! i)])"
      using a Cons.prems(3) False assms(5) by (auto simp: split_def Let_def post_def)
    moreover have "\<forall>t'\<in>set ts. t \<le> t' \<and> t' < t + 1500" using Cons.prems(2,3) by force
    ultimately show ?thesis using accepted_run [OF assms(1) acc, of ts depth] False by force
  qed
qed simp

lemma turns_as_scans:
  assumes "\<forall>p. snd (keypad_scan_once sense (kp_cfg k) p) = w" "kp_running k" "kp_queue k = Some q"
  shows "kp_queue (foldl (\<lambda>k t. keypad_turn sense (of_nat t) k) k ts) =
    Some (snd (foldl (scan_step (queue_depth (kp_cfg k)) w) (kp_st k, q) ts))"
  using assms
proof (induction ts arbitrary: k q)
  case (Cons t ts)
  let ?k = "keypad_turn sense (of_nat t) k"
  have k: "kp_cfg ?k = kp_cfg k" "kp_running ?k"
    "(kp_st ?k, the (kp_queue ?k)) = scan_step (queue_depth (kp_cfg k)) w (kp_st k, q) t" "kp_queue ?k \<noteq> None"
    using Cons.prems by (simp_all add: keypad_turn_def split_def Let_def)
  then obtain q' where q': "kp_queue ?k = Some q'" by blast
  show ?case using Cons.IH [of ?k q'] Cons.prems(1) k q' by simp
qed simp

text \<open>One key closed.\<close>

lemma single_key_scan:
  assumes "matrix cfg (\<lambda>a b. a = r \<and> b = c) sense" "r < 4" "c < 4"
  shows "snd (keypad_scan_once sense cfg p) = push_bit (4 * r + c) 1" "key_bitmap (push_bit (4 * r + c) 1) (4 * r + c)"
proof -
  let ?i = "4 * r + c"
  have i: "?i < 16" using assms(2,3) by simp
  have b: "bit (push_bit ?i (1 :: u16)) k \<longleftrightarrow> k = ?i" for k
    using i by (auto simp: bit_simps)
  show "snd (keypad_scan_once sense cfg p) = push_bit ?i 1"
  proof (rule bit_word_eqI)
    fix k assume "k < LENGTH(16)"
    moreover have "k div 4 = r \<and> k mod 4 = c \<longleftrightarrow> k = ?i" using assms(3) by auto
    ultimately show "bit (snd (keypad_scan_once sense cfg p)) k \<longleftrightarrow> bit (push_bit ?i (1 :: u16)) k"
      unfolding bit_scan [OF assms(1)] b by simp
  qed
  have S: "{k. bit (push_bit ?i (1 :: u16)) k} = {?i}" unfolding b by simp
  have one: "popcount16 (push_bit ?i 1) = 1" unfolding popcount16_card S by simp
  have nz: "push_bit ?i (1 :: u16) \<noteq> 0"
  proof
    assume "push_bit ?i (1 :: u16) = 0"
    then show False using S by (metis bit_0_eq bot_apply bot_bool_def empty_Collect_eq insert_not_empty)
  qed
  obtain j where j: "j < KP_KEYS" "\<And>k. bit (push_bit ?i (1 :: u16)) k \<longleftrightarrow> k = j" "lowest_set_index (push_bit ?i 1) = Some j"
    using single_key [of "push_bit ?i 1"] one nz by auto
  then have "j = ?i" unfolding b by auto
  with one nz j(3) i show "key_bitmap (push_bit ?i 1) ?i" unfolding key_bitmap_def by blast
qed


section \<open>Properties\<close>

text \<open>C28: a key that is held is posted, once.  With the keypad at rest and room in the queue, scanning
  while exactly one key is closed posts the press of that key, and nothing else, once the scans
  span the 15 ms of the debounce; however the scans are spaced within the second and a half after
  the first, and wherever the counter wraps.\<close>

theorem held_key_is_posted:
  assumes "matrix (kp_cfg k) (\<lambda>a b. a = r \<and> b = c) sense" "r < 4" "c < 4" "kp_running k" "at_rest (kp_st k)"
    "kp_queue k = Some q" "length q < queue_depth (kp_cfg k)"
    "sorted (t0 # ts)" "\<forall>t\<in>set ts. t < t0 + 1500" "\<exists>t\<in>set ts. t0 + 15 \<le> t"
  shows "kp_queue (foldl (\<lambda>k t. keypad_turn sense (of_nat t) k) k (t0 # ts)) =
    Some (q @ [KP_EV_PRESS (KP_MAP ! (4 * r + c))])"
proof -
  note w = single_key_scan [OF assms(1-3)]
  note f = scan_of_rest [OF w(2) assms(5), of t0]
  let ?st = "fst (kp_logic_update (kp_st k) (push_bit (4 * r + c) 1) (of_nat t0) 4)"
  have "scan_step (queue_depth (kp_cfg k)) (push_bit (4 * r + c) 1) (kp_st k, q) t0 = (?st, q)"
    using f by (simp add: split_def Let_def)
  moreover have "snd (foldl (scan_step (queue_depth (kp_cfg k)) (push_bit (4 * r + c) 1)) (?st, q) ts) =
      q @ [KP_EV_PRESS (KP_MAP ! (4 * r + c))]"
    using waiting_run [OF w(2) _ _ _ assms(7), of t0 ?st ts] f assms(8-10) by auto
  ultimately show ?thesis using turns_as_scans [of sense k "push_bit (4 * r + c) 1" q "t0 # ts"] w(1) assms(4,6)
    by (simp only: foldl.simps) simp
qed

text \<open>The default wiring with the key in the second row and third column closed.\<close>

definition demo_sense :: sense_fn where
  "demo_sense p pin \<longleftrightarrow> \<not> (pin = 17 \<and> \<not> p 5)"

definition demo_keypad :: keypad where
  "demo_keypad = \<lparr>kp_cfg = KEYPAD_DEFAULT_CONFIG, kp_queue = Some [], kp_task = True, kp_running = True,
     kp_st = kp_logic_init, kp_pins = (\<lambda>_. True)\<rparr>"

lemma demo_matrix: "matrix KEYPAD_DEFAULT_CONFIG (\<lambda>a b. a = 1 \<and> b = 2) demo_sense"
  by (auto simp: matrix_def demo_sense_def numeral_eq_Suc less_Suc_eq nth_Cons')

theorem held_key_is_posted_witness:
  "kp_queue (foldl (\<lambda>k t. keypad_turn demo_sense (of_nat t) k) demo_keypad [4294967290, 4294967295, 4294967305])
     = Some [KP_EV_PRESS CHR ''6'']"
  using held_key_is_posted [of demo_keypad 1 2 demo_sense "[]" 4294967290 "[4294967295, 4294967305]"] demo_matrix
  by (simp add: demo_keypad_def kp_logic_init_def at_rest_def KP_MAP_def)

end
