(* ===== verification/Lock_Logic.thy ===== *)
theory Lock_Logic
  imports Gate_Prelude
begin

text \<open>
  \<^verbatim>\<open>components/lock_driver\<close>: the pulse that energises the solenoid, its ceiling and its
  cooldown (\<open>lock_logic\<close>), and the driver that puts the output on a pin (\<open>lock_driver\<close>).
\<close>

section \<open>Data\<close>

abbreviation LOCK_DEFAULT_PULSE_MS :: u32 where "LOCK_DEFAULT_PULSE_MS \<equiv> 800"
abbreviation LOCK_MAX_PULSE_MS :: u32 where "LOCK_MAX_PULSE_MS \<equiv> 1000"
abbreviation LOCK_COOLDOWN_MS :: u32 where "LOCK_COOLDOWN_MS \<equiv> 3000"

datatype lock_state = LOCK_IDLE | LOCK_PULSING | LOCK_COOLDOWN

record lock_logic =
  lock_state :: lock_state
  pulse_ms :: u32
  pulse_started_ms :: u32
  cooldown_until_ms :: u32
  pulses_total :: u32
  requests_refused :: u32


section \<open>Operations\<close>

definition elapsed :: "u32 \<Rightarrow> u32 \<Rightarrow> u32 \<Rightarrow> bool" where
  "elapsed now_ms since_ms span_ms \<longleftrightarrow> now_ms - since_ms \<ge> span_ms"

definition lock_logic_init :: "u32 \<Rightarrow> lock_logic" where
  "lock_logic_init pulse =
     (let pulse = (if pulse = 0 then LOCK_DEFAULT_PULSE_MS else pulse);
          pulse = (if pulse > LOCK_MAX_PULSE_MS then LOCK_MAX_PULSE_MS else pulse)
      in \<lparr>lock_state = LOCK_IDLE, pulse_ms = pulse, pulse_started_ms = 0, cooldown_until_ms = 0,
          pulses_total = 0, requests_refused = 0\<rparr>)"

definition lock_logic_tick :: "lock_logic \<Rightarrow> u32 \<Rightarrow> lock_logic" where
  "lock_logic_tick st now_ms =
     (case lock_state st of
        LOCK_PULSING \<Rightarrow>
          if elapsed now_ms (pulse_started_ms st) (pulse_ms st)
          then st\<lparr>lock_state := LOCK_COOLDOWN,
                  cooldown_until_ms := pulse_started_ms st + pulse_ms st + LOCK_COOLDOWN_MS\<rparr>
          else st
      | LOCK_COOLDOWN \<Rightarrow>
          if sint (cooldown_until_ms st - now_ms) \<le> 0 then st\<lparr>lock_state := LOCK_IDLE\<rparr> else st
      | LOCK_IDLE \<Rightarrow> st)"

definition lock_logic_request :: "lock_logic \<Rightarrow> u32 \<Rightarrow> lock_logic \<times> bool" where
  "lock_logic_request st now_ms =
     (let st = lock_logic_tick st now_ms in
      if lock_state st \<noteq> LOCK_IDLE
      then (st\<lparr>requests_refused := requests_refused st + 1\<rparr>, False)
      else (st\<lparr>lock_state := LOCK_PULSING, pulse_started_ms := now_ms,
               pulses_total := pulses_total st + 1\<rparr>, True))"

definition lock_logic_output :: "lock_logic \<Rightarrow> u32 \<Rightarrow> bool" where
  "lock_logic_output st now_ms \<longleftrightarrow>
     lock_state st = LOCK_PULSING \<and> \<not> elapsed now_ms (pulse_started_ms st) (pulse_ms st)"


section \<open>Runs\<close>

text \<open>
  \<open>lock_reach p st ts t\<close>: starting from \<open>lock_logic_init p\<close>, ticks and requests at real times
  that do not run backwards, and never more than 24.8 days apart, have led to \<open>st\<close> at time \<open>t\<close>
  and the requests at the times \<open>ts\<close> were accepted.
\<close>

inductive lock_reach :: "u32 \<Rightarrow> lock_logic \<Rightarrow> nat list \<Rightarrow> nat \<Rightarrow> bool" for p where
  start: "lock_reach p (lock_logic_init p) [] t"
| tick: "lock_reach p st ts t \<Longrightarrow> t \<le> t' \<Longrightarrow> t' - t \<le> 2 ^ 31 \<Longrightarrow>
    lock_reach p (lock_logic_tick st (of_nat t')) ts t'"
| accepted: "lock_reach p st ts t \<Longrightarrow> t \<le> t' \<Longrightarrow> t' - t \<le> 2 ^ 31 \<Longrightarrow>
    lock_logic_request st (of_nat t') = (st', True) \<Longrightarrow> lock_reach p st' (ts @ [t']) t'"
| refused: "lock_reach p st ts t \<Longrightarrow> t \<le> t' \<Longrightarrow> t' - t \<le> 2 ^ 31 \<Longrightarrow>
    lock_logic_request st (of_nat t') = (st', False) \<Longrightarrow> lock_reach p st' ts t'"

text \<open>The state in terms of real time: what each phase knows of the last accepted request.\<close>

definition lock_inv :: "lock_logic \<Rightarrow> nat list \<Rightarrow> nat \<Rightarrow> bool" where
  "lock_inv st ts t \<longleftrightarrow> 0 < unat (pulse_ms st) \<and> unat (pulse_ms st) \<le> 1000 \<and>
     (case lock_state st of
        LOCK_PULSING \<Rightarrow> ts \<noteq> [] \<and> pulse_started_ms st = of_nat (last ts) \<and> last ts \<le> t \<and>
          t - last ts < unat (pulse_ms st)
      | LOCK_COOLDOWN \<Rightarrow> ts \<noteq> [] \<and> last ts \<le> t \<and>
          cooldown_until_ms st = of_nat (last ts) + of_nat (unat (pulse_ms st) + 3000)
      | LOCK_IDLE \<Rightarrow> ts = [] \<or> last ts + unat (pulse_ms st) + 3000 \<le> t)"

declare lock_inv_def [inv_defs]

lemma elapsed_real:
  assumes "t0 \<le> t" "t - t0 < 2 ^ 32"
  shows "elapsed (of_nat t) (of_nat t0) w \<longleftrightarrow> unat w \<le> t - t0"
  using assms by (simp only: elapsed_def word_le_nat_alt unat_of_nat_diff)

lemma cooldown_over:
  assumes "t0 \<le> t" "w < 2 ^ 31" "sint (of_nat t0 + of_nat w - of_nat t :: u32) \<le> 0"
  shows "t0 + w \<le> t"
proof (rule ccontr)
  assume "\<not> ?thesis"
  then have "t - t0 < w" "t = t0 + (t - t0)" using assms(1) by auto
  then show False using deadline_passed [of w "t - t0" t0] assms(2,3) by simp
qed

lemma tick_inv:
  assumes "lock_inv st ts t" "t \<le> t'" "t' - t \<le> 2 ^ 31"
  shows "lock_inv (lock_logic_tick st (of_nat t')) ts t'"
proof (cases "lock_state st")
  case LOCK_IDLE
  then show ?thesis using assms by (auto simp: lock_inv_def lock_logic_tick_def)
next
  case LOCK_PULSING
  then have i: "ts \<noteq> []" "pulse_started_ms st = of_nat (last ts)" "last ts \<le> t'"
    "t - last ts < unat (pulse_ms st)" "unat (pulse_ms st) \<le> 1000" "0 < unat (pulse_ms st)"
    using assms by (auto simp: lock_inv_def)
  then have "elapsed (of_nat t') (of_nat (last ts)) (pulse_ms st) \<longleftrightarrow> unat (pulse_ms st) \<le> t' - last ts"
    using assms(2,3) by (intro elapsed_real) auto
  then show ?thesis using LOCK_PULSING i by (auto simp: lock_inv_def lock_logic_tick_def)
next
  case LOCK_COOLDOWN
  then have i: "ts \<noteq> []" "last ts \<le> t'" "cooldown_until_ms st = of_nat (last ts) + of_nat (unat (pulse_ms st) + 3000)"
    "unat (pulse_ms st) \<le> 1000" "0 < unat (pulse_ms st)"
    using assms by (auto simp: lock_inv_def)
  show ?thesis
  proof (cases "sint (cooldown_until_ms st - of_nat t') \<le> 0")
    case True
    then have "last ts + (unat (pulse_ms st) + 3000) \<le> t'"
      using i by (intro cooldown_over) auto
    then show ?thesis using LOCK_COOLDOWN True i by (simp add: lock_inv_def lock_logic_tick_def)
  next
    case False
    then show ?thesis using LOCK_COOLDOWN i by (simp add: lock_inv_def lock_logic_tick_def)
  qed
qed

lemma lock_logic_init_inv: "lock_inv (lock_logic_init p) [] t"
proof -
  have "0 < unat p" if "p \<noteq> 0" using that by (simp add: unat_gt_0)
  then show ?thesis
    by (auto simp: lock_inv_def lock_logic_init_def Let_def word_less_nat_alt not_less)
qed

lemma pulse_ms_tick [simp]: "pulse_ms (lock_logic_tick st now) = pulse_ms st"
  by (simp add: lock_logic_tick_def split: lock_state.split)

lemma lock_inv_refused: "lock_inv (st\<lparr>requests_refused := n\<rparr>) ts t = lock_inv st ts t"
  by (simp add: lock_inv_def split: lock_state.split)

lemma reach_inv:
  "lock_reach p st ts t \<Longrightarrow> lock_inv st ts t \<and> pulse_ms st = pulse_ms (lock_logic_init p)"
proof (induction rule: lock_reach.induct)
  case (start t)
  then show ?case by (simp add: lock_logic_init_inv)
next
  case (tick st ts t t')
  then have "lock_inv (lock_logic_tick st (of_nat t')) ts t'" by (intro tick_inv [of st ts t]) auto
  with tick show ?case by simp
next
  case (accepted st ts t t' st')
  have "lock_inv (lock_logic_tick st (of_nat t')) ts t'" using accepted by (intro tick_inv) auto
  then show ?case using accepted
    by (auto simp: lock_logic_request_def Let_def lock_inv_def split: if_splits)
next
  case (refused st ts t t' st')
  have "lock_inv (lock_logic_tick st (of_nat t')) ts t'" using refused by (intro tick_inv) auto
  moreover have "st' = (lock_logic_tick st (of_nat t'))\<lparr>requests_refused :=
      requests_refused (lock_logic_tick st (of_nat t')) + 1\<rparr>"
    using refused.hyps(4) by (auto simp: lock_logic_request_def Let_def split: if_splits)
  ultimately show ?case using refused.IH by (simp add: lock_inv_refused)
qed


section \<open>The driver\<close>

text \<open>
  The driver's statics and the pin.  \<open>gpio_config\<close> is the platform's: whether it succeeds is an
  argument.  \<open>coil_level\<close> is the level last written to the pin.
\<close>

record lock_driver_config =
  active_high :: bool
  cfg_pulse_ms :: u32

record lock_driver =
  s_cfg :: lock_driver_config
  s_logic :: lock_logic
  s_ready :: bool
  coil_level :: bool

definition write_coil :: "bool \<Rightarrow> lock_driver \<Rightarrow> lock_driver" where
  "write_coil energised d =
     d\<lparr>coil_level := (if active_high (s_cfg d) then energised else \<not> energised)\<rparr>"

definition lock_driver_init ::
  "bool \<Rightarrow> lock_driver_config option \<Rightarrow> lock_driver \<Rightarrow> lock_driver \<times> bool" where
  "lock_driver_init gpio_config_ok cfg d =
     (case cfg of
        None \<Rightarrow> (d, False)
      | Some c \<Rightarrow>
          (let d = d\<lparr>s_cfg := c, s_logic := lock_logic_init (cfg_pulse_ms c)\<rparr>;
               d = d\<lparr>coil_level := \<not> active_high c\<rparr>
           in if \<not> gpio_config_ok then (d, False)
              else ((write_coil False d)\<lparr>s_ready := True\<rparr>, True)))"

definition lock_driver_open :: "lock_driver \<Rightarrow> u32 \<Rightarrow> lock_driver \<times> bool" where
  "lock_driver_open d t =
     (if \<not> s_ready d then (d, False)
      else
        (let (lg, accepted) = lock_logic_request (s_logic d) t;
             d = d\<lparr>s_logic := lg\<rparr>
         in (write_coil (lock_logic_output (s_logic d) t) d, accepted)))"

definition lock_driver_tick :: "lock_driver \<Rightarrow> u32 \<Rightarrow> lock_driver" where
  "lock_driver_tick d t =
     (if \<not> s_ready d then d
      else
        (let d = d\<lparr>s_logic := lock_logic_tick (s_logic d) t\<rparr>
         in write_coil (lock_logic_output (s_logic d) t) d))"

definition energised :: "lock_driver \<Rightarrow> bool" where
  "energised d \<longleftrightarrow> coil_level d = active_high (s_cfg d)"

lemma energised_write [simp]: "energised (write_coil b d) = b"
  by (auto simp: energised_def write_coil_def)


text \<open>What the logic and the pin agree on between two calls: the coil is energised exactly while the
  logic is pulsing, for the pulse it was given is never empty.\<close>

definition lock_ok :: "lock_driver \<Rightarrow> bool" where
  "lock_ok d \<longleftrightarrow> (s_ready d \<longrightarrow> pulse_ms (s_logic d) \<noteq> 0 \<and> (energised d \<longleftrightarrow> lock_state (s_logic d) = LOCK_PULSING))"

declare lock_ok_def [inv_defs]

lemma write_coil_keeps [simp]: "s_logic (write_coil b d) = s_logic d" "s_ready (write_coil b d) = s_ready d"
  by (simp_all add: write_coil_def)

lemma output_after_tick:
  "lock_logic_output (lock_logic_tick st t) t \<longleftrightarrow> lock_state (lock_logic_tick st t) = LOCK_PULSING"
  by (auto simp: lock_logic_output_def lock_logic_tick_def split: lock_state.splits)

lemma request_spec:
  "lock_logic_request st t =
     (let u = lock_logic_tick st t
      in if lock_state u = LOCK_IDLE
         then (u\<lparr>lock_state := LOCK_PULSING, pulse_started_ms := t, pulses_total := pulses_total u + 1\<rparr>, True)
         else (u\<lparr>requests_refused := requests_refused u + 1\<rparr>, False))"
  by (simp add: lock_logic_request_def Let_def)

lemma output_after_request:
  assumes "pulse_ms st \<noteq> 0" "lock_logic_request st t = (st', ok)"
  shows "pulse_ms st' = pulse_ms st" "lock_logic_output st' t \<longleftrightarrow> lock_state st' = LOCK_PULSING"
proof -
  have z: "pulse_ms st \<le> 0 \<longleftrightarrow> pulse_ms st = 0" by (simp add: word_le_nat_alt unat_eq_zero)
  show "pulse_ms st' = pulse_ms st" "lock_logic_output st' t \<longleftrightarrow> lock_state st' = LOCK_PULSING"
    using assms output_after_tick [of st t] z
    by (auto simp: request_spec Let_def lock_logic_output_def elapsed_def split: if_splits)
qed

lemma lock_ok_init: "lock_ok (fst (lock_driver_init ok (Some c) d))"
  by (auto simp: lock_ok_def lock_driver_init_def Let_def lock_logic_init_def write_coil_def energised_def)

lemma lock_ok_open:
  assumes "lock_ok d"
  shows "lock_ok (fst (lock_driver_open d t))"
proof -
  obtain st' ok where r: "lock_logic_request (s_logic d) t = (st', ok)" by fastforce
  from assms output_after_request [OF _ r] show ?thesis
    by (auto simp: lock_ok_def lock_driver_open_def r)
qed

lemma lock_ok_tick: "lock_ok d \<Longrightarrow> lock_ok (lock_driver_tick d t)"
  by (auto simp: lock_ok_def lock_driver_tick_def output_after_tick)

text \<open>Without an order to open, a coil that is off stays off.\<close>

lemma tick_energises_nothing:
  assumes "lock_ok d" "energised (lock_driver_tick d t)"
  shows "energised d"
proof (cases "s_ready d")
  case True
  have "lock_state (lock_logic_tick st t) = LOCK_PULSING \<Longrightarrow> lock_state st = LOCK_PULSING" for st
    by (auto simp: lock_logic_tick_def split: lock_state.splits if_splits)
  with True assms show ?thesis by (auto simp: lock_ok_def lock_driver_tick_def output_after_tick)
qed (use assms in \<open>simp add: lock_driver_tick_def\<close>)


section \<open>Properties\<close>

lemma accepted_spaced:
  assumes "lock_reach p st ts t" "Suc i < length ts"
  shows "ts ! i + unat (pulse_ms (lock_logic_init p)) + 3000 \<le> ts ! Suc i"
  using assms
proof (induction arbitrary: i rule: lock_reach.induct)
  case (accepted st ts t t' st')
  note inv = reach_inv [OF accepted.hyps(1)]
  show ?case
  proof (cases "Suc i < length ts")
    case True
    then show ?thesis using accepted.IH [OF True] by (simp add: nth_append)
  next
    case False
    then have i: "Suc i = length ts" using accepted.prems by simp
    then have last: "ts ! i = last ts" "ts \<noteq> []" by (cases ts rule: rev_cases; auto simp: nth_append)+
    have "lock_inv (lock_logic_tick st (of_nat t')) ts t'"
      using accepted inv by (intro tick_inv) auto
    moreover have "lock_state (lock_logic_tick st (of_nat t')) = LOCK_IDLE"
      using accepted.hyps(4) by (simp add: lock_logic_request_def Let_def split: if_splits)
    ultimately have "last ts + unat (pulse_ms st) + 3000 \<le> t'"
      using last(2) by (simp add: lock_inv_def)
    then show ?thesis using inv i last by (simp add: nth_append)
  qed
qed auto

text \<open>C9: the coil is never energised past its ceiling.  Along every run of ticks and requests,
  at any later time asked (up to 24 days without a tick), a live output means a request was
  accepted less than the pulse length ago, which is at most one second; so a stalled loop, a
  merged request or a wrapping counter cannot hold it on.\<close>

theorem coil_ceiling:
  assumes "lock_reach p st ts t" "t \<le> t'" "t' - t \<le> 2 ^ 31" "lock_logic_output st (of_nat t')"
  shows "ts \<noteq> [] \<and> last ts \<le> t' \<and> t' - last ts < unat (pulse_ms st) \<and> unat (pulse_ms st) \<le> 1000"
proof -
  have pulsing: "lock_state st = LOCK_PULSING" and live: "\<not> elapsed (of_nat t') (pulse_started_ms st) (pulse_ms st)"
    using assms(4) by (simp_all add: lock_logic_output_def)
  have i: "ts \<noteq> []" "pulse_started_ms st = of_nat (last ts)" "last ts \<le> t" "t - last ts < unat (pulse_ms st)"
    "unat (pulse_ms st) \<le> 1000"
    using reach_inv [OF assms(1)] pulsing by (auto simp: lock_inv_def)
  have "elapsed (of_nat t') (of_nat (last ts)) (pulse_ms st) \<longleftrightarrow> unat (pulse_ms st) \<le> t' - last ts"
    using i assms(2,3) by (intro elapsed_real) auto
  then show ?thesis using i live assms(2) by auto
qed

text \<open>C10: accepted requests are a pulse and a cooldown apart.  Along every run, whatever is
  requested and however often, two consecutive accepted requests are at least the pulse length
  plus three seconds apart.\<close>

theorem duty_cycle:
  assumes "lock_reach p st ts t" "Suc i < length ts"
  shows "ts ! i + unat (pulse_ms (lock_logic_init p)) + 3000 \<le> ts ! Suc i"
  using assms by (rule accepted_spaced)

text \<open>A run for the witnesses: a request at 100, ticks at 950 and 4000, a request at 4001.\<close>

definition demo_lock :: lock_logic where
  "demo_lock = fst (lock_logic_request (lock_logic_init 800) 100)"

lemma demo_reach: "lock_reach 800 demo_lock [100] 100"
proof -
  have "lock_logic_request (lock_logic_init 800) (of_nat 100) = (demo_lock, True)"
    by (simp add: demo_lock_def lock_logic_request_def lock_logic_init_def lock_logic_tick_def)
  from lock_reach.accepted [OF lock_reach.start [where t = 100] _ _ this] show ?thesis by simp
qed

theorem coil_ceiling_witness:
  "100 \<le> (899::nat) \<and> 899 - 100 < (800::nat)"
  using coil_ceiling [OF demo_reach, of 899]
  by (simp add: lock_logic_output_def elapsed_def demo_lock_def lock_logic_request_def lock_logic_init_def
      lock_logic_tick_def Let_def)

theorem duty_cycle_witness: "(100::nat) + 800 + 3000 \<le> 4001"
proof -
  let ?a = "lock_logic_tick demo_lock (of_nat 950)" let ?b = "lock_logic_tick ?a (of_nat 4000)"
  have "lock_reach 800 ?b [100] 4000"
    using lock_reach.tick [OF lock_reach.tick [OF demo_reach, of 950], of 4000] by simp
  moreover have "snd (lock_logic_request ?b (of_nat 4001))" by code_simp
  then obtain c where "lock_logic_request ?b (of_nat 4001) = (c, True)" by (metis prod.collapse)
  ultimately have "lock_reach 800 c ([100] @ [4001]) 4001" by (intro lock_reach.accepted) auto
  from duty_cycle [OF this, of 0] show ?thesis by (simp add: lock_logic_init_def Let_def)
qed

text \<open>A request is refused although the cooldown is long over, when nothing ticked since the
  pulse: the tick inside the request only moves the pulse to its cooldown.  The next call is the
  one that finds it over.\<close>

theorem request_after_silence_refused:
  assumes "lock_reach p st ts t" "lock_state st = LOCK_PULSING" "t \<le> t'" "t' - t \<le> 2 ^ 31"
    "last ts + unat (pulse_ms st) + 3000 \<le> t'"
  shows "snd (lock_logic_request st (of_nat t')) = False"
proof -
  have i: "pulse_started_ms st = of_nat (last ts)" "last ts \<le> t" "t - last ts < unat (pulse_ms st)"
    "unat (pulse_ms st) \<le> 1000"
    using reach_inv [OF assms(1)] assms(2) by (auto simp: lock_inv_def)
  have "elapsed (of_nat t') (of_nat (last ts)) (pulse_ms st) \<longleftrightarrow> unat (pulse_ms st) \<le> t' - last ts"
    using i assms(3,4) by (intro elapsed_real) auto
  then show ?thesis using i assms(2,5) by (simp add: lock_logic_request_def lock_logic_tick_def Let_def)
qed

theorem request_after_silence_refused_witness:
  "snd (lock_logic_request demo_lock 600000) = False"
  using request_after_silence_refused [OF demo_reach, of 600000]
  by (simp add: demo_lock_def lock_logic_request_def lock_logic_init_def lock_logic_tick_def Let_def)

text \<open>The pin follows the logic.  After every tick and every request of a ready driver, with
  either polarity, the coil is energised exactly when the logic says so at that moment; the
  initialisation leaves it de-energised whether or not the pin could be configured.\<close>

theorem pin_follows_logic:
  "(s_ready d \<longrightarrow> energised (lock_driver_tick d t) = lock_logic_output (s_logic (lock_driver_tick d t)) t) \<and>
   (s_ready d \<longrightarrow> energised (fst (lock_driver_open d t)) = lock_logic_output (s_logic (fst (lock_driver_open d t))) t) \<and>
   \<not> energised (fst (lock_driver_init ok (Some c) d))"
proof -
  have rd: "energised (x\<lparr>s_ready := True\<rparr>) = energised x" for x by (simp add: energised_def)
  have dn: "\<not> energised (d\<lparr>s_cfg := c, s_logic := x, coil_level := \<not> active_high c\<rparr>)" for x
    by (simp add: energised_def)
  show ?thesis
    by (simp add: lock_driver_tick_def lock_driver_open_def lock_driver_init_def Let_def split_def rd dn)
qed

theorem pin_follows_logic_witness:
  "\<not> energised (lock_driver_tick \<lparr>s_cfg = \<lparr>active_high = False, cfg_pulse_ms = 0\<rparr>, s_logic = demo_lock,
     s_ready = True, coil_level = False\<rparr> 950)"
  using pin_follows_logic [of "\<lparr>s_cfg = \<lparr>active_high = False, cfg_pulse_ms = 0\<rparr>, s_logic = demo_lock,
     s_ready = True, coil_level = False\<rparr>" 950]
  by (simp add: lock_logic_output_def lock_driver_tick_def write_coil_def demo_lock_def lock_logic_request_def
      lock_logic_init_def lock_logic_tick_def elapsed_def Let_def)

end
