(* ===== verification/Byte_Codec.thy ===== *)
theory Byte_Codec
  imports Gate_Prelude
begin

text \<open>
  The helpers both record formats of \<^verbatim>\<open>components/persist_store\<close> carry: 32-bit numbers in
  little-endian order, bytes written at an offset of a buffer, and CRC-16/CCITT.  Then the
  interface of a record that ends in a CRC, which detects every damaged byte.
\<close>

section \<open>Bytes in a buffer\<close>

text \<open>\<open>memcpy(&out[i], bs, sizeof bs)\<close>.\<close>

definition blit :: "nat \<Rightarrow> u8 list \<Rightarrow> u8 list \<Rightarrow> u8 list" where
  "blit i bs out = take i out @ bs @ drop (i + length bs) out"

definition put32 :: "u32 \<Rightarrow> u8 list" where
  "put32 v = [ucast v, ucast (drop_bit 8 v), ucast (drop_bit 16 v), ucast (drop_bit 24 v)]"

definition get32 :: "u8 list \<Rightarrow> u32" where
  "get32 p = ucast (p ! 0) OR push_bit 8 (ucast (p ! 1)) OR push_bit 16 (ucast (p ! 2)) OR
     push_bit 24 (ucast (p ! 3))"

text \<open>Characters stored as bytes.\<close>

definition byte_of :: "char \<Rightarrow> u8" where
  "byte_of c = of_nat (of_char c)"

definition char_of_byte :: "u8 \<Rightarrow> char" where
  "char_of_byte b = char_of (unat b)"

lemma char_of_byte_of [simp]: "char_of_byte (byte_of c) = c"
proof -
  have "(of_char c :: nat) < 256" by (rule nat_of_char_less_256)
  then have "unat (of_nat (of_char c) :: u8) = of_char c"
    by (simp add: unat_of_nat take_bit_nat_eq_self)
  then show ?thesis by (simp only: char_of_byte_def byte_of_def) simp
qed

lemma map_char_of_byte_of [simp]: "map char_of_byte (map byte_of s) = s"
  by (simp add: comp_def)

lemma length_put32 [simp]: "length (put32 v) = 4"
  by (simp add: put32_def)

lemma length_blit [simp]: "i + length bs \<le> length out \<Longrightarrow> length (blit i bs out) = length out"
  by (simp add: blit_def)

lemma get32_bytes:
  "ucast (ucast v :: u8) OR push_bit 8 (ucast (ucast (drop_bit 8 v) :: u8)) OR
     push_bit 16 (ucast (ucast (drop_bit 16 v) :: u8)) OR push_bit 24 (ucast (ucast (drop_bit 24 v) :: u8))
   = (v :: u32)" (is "?l = v")
proof (rule bit_word_eqI)
  fix n assume "n < LENGTH(32)"
  then consider "n < 8" | "8 \<le> n" "n < 16" | "16 \<le> n" "n < 24" | "24 \<le> n" "n < 32" by force
  then show "bit ?l n = bit v n"
    by cases (auto simp: bit_simps)
qed

lemma get32_put32: "get32 (put32 v @ rest) = v"
  by (simp add: get32_def put32_def get32_bytes)

lemma blit_mid: "length xs = i \<Longrightarrow> length ys = length bs \<Longrightarrow> blit i bs (xs @ ys @ zs) = xs @ bs @ zs"
  by (simp add: blit_def)

lemma update_mid: "length xs = i \<Longrightarrow> (xs @ y # zs)[i := v] = xs @ v # zs"
  by auto

lemma nth_blit:
  assumes "i + length bs \<le> length out" "j < length out"
  shows "blit i bs out ! j = (if i \<le> j \<and> j < i + length bs then bs ! (j - i) else out ! j)"
  using assms by (auto simp: blit_def nth_append min_def)

text \<open>Reading four bytes back at their offset.\<close>

lemma get32_drop:
  "get32 (drop i p) = ucast (p ! i) OR push_bit 8 (ucast (p ! (i + 1))) OR
     push_bit 16 (ucast (p ! (i + 2))) OR push_bit 24 (ucast (p ! (i + 3)))"
  if "i + 4 \<le> length p"
  using that by (simp add: get32_def)

lemma get32_drop_put32:
  assumes "i + 4 \<le> length p" "p ! i = put32 v ! 0" "p ! (i + 1) = put32 v ! 1"
    "p ! (i + 2) = put32 v ! 2" "p ! (i + 3) = put32 v ! 3"
  shows "get32 (drop i p) = v"
  using assms by (simp add: get32_drop put32_def get32_bytes)


section \<open>CRC-16\<close>

definition crc_bit :: "u16 \<Rightarrow> u16" where
  "crc_bit crc = (if crc AND 0x8000 \<noteq> 0 then push_bit 1 crc XOR 0x1021 else push_bit 1 crc)"

definition crc_byte :: "u16 \<Rightarrow> u8 \<Rightarrow> u16" where
  "crc_byte crc d = (crc_bit ^^ 8) (crc XOR push_bit 8 (ucast d))"

definition crc16 :: "u8 list \<Rightarrow> nat \<Rightarrow> u16" where
  "crc16 d n = foldl crc_byte 0xFFFF (take n d)"

definition stored16 :: "u8 list \<Rightarrow> nat \<Rightarrow> u16" where
  "stored16 p i = ucast (p ! i) OR push_bit 8 (ucast (p ! (i + 1)))"

lemma stored16_bytes:
  "ucast (ucast c :: u8) OR push_bit 8 (ucast (ucast (drop_bit 8 c) :: u8)) = (c :: u16)"
  by (rule bit_word_eqI) (auto simp: bit_simps)

text \<open>Shifting a bit through the register loses nothing: the generator ends in a one.\<close>

lemma crc_top: "x AND 0x8000 \<noteq> 0 \<longleftrightarrow> bit (x :: u16) 15"
  using and_push_bit_1 [of x 15] by simp

lemma crc_bit_low: "bit (crc_bit x) 0 \<longleftrightarrow> bit x 15"
proof -
  have z: "\<not> bit (push_bit 1 x) 0" by (simp only: bit_push_bit_iff) simp
  then have "bit (push_bit 1 x XOR 0x1021) 0" by (simp only: bit_xor_iff) simp
  with z show ?thesis by (simp only: crc_bit_def crc_top split: if_split) simp
qed

lemma crc_bit_inj: "inj crc_bit"
proof (rule injI)
  fix x y assume e: "crc_bit x = crc_bit y"
  then have b: "bit x 15 = bit y 15" using crc_bit_low by metis
  then have "push_bit 1 x = push_bit 1 y"
    using e unfolding crc_bit_def crc_top by (metis bit.xor_left_self xor.commute)
  then have p: "bit (push_bit 1 x) (Suc i) = bit (push_bit 1 y) (Suc i)" for i by simp
  have low: "bit x i = bit y i" if "i < 15" for i
    using p [of i] that by (simp only: bit_push_bit_iff) simp
  show "x = y"
  proof (rule bit_word_eqI)
    fix i assume "i < LENGTH(16)"
    then show "bit x i = bit y i" using low b by (cases "i = 15") auto
  qed
qed

lemma crc_bits_inj: "inj (crc_bit ^^ n)"
proof (induction n)
  case (Suc n)
  then show ?case using inj_compose [OF crc_bit_inj Suc] by (simp add: comp_def)
qed simp


lemma crc_byte_inj_crc: "crc_byte c d = crc_byte c' d \<Longrightarrow> c = c'"
  unfolding crc_byte_def using injD [OF crc_bits_inj [of 8]] by (metis bit.xor_left_self xor.commute)

lemma crc_byte_inj_data:
  assumes "crc_byte c d = crc_byte c d'"
  shows "d = d'"
proof -
  have "push_bit 8 (ucast d) = (push_bit 8 (ucast d') :: u16)"
    using assms injD [OF crc_bits_inj [of 8]] unfolding crc_byte_def by (metis bit.xor_left_self)
  then have p: "bit (push_bit 8 (ucast d) :: u16) (i + 8) = bit (push_bit 8 (ucast d') :: u16) (i + 8)" for i
    by simp
  show ?thesis
  proof (rule bit_word_eqI)
    fix i assume "i < LENGTH(8)"
    then show "bit d i = bit d' i" using p [of i] by (simp only: bit_push_bit_iff) (simp add: bit_simps)
  qed
qed

lemma crc_fold_inj: "foldl crc_byte c ds = foldl crc_byte c' ds \<Longrightarrow> c = c'"
proof (induction ds arbitrary: c c')
  case (Cons d ds)
  have "foldl crc_byte (crc_byte c d) ds = foldl crc_byte (crc_byte c' d) ds" using Cons.prems by simp
  then have "crc_byte c d = crc_byte c' d" by (rule Cons.IH)
  then show ?case by (rule crc_byte_inj_crc)
qed simp

text \<open>Changing one byte of the protected part changes the CRC.\<close>

lemma take_split:
  assumes "i < n" "n \<le> length q"
  shows "take n q = take i q @ q ! i # drop (Suc i) (take n q)"
proof -
  have a: "take i (take n q) = take i q" "take n q ! i = q ! i" "i < length (take n q)"
    using assms by simp_all
  from id_take_nth_drop [OF a(3)] show ?thesis unfolding a(1,2) .
qed

lemma crc_fold_one:
  assumes "foldl crc_byte c (xs @ b # ys) = foldl crc_byte c (xs @ d # ys)"
  shows "b = d"
proof -
  have "crc_byte (foldl crc_byte c xs) b = crc_byte (foldl crc_byte c xs) d"
    by (rule crc_fold_inj [of _ ys]) (use assms in simp)
  then show ?thesis by (rule crc_byte_inj_data)
qed

lemma crc16_one_byte:
  assumes "i < n" "n \<le> length p" "b \<noteq> p ! i"
  shows "crc16 (p[i := b]) n \<noteq> crc16 p n"
proof
  assume e: "crc16 (p[i := b]) n = crc16 p n"
  have q: "n \<le> length (p[i := b])" "take i (p[i := b]) = take i p" "p[i := b] ! i = b"
    "drop (Suc i) (take n (p[i := b])) = drop (Suc i) (take n p)"
    using assms(1,2) by (simp_all add: drop_take)
  have "foldl crc_byte 0xFFFF (take i p @ b # drop (Suc i) (take n p)) =
      foldl crc_byte 0xFFFF (take i p @ p ! i # drop (Suc i) (take n p))"
    using e take_split [OF assms(1) q(1)] take_split [OF assms(1,2)] unfolding crc16_def q(2-4) by metis
  then have "b = p ! i" by (rule crc_fold_one)
  with assms(3) show False by simp
qed

lemma crc16_past: "n \<le> i \<Longrightarrow> crc16 (p[i := b]) n = crc16 p n"
  by (simp add: crc16_def)

lemma crc16_cong: "take n p = take n q \<Longrightarrow> crc16 p n = crc16 q n"
  by (simp add: crc16_def)

text \<open>The stored CRC reads back one value only.\<close>

lemma stored16_inj:
  assumes "i + 1 < length p" "stored16 p i = stored16 q i" "i + 1 < length q"
  shows "p ! i = q ! i \<and> p ! (i + 1) = q ! (i + 1)"
proof -
  have b: "bit (stored16 r i) j = (if j < 8 then bit (r ! i) j else bit (r ! (i + 1)) (j - 8))" if "j < 16" for r j
  proof (cases "j < 8")
    case True
    then show ?thesis by (simp add: stored16_def bit_simps)
  next
    case False
    then have "\<not> bit (r ! i) j" using bit_imp_le_length [of "r ! i" j] by auto
    then show ?thesis using False that by (auto simp: stored16_def bit_simps)
  qed
  have "bit (p ! i) j = bit (q ! i) j" if "j < 8" for j
    using b [of j p] b [of j q] that assms(2) by simp
  moreover have "bit (p ! (i + 1)) j = bit (q ! (i + 1)) j" if "j < 8" for j
    using b [of "j + 8" p] b [of "j + 8" q] that assms(2) by simp
  ultimately show ?thesis by (auto intro!: bit_word_eqI)
qed


section \<open>Interface: a record that ends in its CRC\<close>

text \<open>
  A decoder of records whose first \<open>crc_at\<close> bytes are protected by the CRC stored behind them.
  The client law: a record that is accepted is not accepted with any one of its protected or CRC
  bytes changed.
\<close>

locale crc_record =
  fixes decode :: "u8 list \<Rightarrow> 'r option"
    and crc_at :: nat
    and size :: nat
  assumes room: "crc_at + 2 \<le> size"
    and checked: "decode p \<noteq> None \<Longrightarrow> crc16 p crc_at = stored16 p crc_at"
begin

lemma one_byte_detected:
  assumes "length p = size" "decode p \<noteq> None" "i < crc_at + 2" "b \<noteq> p ! i"
  shows "decode (p[i := b]) = None"
proof (rule ccontr)
  assume "decode (p[i := b]) \<noteq> None"
  then have q: "crc16 (p[i := b]) crc_at = stored16 (p[i := b]) crc_at" by (rule checked)
  have p: "crc16 p crc_at = stored16 p crc_at" using assms(2) by (rule checked)
  have len: "crc_at + 1 < length p" using assms(1) room by simp
  show False
  proof (cases "i < crc_at")
    case True
    then have "stored16 (p[i := b]) crc_at = stored16 p crc_at" by (simp add: stored16_def)
    with p q crc16_one_byte [OF True, of p b] assms(4) len show False by simp
  next
    case False
    then have "stored16 (p[i := b]) crc_at = stored16 p crc_at" using p q by (simp add: crc16_past)
    then have "p[i := b] ! crc_at = p ! crc_at \<and> p[i := b] ! (crc_at + 1) = p ! (crc_at + 1)"
      using len by (intro stored16_inj) auto
    moreover have "i = crc_at \<or> i = crc_at + 1" using False assms(3) by auto
    ultimately show False using len assms(4) by auto
  qed
qed

end

end
