(* ===== verification/Persist_Ring.thy ===== *)
theory Persist_Ring
  imports Byte_Codec
begin

text \<open>
  \<^verbatim>\<open>persist_store/persist_ring\<close>: the attempt counter in the EEPROM.  Records
  of 32 bytes, written round-robin with a rising sequence number; the newest valid one wins.
\<close>

section \<open>Data\<close>

abbreviation PR_SLOT_SIZE :: nat where "PR_SLOT_SIZE \<equiv> 32"
abbreviation PR_SLOTS :: nat where "PR_SLOTS \<equiv> 64"
abbreviation PR_MAGIC :: u32 where "PR_MAGIC \<equiv> 0x47415445"
abbreviation PR_VERSION :: u8 where "PR_VERSION \<equiv> 1"
abbreviation PR_CRC_AT :: nat where "PR_CRC_AT \<equiv> 18"

record pr_state =
  attempts :: u8
  pr_lockout_until :: u32
  boot_count :: u32

record pr_cursor =
  cur_slot :: "nat option"
  cur_seq :: u32


section \<open>Operations\<close>

definition pr_encode :: "pr_state \<Rightarrow> u32 \<Rightarrow> u8 list" where
  "pr_encode s seq =
     (let out = replicate PR_SLOT_SIZE 0xFF;
          out = blit 0 (put32 PR_MAGIC) out;
          out = blit 4 (put32 seq) out;
          out = out[8 := PR_VERSION];
          out = out[9 := attempts s];
          out = blit 10 (put32 (pr_lockout_until s)) out;
          out = blit 14 (put32 (boot_count s)) out;
          c = crc16 out PR_CRC_AT;
          out = out[PR_CRC_AT := ucast c]
      in out[PR_CRC_AT + 1 := ucast (drop_bit 8 c)])"

definition pr_decode :: "u8 list \<Rightarrow> (pr_state \<times> u32) option" where
  "pr_decode p =
     (if get32 (drop 0 p) \<noteq> PR_MAGIC \<or> p ! 8 \<noteq> PR_VERSION then None
      else if crc16 p PR_CRC_AT \<noteq> stored16 p PR_CRC_AT then None
      else Some (\<lparr>attempts = p ! 9, pr_lockout_until = get32 (drop 10 p),
                  boot_count = get32 (drop 14 p)\<rparr>, get32 (drop 4 p)))"

text \<open>One round of the loop of \<open>pr_find_latest\<close>: the best record so far is its cursor with its
  state.\<close>

definition pr_scan :: "u8 list \<Rightarrow> nat \<Rightarrow> pr_cursor \<times> pr_state \<Rightarrow> pr_cursor \<times> pr_state" where
  "pr_scan img i best =
     (case pr_decode (take PR_SLOT_SIZE (drop (i * PR_SLOT_SIZE) img)) of
        None \<Rightarrow> best
      | Some (st, seq) \<Rightarrow>
          if cur_slot (fst best) = None \<or> seq > cur_seq (fst best)
          then (\<lparr>cur_slot = Some i, cur_seq = seq\<rparr>, st) else best)"

definition pr_find_latest :: "u8 list \<Rightarrow> nat \<Rightarrow> pr_cursor \<times> pr_state option" where
  "pr_find_latest img nslots =
     (let (best, st) = fold (pr_scan img) [0..<nslots]
            (\<lparr>cur_slot = None, cur_seq = 0\<rparr>, \<lparr>attempts = 0, pr_lockout_until = 0, boot_count = 0\<rparr>)
      in (best, if cur_slot best = None then None else Some st))"

definition pr_advance :: "pr_cursor \<Rightarrow> nat \<Rightarrow> pr_cursor \<times> nat" where
  "pr_advance cur nslots =
     (let nxt = (case cur_slot cur of None \<Rightarrow> 0 | Some s \<Rightarrow> (s + 1) mod nslots)
      in (\<lparr>cur_slot = Some nxt, cur_seq = cur_seq cur + 1\<rparr>, nxt))"


section \<open>The record\<close>

text \<open>The twenty bytes of a record.\<close>

lemma pr_encode_bytes:
  "\<exists>c. pr_encode s seq = put32 PR_MAGIC @ put32 seq @ [PR_VERSION, attempts s] @
     put32 (pr_lockout_until s) @ put32 (boot_count s) @ [ucast c, ucast (drop_bit 8 c)] @ replicate 12 0xFF
   \<and> c = crc16 (pr_encode s seq) PR_CRC_AT"
proof -
  let ?body = "put32 PR_MAGIC @ put32 seq @ [PR_VERSION, attempts s] @
     put32 (pr_lockout_until s) @ put32 (boot_count s)"
  let ?out = "?body @ replicate 14 (0xFF :: u8)"
  let ?f = "\<lambda>n. replicate n (0xFF :: u8)"
  have f: "?f PR_SLOT_SIZE = ?f 4 @ ?f 4 @ 0xFF # 0xFF # ?f 4 @ ?f 4 @ ?f 14"
    by (simp flip: replicate_add replicate_Suc)
  have "blit 0 (put32 PR_MAGIC) ([] @ ?f 4 @ ?f 4 @ 0xFF # 0xFF # ?f 4 @ ?f 4 @ ?f 14) =
      [] @ put32 PR_MAGIC @ ?f 4 @ 0xFF # 0xFF # ?f 4 @ ?f 4 @ ?f 14"
    by (rule blit_mid) simp_all
  then have s0: "blit 0 (put32 PR_MAGIC) (?f PR_SLOT_SIZE) =
      put32 PR_MAGIC @ ?f 4 @ 0xFF # 0xFF # ?f 4 @ ?f 4 @ ?f 14"
    by (simp only: f append_Nil)
  have s1: "blit 4 (put32 seq) (blit 0 (put32 PR_MAGIC) (?f PR_SLOT_SIZE)) =
      (put32 PR_MAGIC @ put32 seq) @ 0xFF # (0xFF # ?f 4 @ ?f 4 @ ?f 14)"
    unfolding s0 by (simp add: blit_mid)
  have s2: "(blit 4 (put32 seq) (blit 0 (put32 PR_MAGIC) (?f PR_SLOT_SIZE)))[8 := PR_VERSION] =
      (put32 PR_MAGIC @ put32 seq @ [PR_VERSION]) @ 0xFF # (?f 4 @ ?f 4 @ ?f 14)"
    unfolding s1 by (subst update_mid) simp_all
  have s3: "(blit 4 (put32 seq) (blit 0 (put32 PR_MAGIC) (?f PR_SLOT_SIZE)))[8 := PR_VERSION, 9 := attempts s] =
      (put32 PR_MAGIC @ put32 seq @ [PR_VERSION, attempts s]) @ ?f 4 @ ?f 4 @ ?f 14"
    unfolding s2 by (subst update_mid) simp_all
  have s4: "blit 10 (put32 (pr_lockout_until s))
      ((blit 4 (put32 seq) (blit 0 (put32 PR_MAGIC) (?f PR_SLOT_SIZE)))[8 := PR_VERSION, 9 := attempts s]) =
      (put32 PR_MAGIC @ put32 seq @ [PR_VERSION, attempts s] @ put32 (pr_lockout_until s)) @ ?f 4 @ ?f 14"
    unfolding s3 by (subst blit_mid) simp_all
  have o: "blit 14 (put32 (boot_count s)) (blit 10 (put32 (pr_lockout_until s))
      ((blit 4 (put32 seq) (blit 0 (put32 PR_MAGIC) (?f PR_SLOT_SIZE)))[8 := PR_VERSION, 9 := attempts s])) = ?out"
    unfolding s4 by (subst blit_mid) simp_all
  let ?c = "crc16 ?out PR_CRC_AT"
  have e: "pr_encode s seq = ?body @ [ucast ?c, ucast (drop_bit 8 ?c)] @ replicate 12 0xFF"
  proof -
    have out: "?out = ?body @ 0xFF # (0xFF # ?f 12)" by (simp flip: replicate_Suc)
    have "?out[PR_CRC_AT := x, PR_CRC_AT + 1 := y] = ?body @ [x, y] @ ?f 12" for x y
    proof -
      have "?out[PR_CRC_AT := x] = (?body @ [x]) @ 0xFF # ?f 12"
        unfolding out by (subst update_mid) simp_all
      then show ?thesis by (simp only: update_mid) (subst update_mid, simp_all)
    qed
    then show ?thesis unfolding pr_encode_def Let_def o by simp
  qed
  have "crc16 (pr_encode s seq) PR_CRC_AT = ?c"
    unfolding e by (intro crc16_cong) (simp add: put32_def)
  then show ?thesis using e by (intro exI [of _ ?c]) simp
qed

lemma length_pr_encode [simp]: "length (pr_encode s seq) = PR_SLOT_SIZE"
proof -
  obtain c :: u16 where "pr_encode s seq = put32 PR_MAGIC @ put32 seq @ [PR_VERSION, attempts s] @
     put32 (pr_lockout_until s) @ put32 (boot_count s) @ [ucast c, ucast (drop_bit 8 c)] @ replicate 12 0xFF"
    using pr_encode_bytes [of s seq] by blast
  then show ?thesis by (simp only: length_append length_put32 length_replicate list.size)
qed

lemma pr_decode_encode: "pr_decode (pr_encode s seq) = Some (s, seq)"
proof -
  obtain c :: u16 where e: "pr_encode s seq = put32 PR_MAGIC @ put32 seq @ [PR_VERSION, attempts s] @
     put32 (pr_lockout_until s) @ put32 (boot_count s) @ [ucast c, ucast (drop_bit 8 c)] @ replicate 12 0xFF"
    and c: "c = crc16 (pr_encode s seq) PR_CRC_AT"
    using pr_encode_bytes by blast
  have d: "pr_encode s seq ! 8 = PR_VERSION" "pr_encode s seq ! 9 = attempts s"
    "pr_encode s seq ! 18 = ucast c" "pr_encode s seq ! (18 + 1) = ucast (drop_bit 8 c)"
    unfolding e by (simp_all add: nth_append)
  have g: "get32 (drop 0 (pr_encode s seq)) = PR_MAGIC" "get32 (drop 4 (pr_encode s seq)) = seq"
    "get32 (drop 10 (pr_encode s seq)) = pr_lockout_until s" "get32 (drop 14 (pr_encode s seq)) = boot_count s"
    unfolding e by (simp_all add: get32_put32)
  have "stored16 (pr_encode s seq) PR_CRC_AT = c"
    unfolding stored16_def d by (rule stored16_bytes)
  then show ?thesis using d(1,2) g c unfolding pr_decode_def by simp
qed

interpretation pr: crc_record pr_decode PR_CRC_AT PR_SLOT_SIZE
  by unfold_locales (auto simp: pr_decode_def split: if_splits)


section \<open>The ring\<close>

definition slot_at :: "u8 list \<Rightarrow> nat \<Rightarrow> u8 list" where
  "slot_at img i = take PR_SLOT_SIZE (drop (i * PR_SLOT_SIZE) img)"

text \<open>
  The newest record is where the cursor points, and every other slot holds an older record or
  nothing that decodes.
\<close>

definition older :: "u8 list \<Rightarrow> u32 \<Rightarrow> bool" where
  "older p seq \<longleftrightarrow> (case pr_decode p of None \<Rightarrow> True | Some (st, q) \<Rightarrow> q < seq)"

definition ring_inv :: "u8 list \<Rightarrow> pr_cursor \<Rightarrow> pr_state \<Rightarrow> bool" where
  "ring_inv img cur st \<longleftrightarrow> length img = PR_SLOTS * PR_SLOT_SIZE \<and>
     (\<exists>k<PR_SLOTS. cur_slot cur = Some k \<and> pr_decode (slot_at img k) = Some (st, cur_seq cur) \<and>
        (\<forall>i<PR_SLOTS. i \<noteq> k \<longrightarrow> older (slot_at img i) (cur_seq cur)))"

definition ring_blank :: "u8 list \<Rightarrow> bool" where
  "ring_blank img \<longleftrightarrow> length img = PR_SLOTS * PR_SLOT_SIZE \<and> (\<forall>i<PR_SLOTS. pr_decode (slot_at img i) = None)"

declare ring_inv_def [inv_defs]

lemma slot_at_blit:
  assumes "length img = n * PR_SLOT_SIZE" "length bs = PR_SLOT_SIZE" "k < n" "i < n"
  shows "slot_at (blit (k * PR_SLOT_SIZE) bs img) i = (if i = k then bs else slot_at img i)"
proof (rule nth_equalityI)
  have in_img: "m * PR_SLOT_SIZE + PR_SLOT_SIZE \<le> length img" if "m < n" for m
    using that assms(1) mult_le_mono1 [of "Suc m" n PR_SLOT_SIZE] by simp
  have len: "length (slot_at img' m) = PR_SLOT_SIZE" if "length img' = length img" "m < n" for img' m
    using in_img [OF that(2)] that(1) by (simp add: slot_at_def)
  have kb: "length (blit (k * PR_SLOT_SIZE) bs img) = length img"
    using in_img [OF assms(3)] assms(2) by (intro length_blit) simp
  show "length (slot_at (blit (k * PR_SLOT_SIZE) bs img) i) = length (if i = k then bs else slot_at img i)"
    using len [OF kb assms(4)] len [OF refl assms(4)] assms(2) by simp
  fix j assume "j < length (slot_at (blit (k * PR_SLOT_SIZE) bs img) i)"
  then have j: "j < 32" using len [OF kb assms(4)] by simp
  have at: "slot_at img' i ! j = img' ! (i * 32 + j)" if "length img' = length img" for img'
    using in_img [OF assms(4)] that j by (simp add: slot_at_def)
  have "blit (k * 32) bs img ! (i * 32 + j) =
      (if k * 32 \<le> i * 32 + j \<and> i * 32 + j < k * 32 + 32 then bs ! (i * 32 + j - k * 32) else img ! (i * 32 + j))"
    using in_img [OF assms(3)] in_img [OF assms(4)] assms(2) j by (subst nth_blit) auto
  moreover have "k * 32 \<le> i * 32 + j \<and> i * 32 + j < k * 32 + 32 \<longleftrightarrow> i = k"
    using j by arith
  ultimately show "slot_at (blit (k * PR_SLOT_SIZE) bs img) i ! j = (if i = k then bs else slot_at img i) ! j"
    using at [OF kb] at [OF refl] by simp
qed

lemma scan_older:
  assumes "cur_slot (fst b) = None \<or> cur_seq (fst b) < seq" "\<forall>i\<in>set is. older (slot_at img i) seq"
  shows "cur_slot (fst (fold (pr_scan img) is b)) = None \<or> cur_seq (fst (fold (pr_scan img) is b)) < seq"
  using assms
proof (induction "is" arbitrary: b)
  case (Cons i "is")
  have "older (slot_at img i) seq" using Cons.prems(2) by simp
  then have "cur_slot (fst (pr_scan img i b)) = None \<or> cur_seq (fst (pr_scan img i b)) < seq"
    using Cons.prems(1) by (auto simp: pr_scan_def older_def slot_at_def split: option.splits)
  then show ?case using Cons by simp
qed simp

lemma scan_stays:
  assumes "cur_slot (fst b) \<noteq> None" "cur_seq (fst b) = seq" "\<forall>i\<in>set is. older (slot_at img i) seq"
  shows "fold (pr_scan img) is b = b"
  using assms
proof (induction "is")
  case (Cons i "is")
  have "older (slot_at img i) seq" using Cons.prems(3) by simp
  then have "pr_scan img i b = b"
    using Cons.prems(1,2) by (auto simp: pr_scan_def older_def slot_at_def split: option.splits)
  then show ?case using Cons by simp
qed simp

lemma find_latest_inv:
  assumes "ring_inv img cur st"
  shows "pr_find_latest img PR_SLOTS = (cur, Some st)"
proof -
  from assms obtain k where k: "k < PR_SLOTS" "cur_slot cur = Some k"
    "pr_decode (slot_at img k) = Some (st, cur_seq cur)"
    "\<forall>i<PR_SLOTS. i \<noteq> k \<longrightarrow> older (slot_at img i) (cur_seq cur)"
    by (auto simp: ring_inv_def)
  let ?b0 = "(\<lparr>cur_slot = None, cur_seq = 0\<rparr>, \<lparr>attempts = 0, pr_lockout_until = 0, boot_count = 0\<rparr>)"
  let ?b1 = "fold (pr_scan img) [0..<k] ?b0"
  have "[0..<PR_SLOTS] = [0..<k] @ [k..<PR_SLOTS]"
    using k(1) upt_add_eq_append [of 0 k "PR_SLOTS - k"] by simp
  also have "[k..<PR_SLOTS] = k # [Suc k..<PR_SLOTS]" using k(1) by (simp add: upt_conv_Cons)
  finally have "fold (pr_scan img) [0..<PR_SLOTS] ?b0 =
      fold (pr_scan img) [Suc k..<PR_SLOTS] (pr_scan img k ?b1)" by simp
  moreover have "cur_slot (fst ?b1) = None \<or> cur_seq (fst ?b1) < cur_seq cur"
    using k by (intro scan_older) auto
  then have "pr_scan img k ?b1 = (cur, st)"
    using k(2,3) by (auto simp: pr_scan_def slot_at_def [symmetric])
  moreover have "fold (pr_scan img) [Suc k..<PR_SLOTS] (cur, st) = (cur, st)"
    using k by (intro scan_stays) auto
  ultimately show ?thesis using k(2) by (simp add: pr_find_latest_def)
qed

lemma find_latest_blank:
  assumes "ring_blank img"
  shows "pr_find_latest img PR_SLOTS = (\<lparr>cur_slot = None, cur_seq = 0\<rparr>, None)"
proof -
  have "fold (pr_scan img) is b = b" if "\<forall>i\<in>set is. pr_decode (slot_at img i) = None" for "is" b
    using that by (induction "is") (auto simp: pr_scan_def slot_at_def)
  then show ?thesis using assms by (simp add: pr_find_latest_def ring_blank_def)
qed

text \<open>One save: the cursor advances and the record goes to its slot.\<close>

definition ring_save :: "u8 list \<times> pr_cursor \<Rightarrow> pr_state \<Rightarrow> u8 list \<times> pr_cursor" where
  "ring_save ic s =
     (let (img, cur) = ic; (nxt, slot) = pr_advance cur PR_SLOTS
      in (blit (slot * PR_SLOT_SIZE) (pr_encode s (cur_seq nxt)) img, nxt))"

lemma advance_inv:
  assumes "ring_inv img cur st \<or> ring_blank img \<and> cur_slot cur = None" "pr_advance cur PR_SLOTS = (nxt, slot)"
  shows "slot < PR_SLOTS" "cur_slot nxt = Some slot" "cur_seq nxt = cur_seq cur + 1" "cur_slot cur \<noteq> Some slot"
proof -
  have n: "(k + 1) mod PR_SLOTS \<noteq> k" "k \<noteq> (k + 1) mod PR_SLOTS" if "k < PR_SLOTS" for k
    using that by (cases "k = 63"; simp)+
  show "slot < PR_SLOTS" "cur_slot nxt = Some slot" "cur_seq nxt = cur_seq cur + 1" "cur_slot cur \<noteq> Some slot"
    using assms n by (auto simp: pr_advance_def Let_def ring_inv_def split: option.splits dest: n)
qed

text \<open>What is written into the next slot does not disturb the newest record, unless it decodes.\<close>

lemma ring_write_inv:
  assumes "ring_inv img cur st" "pr_advance cur PR_SLOTS = (nxt, slot)"
    "length bs = PR_SLOT_SIZE" "older bs (cur_seq cur)"
  shows "ring_inv (blit (slot * PR_SLOT_SIZE) bs img) cur st"
proof -
  note a = advance_inv [OF disjI1 [OF assms(1)] assms(2)]
  have len: "length img = PR_SLOTS * PR_SLOT_SIZE" using assms(1) by (simp add: ring_inv_def)
  have sl: "slot * PR_SLOT_SIZE + PR_SLOT_SIZE \<le> length img" using a(1) len by simp
  have at: "slot_at (blit (slot * PR_SLOT_SIZE) bs img) i = (if i = slot then bs else slot_at img i)"
    if "i < PR_SLOTS" for i
    using slot_at_blit [OF len assms(3) a(1) that] .
  from assms(1) obtain k where k: "k < PR_SLOTS" "cur_slot cur = Some k"
    "pr_decode (slot_at img k) = Some (st, cur_seq cur)"
    "\<forall>i<PR_SLOTS. i \<noteq> k \<longrightarrow> older (slot_at img i) (cur_seq cur)"
    by (auto simp: ring_inv_def)
  have "k \<noteq> slot" using k(2) a(4) by auto
  then show ?thesis
    unfolding ring_inv_def using k at assms(3,4) len sl by (auto intro!: exI [of _ k])
qed

lemma ring_save_inv:
  assumes "ring_inv img cur st \<or> ring_blank img \<and> cur = \<lparr>cur_slot = None, cur_seq = 0\<rparr>"
    "unat (cur_seq cur) < 2 ^ 32 - 1"
  shows "ring_inv (fst (ring_save (img, cur) s)) (snd (ring_save (img, cur) s)) s
    \<and> unat (cur_seq (snd (ring_save (img, cur) s))) = Suc (unat (cur_seq cur))"
proof -
  obtain nxt slot where n: "pr_advance cur PR_SLOTS = (nxt, slot)" by (cases "pr_advance cur PR_SLOTS")
  have "ring_inv img cur st \<or> ring_blank img \<and> cur_slot cur = None" using assms(1) by auto
  note a = advance_inv [OF this n]
  let ?bs = "pr_encode s (cur_seq nxt)"
  have len: "length img = PR_SLOTS * PR_SLOT_SIZE" using assms(1) by (auto simp: ring_inv_def ring_blank_def)
  have sl: "slot * PR_SLOT_SIZE + PR_SLOT_SIZE \<le> length img" using a(1) len by simp
  have at: "slot_at (blit (slot * PR_SLOT_SIZE) ?bs img) i = (if i = slot then ?bs else slot_at img i)"
    if "i < PR_SLOTS" for i
    by (rule slot_at_blit [OF len _ a(1) that]) simp
  have seq: "unat (cur_seq nxt) = Suc (unat (cur_seq cur))"
    using assms(2) unfolding a(3) by (subst unat_add_lem [THEN iffD1]) simp_all
  then have lt: "cur_seq cur < cur_seq nxt" by (simp add: word_less_nat_alt)
  have "older (slot_at img i) (cur_seq nxt)" if "i < PR_SLOTS" for i
    using assms(1)
  proof
    assume "ring_inv img cur st"
    then obtain k where k: "cur_slot cur = Some k" "pr_decode (slot_at img k) = Some (st, cur_seq cur)"
      "\<forall>i<PR_SLOTS. i \<noteq> k \<longrightarrow> older (slot_at img i) (cur_seq cur)"
      by (auto simp: ring_inv_def)
    then show ?thesis
      using lt that by (cases "i = k") (auto simp: older_def split: option.splits)
  next
    assume "ring_blank img \<and> cur = \<lparr>cur_slot = None, cur_seq = 0\<rparr>"
    then show ?thesis using that by (simp add: ring_blank_def older_def)
  qed
  then have "ring_inv (blit (slot * PR_SLOT_SIZE) ?bs img) nxt s"
    unfolding ring_inv_def using at a(1,2) len sl by (auto simp: pr_decode_encode intro!: exI [of _ slot])
  then show ?thesis using seq by (simp add: ring_save_def n)
qed

lemma ring_saves:
  assumes "ring_blank img" "ss \<noteq> []" "length ss < 2 ^ 32"
  shows "case foldl ring_save (img, \<lparr>cur_slot = None, cur_seq = 0\<rparr>) ss of (img', cur) \<Rightarrow>
    ring_inv img' cur (last ss) \<and> unat (cur_seq cur) = length ss"
  using assms(2,3)
proof (induction ss rule: rev_induct)
  case (snoc s ss)
  obtain img1 cur where f: "foldl ring_save (img, \<lparr>cur_slot = None, cur_seq = 0\<rparr>) ss = (img1, cur)"
    by (cases "foldl ring_save (img, \<lparr>cur_slot = None, cur_seq = 0\<rparr>) ss")
  have "ring_inv img1 cur (last ss) \<or> ring_blank img1 \<and> cur = \<lparr>cur_slot = None, cur_seq = 0\<rparr>"
    and n: "unat (cur_seq cur) = length ss"
    using snoc f assms(1) by (cases "ss = []"; auto)+
  from ring_save_inv [OF this(1), of s] n snoc.prems(2) show ?case by (simp add: f split_def)
qed simp



section \<open>Properties\<close>

text \<open>After a reboot the ring gives back the state saved last.  From a blank chip, after any
  number of saves up to \<open>2\<^sup>3\<^sup>2 - 1\<close>, scanning the image finds the state of the last save and exactly
  the cursor the running program had, so saving continues where it stopped.\<close>

theorem ring_restores_last_save:
  assumes "ring_blank img" "ss \<noteq> []" "length ss < 2 ^ 32"
    "foldl ring_save (img, \<lparr>cur_slot = None, cur_seq = 0\<rparr>) ss = (img', cur)"
  shows "pr_find_latest img' PR_SLOTS = (cur, Some (last ss))"
  using ring_saves [OF assms(1-3)] assms(4) by (simp add: find_latest_inv)

text \<open>A save that is cut off loses at most itself.  Whatever 32 bytes the next slot is left
  with, as long as they do not form a valid record, the state found is the one saved before, and
  so is the cursor, so the retry goes to the same slot.\<close>

theorem torn_save_keeps_previous:
  assumes "ring_blank img" "ss \<noteq> []" "length ss < 2 ^ 32"
    "foldl ring_save (img, \<lparr>cur_slot = None, cur_seq = 0\<rparr>) ss = (img', cur)"
    "pr_advance cur PR_SLOTS = (nxt, slot)" "length torn = PR_SLOT_SIZE" "pr_decode torn = None"
  shows "pr_find_latest (blit (slot * PR_SLOT_SIZE) torn img') PR_SLOTS = (cur, Some (last ss))"
proof -
  have "ring_inv img' cur (last ss)" using ring_saves [OF assms(1-3)] assms(4) by simp
  then have "ring_inv (blit (slot * PR_SLOT_SIZE) torn img') cur (last ss)"
    by (rule ring_write_inv [OF _ assms(5,6)]) (simp add: older_def assms(7))
  then show ?thesis by (rule find_latest_inv)
qed

text \<open>An erased chip is blank.\<close>

lemma erased_record: "pr_decode (replicate PR_SLOT_SIZE 0xFF) = None"
  by code_simp

lemma erased_blank: "ring_blank (replicate (PR_SLOTS * PR_SLOT_SIZE) 0xFF)"
proof -
  have "slot_at (replicate (PR_SLOTS * PR_SLOT_SIZE) 0xFF) i = replicate PR_SLOT_SIZE 0xFF" if "i < PR_SLOTS" for i
    using that by (simp add: slot_at_def min_def)
  then show ?thesis using erased_record by (simp add: ring_blank_def)
qed

abbreviation demo_saves :: "pr_state list" where
  "demo_saves \<equiv> [\<lparr>attempts = 1, pr_lockout_until = 0, boot_count = 7\<rparr>,
     \<lparr>attempts = 5, pr_lockout_until = 1790000300, boot_count = 7\<rparr>]"

theorem ring_restores_last_save_witness:
  "snd (pr_find_latest (fst (foldl ring_save (replicate (PR_SLOTS * PR_SLOT_SIZE) 0xFF, \<lparr>cur_slot = None, cur_seq = 0\<rparr>) demo_saves)) PR_SLOTS)
    = Some \<lparr>attempts = 5, pr_lockout_until = 1790000300, boot_count = 7\<rparr>"
proof -
  obtain img' cur where "foldl ring_save (replicate (PR_SLOTS * PR_SLOT_SIZE) 0xFF, \<lparr>cur_slot = None, cur_seq = 0\<rparr>) demo_saves = (img', cur)"
    by fastforce
  with ring_restores_last_save [OF erased_blank _ _ this] show ?thesis by simp
qed

theorem torn_save_keeps_previous_witness:
  "\<exists>slot img. snd (pr_find_latest (blit (slot * PR_SLOT_SIZE) (replicate PR_SLOT_SIZE 0xFF) img) PR_SLOTS)
    = Some \<lparr>attempts = 5, pr_lockout_until = 1790000300, boot_count = 7\<rparr>"
proof -
  obtain img' cur where f: "foldl ring_save (replicate (PR_SLOTS * PR_SLOT_SIZE) 0xFF, \<lparr>cur_slot = None, cur_seq = 0\<rparr>) demo_saves = (img', cur)"
    by fastforce
  obtain nxt slot where "pr_advance cur PR_SLOTS = (nxt, slot)" by fastforce
  from torn_save_keeps_previous [OF erased_blank _ _ f this _ erased_record]
  have "snd (pr_find_latest (blit (slot * PR_SLOT_SIZE) (replicate PR_SLOT_SIZE 0xFF) img') PR_SLOTS)
    = Some \<lparr>attempts = 5, pr_lockout_until = 1790000300, boot_count = 7\<rparr>" by simp
  then show ?thesis by blast
qed

text \<open>The CRC computed byte by byte on two records.\<close>

lemma crc_byte_8: "crc_byte c d = (let x = c XOR push_bit 8 (ucast d) in
   crc_bit (crc_bit (crc_bit (crc_bit (crc_bit (crc_bit (crc_bit (crc_bit x))))))))"
  by (simp add: crc_byte_def numeral_eq_Suc)
lemma crc_steps:
  "crc_byte 65535 69 = 63889"
  "crc_byte 63889 84 = 62791"
  "crc_byte 62791 65 = 41055"
  "crc_byte 41055 71 = 53961"
  "crc_byte 53961 1 = 12830"
  "crc_byte 12830 0 = 2065"
  "crc_byte 2065 0 = 36872"
  "crc_byte 36872 0 = 35769"
  "crc_byte 35769 1 = 35266"
  "crc_byte 35266 0 = 49825"
  "crc_byte 49825 0 = 22542"
  "crc_byte 22542 0 = 54781"
  "crc_byte 54781 0 = 26328"
  "crc_byte 26328 0 = 54368"
  "crc_byte 54368 1 = 64472"
  "crc_byte 64472 0 = 34420"
  "crc_byte 34420 0 = 34126"
  "crc_byte 34126 0 = 36653"
  "crc_byte 53961 65 = 31450"
  "crc_byte 31450 0 = 1501"
  "crc_byte 1501 0 = 36261"
  "crc_byte 36261 0 = 58661"
  "crc_byte 58661 1 = 39082"
  "crc_byte 39082 5 = 63508"
  "crc_byte 63508 162 = 61375"
  "crc_byte 61375 183 = 25853"
  "crc_byte 25853 177 = 26328"
  by (simp_all add: crc_byte_8 crc_bit_def)

lemma put32_values:
  "put32 PR_MAGIC = [69, 84, 65, 71]" "put32 0 = [0, 0, 0, 0]" "put32 1 = [1, 0, 0, 0]"
  "put32 65 = [65, 0, 0, 0]" "put32 1790031778 = [162, 183, 177, 106]"
  by code_simp+

lemma old_record:
  "pr_encode \<lparr>attempts = 0, pr_lockout_until = 0, boot_count = 1\<rparr> 1 =
     [69, 84, 65, 71, 1, 0, 0, 0, 1, 0, 0, 0, 0, 0, 1, 0, 0, 0, 45, 143] @ replicate 12 0xFF"
proof -
  obtain c :: u16 where e: "pr_encode \<lparr>attempts = 0, pr_lockout_until = 0, boot_count = 1\<rparr> 1 =
      [69, 84, 65, 71, 1, 0, 0, 0, 1, 0, 0, 0, 0, 0, 1, 0, 0, 0] @ [ucast c, ucast (drop_bit 8 c)] @ replicate 12 0xFF"
    and c: "c = crc16 (pr_encode \<lparr>attempts = 0, pr_lockout_until = 0, boot_count = 1\<rparr> 1) PR_CRC_AT"
    using pr_encode_bytes [of "\<lparr>attempts = 0, pr_lockout_until = 0, boot_count = 1\<rparr>" 1]
    by (auto simp: put32_values)
  have "c = 36653" using c unfolding e crc16_def by (simp add: crc_steps)
  moreover have "ucast (36653 :: u16) = (45 :: u8)" "ucast (drop_bit 8 (36653 :: u16)) = (143 :: u8)"
    by code_simp+
  ultimately show ?thesis using e by simp
qed

lemma new_record_start:
  "take 13 (pr_encode \<lparr>attempts = 5, pr_lockout_until = 1790031778, boot_count = 1\<rparr> 65) =
     [69, 84, 65, 71, 65, 0, 0, 0, 1, 5, 162, 183, 177]"
proof -
  obtain c :: u16 where "pr_encode \<lparr>attempts = 5, pr_lockout_until = 1790031778, boot_count = 1\<rparr> 65 =
      [69, 84, 65, 71, 65, 0, 0, 0, 1, 5, 162, 183, 177, 106, 1, 0, 0, 0] @ [ucast c, ucast (drop_bit 8 c)] @ replicate 12 0xFF"
    using pr_encode_bytes [of "\<lparr>attempts = 5, pr_lockout_until = 1790031778, boot_count = 1\<rparr>" 65]
    by (auto simp: put32_values)
  then show ?thesis by simp
qed

text \<open>But a cut-off save can form a valid record of a state that was never saved: the CRC has
  sixteen bits and is all that protects the content.  Here the counter of a reboot-fresh record is
  overwritten by five attempts and a lockout until 1790031778, cut off after the thirteenth byte;
  the record that remains decodes, and its lockout has lost its top byte.\<close>

theorem torn_record_can_decode:
  "pr_decode (take 13 (pr_encode \<lparr>attempts = 5, pr_lockout_until = 1790031778, boot_count = 1\<rparr> 65) @
     drop 13 (pr_encode \<lparr>attempts = 0, pr_lockout_until = 0, boot_count = 1\<rparr> 1)) =
   Some (\<lparr>attempts = 5, pr_lockout_until = 1790031778 mod 2 ^ 24, boot_count = 1\<rparr>, 65)"
  unfolding old_record new_record_start
  by (simp add: pr_decode_def get32_def stored16_def crc16_def crc_steps)

end
