(* ===== verification/Persist_Codes.thy ===== *)
theory Persist_Codes
  imports Byte_Codec Access_Core
begin

text \<open>
  \<^verbatim>\<open>persist_store/persist_codes\<close>: guest codes in the EEPROM.  A record of 64 bytes per
  code, two buffers per slot written alternately, and the way a decoded record goes back into
  the table.  A generation number that is compared as a signed difference tells the newer buffer.
\<close>

section \<open>Data\<close>

abbreviation PC_REC_SIZE :: nat where "PC_REC_SIZE \<equiv> 64"
abbreviation PC_SLOT_SIZE :: nat where "PC_SLOT_SIZE \<equiv> 2 * PC_REC_SIZE"
abbreviation PC_SLOTS :: nat where "PC_SLOTS \<equiv> AC_MAX_SLOTS"
abbreviation PC_BASE :: nat where "PC_BASE \<equiv> 0x800"
abbreviation PC_MAGIC :: u32 where "PC_MAGIC \<equiv> 0x45444F43"
abbreviation PC_VERSION :: u8 where "PC_VERSION \<equiv> 1"
abbreviation F_OCCUPIED :: u8 where "F_OCCUPIED \<equiv> 1"
abbreviation PC_CRC_AT :: nat where "PC_CRC_AT \<equiv> 60"

record pc_code =
  pc_occupied :: bool
  pc_id :: string
  pc_hash :: "u8 list"
  pc_from :: u32
  pc_until :: u32

text \<open>\<open>memset(c, 0, sizeof(*c))\<close>\<close>

definition zero_code :: pc_code where
  "zero_code = \<lparr>pc_occupied = False, pc_id = replicate AC_ID_LEN NUL,
     pc_hash = replicate AC_HASH_LEN 0, pc_from = 0, pc_until = 0\<rparr>"


section \<open>Operations\<close>

definition pc_encode :: "pc_code \<Rightarrow> u32 \<Rightarrow> u8 list" where
  "pc_encode c gen =
     (let out = replicate PC_REC_SIZE 0xFF;
          out = blit 0 (put32 PC_MAGIC) out;
          out = blit 4 (put32 gen) out;
          out = out[8 := PC_VERSION];
          out = out[9 := if pc_occupied c then F_OCCUPIED else 0];
          out = blit 10 (replicate 10 0) out;
          out = (if pc_occupied c
                 then blit 20 (take AC_HASH_LEN (pc_hash c))
                        (blit 10 (map byte_of (take AC_ID_LEN (pc_id c))) out)
                 else blit 20 (replicate AC_HASH_LEN 0) out);
          out = blit 52 (put32 (if pc_occupied c then pc_from c else 0)) out;
          out = blit 56 (put32 (if pc_occupied c then pc_until c else 0)) out;
          crc = crc16 out PC_CRC_AT;
          out = out[PC_CRC_AT := ucast crc]
      in out[PC_CRC_AT + 1 := ucast (drop_bit 8 crc)])"

definition pc_decode :: "u8 list \<Rightarrow> (pc_code \<times> u32) option" where
  "pc_decode p =
     (if get32 (drop 0 p) \<noteq> PC_MAGIC \<or> p ! 8 \<noteq> PC_VERSION then None
      else if crc16 p PC_CRC_AT \<noteq> stored16 p PC_CRC_AT then None
      else
        (let c = zero_code\<lparr>pc_occupied := (p ! 9 AND F_OCCUPIED \<noteq> 0)\<rparr>;
             c = (if pc_occupied c
                  then c\<lparr>pc_id := (map char_of_byte (take AC_ID_LEN (drop 10 p)))[AC_ID_LEN - 1 := NUL],
                         pc_hash := take AC_HASH_LEN (drop 20 p),
                         pc_from := get32 (drop 52 p), pc_until := get32 (drop 56 p)\<rparr>
                  else c)
         in Some (c, get32 (drop 4 p))))"

definition pc_slot_read :: "u8 list \<Rightarrow> (pc_code \<times> u32) option" where
  "pc_slot_read slot =
     (case (pc_decode (take PC_REC_SIZE slot), pc_decode (take PC_REC_SIZE (drop PC_REC_SIZE slot))) of
        (None, None) \<Rightarrow> None
      | (Some (ca, ga), None) \<Rightarrow> Some (ca, ga)
      | (None, Some (cb, gb)) \<Rightarrow> Some (cb, gb)
      | (Some (ca, ga), Some (cb, gb)) \<Rightarrow>
          if 0 < sint (ga - gb) then Some (ca, ga) else Some (cb, gb))"

definition pc_slot_write_half :: "u8 list \<Rightarrow> nat \<times> u32" where
  "pc_slot_write_half slot =
     (let (half, newest) =
        (case (pc_decode (take PC_REC_SIZE slot), pc_decode (take PC_REC_SIZE (drop PC_REC_SIZE slot))) of
           (None, None) \<Rightarrow> (0, 0)
         | (Some (ca, ga), None) \<Rightarrow> (1, ga)
         | (None, Some (cb, gb)) \<Rightarrow> (0, gb)
         | (Some (ca, ga), Some (cb, gb)) \<Rightarrow>
             (let a_newer = 0 < sint (ga - gb)
              in (if a_newer then 1 else 0, if a_newer then ga else gb)))
      in (half, newest + 1))"

definition pc_apply :: "ac_ctx \<Rightarrow> int \<Rightarrow> pc_code \<Rightarrow> ac_ctx \<times> bool" where
  "pc_apply ctx slot c =
     (if slot < 0 \<or> slot \<ge> int AC_MAX_SLOTS \<or> \<not> pc_occupied c then (ctx, False)
      else
        (ctx\<lparr>slots := (slots ctx)[nat slot := \<lparr>occupied = True, transient = False,
           slot_id = (take AC_ID_LEN (pc_id c))[AC_ID_LEN - 1 := NUL],
           slot_hash = take AC_HASH_LEN (pc_hash c),
           slot_from = uint (pc_from c), slot_until = uint (pc_until c)\<rparr>]\<rparr>, True))"

definition pc_offset :: "nat \<Rightarrow> nat \<Rightarrow> nat" where
  "pc_offset slot half = PC_BASE + slot * PC_SLOT_SIZE + half * PC_REC_SIZE"


section \<open>The record\<close>

text \<open>A record in memory is well formed when its arrays have their sizes and its id ends in NUL; a
  free one is all zero.\<close>

definition pc_wf :: "pc_code \<Rightarrow> bool" where
  "pc_wf c \<longleftrightarrow> (if pc_occupied c
     then length (pc_id c) = AC_ID_LEN \<and> pc_id c ! (AC_ID_LEN - 1) = NUL \<and> length (pc_hash c) = AC_HASH_LEN
     else c = zero_code)"

definition pc_bytes :: "pc_code \<Rightarrow> u32 \<Rightarrow> u8 list" where
  "pc_bytes c gen = put32 PC_MAGIC @ put32 gen @ [PC_VERSION, if pc_occupied c then F_OCCUPIED else 0] @
     (if pc_occupied c then map byte_of (pc_id c) @ [0] @ pc_hash c else replicate 10 0 @ replicate AC_HASH_LEN 0) @
     put32 (if pc_occupied c then pc_from c else 0) @ put32 (if pc_occupied c then pc_until c else 0)"

lemma length_pc_bytes: "pc_wf c \<Longrightarrow> length (pc_bytes c gen) = PC_CRC_AT"
  by (simp add: pc_bytes_def pc_wf_def)

lemma pc_encode_bytes:
  assumes "pc_wf c"
  shows "pc_encode c gen = pc_bytes c gen @
    [ucast (crc16 (pc_bytes c gen) PC_CRC_AT), ucast (drop_bit 8 (crc16 (pc_bytes c gen) PC_CRC_AT))] @ [0xFF, 0xFF]"
proof -
  let ?f = "\<lambda>n. replicate n (0xFF :: u8)"
  let ?o = "if pc_occupied c then F_OCCUPIED else 0"
  let ?mid = "if pc_occupied c then map byte_of (pc_id c) @ [0] @ pc_hash c else replicate 10 0 @ replicate AC_HASH_LEN 0"
  let ?vf = "put32 (if pc_occupied c then pc_from c else 0)" and ?vu = "put32 (if pc_occupied c then pc_until c else 0)"
  have f: "?f PC_REC_SIZE = ?f 4 @ ?f 4 @ 0xFF # 0xFF # ?f 10 @ ?f AC_HASH_LEN @ ?f 4 @ ?f 4 @ 0xFF # 0xFF # [0xFF, 0xFF]"
    by (rule sym, rule replicate_eqI) auto
  have "blit 0 (put32 PC_MAGIC) ([] @ ?f 4 @ ?f 4 @ 0xFF # 0xFF # ?f 10 @ ?f AC_HASH_LEN @ ?f 4 @ ?f 4 @ 0xFF # 0xFF # [0xFF, 0xFF]) =
      [] @ put32 PC_MAGIC @ ?f 4 @ 0xFF # 0xFF # ?f 10 @ ?f AC_HASH_LEN @ ?f 4 @ ?f 4 @ 0xFF # 0xFF # [0xFF, 0xFF]"
    by (rule blit_mid) simp_all
  then have s0: "blit 0 (put32 PC_MAGIC) (?f PC_REC_SIZE) =
      put32 PC_MAGIC @ ?f 4 @ 0xFF # 0xFF # ?f 10 @ ?f AC_HASH_LEN @ ?f 4 @ ?f 4 @ 0xFF # 0xFF # [0xFF, 0xFF]"
    by (simp only: f append_Nil)
  define b1 where "b1 = blit 4 (put32 gen) (blit 0 (put32 PC_MAGIC) (?f PC_REC_SIZE))"
  have s1: "b1 = (put32 PC_MAGIC @ put32 gen) @ 0xFF # (0xFF # ?f 10 @ ?f AC_HASH_LEN @ ?f 4 @ ?f 4 @ 0xFF # 0xFF # [0xFF, 0xFF])"
    unfolding b1_def s0 by (simp add: blit_mid)
  have s2: "b1[8 := PC_VERSION] = (put32 PC_MAGIC @ put32 gen @ [PC_VERSION]) @ 0xFF # (?f 10 @ ?f AC_HASH_LEN @ ?f 4 @ ?f 4 @ 0xFF # 0xFF # [0xFF, 0xFF])"
    unfolding s1 by (subst update_mid) simp_all
  let ?h = "put32 PC_MAGIC @ put32 gen @ [PC_VERSION, ?o]"
  have s3: "b1[8 := PC_VERSION, 9 := ?o] = ?h @ ?f 10 @ (?f AC_HASH_LEN @ ?f 4 @ ?f 4 @ 0xFF # 0xFF # [0xFF, 0xFF])"
    unfolding s2 by (subst update_mid) simp_all
  define b2 where "b2 = blit 10 (replicate 10 0) (b1[8 := PC_VERSION, 9 := ?o])"
  have s4: "b2 = ?h @ replicate 10 0 @ (?f AC_HASH_LEN @ ?f 4 @ ?f 4 @ 0xFF # 0xFF # [0xFF, 0xFF])"
    unfolding b2_def s3 by (subst blit_mid) simp_all
  define b3 where "b3 = (if pc_occupied c
      then blit 20 (take AC_HASH_LEN (pc_hash c)) (blit 10 (map byte_of (take AC_ID_LEN (pc_id c))) b2)
      else blit 20 (replicate AC_HASH_LEN 0) b2)"
  have s5: "b3 = (?h @ ?mid) @ ?f 4 @ ?f 4 @ 0xFF # 0xFF # [0xFF, 0xFF]"
  proof (cases "pc_occupied c")
    case True
    then have l: "length (pc_id c) = AC_ID_LEN" "length (pc_hash c) = AC_HASH_LEN" using assms by (simp_all add: pc_wf_def)
    have "b2 = ?h @ replicate AC_ID_LEN 0 @ ([0] @ ?f AC_HASH_LEN @ ?f 4 @ ?f 4 @ 0xFF # 0xFF # [0xFF, 0xFF])"
    proof -
      have "replicate 10 (0 :: u8) = replicate AC_ID_LEN 0 @ [0]" by (rule sym, rule replicate_eqI) auto
      then show ?thesis unfolding s4 by simp
    qed
    then have "blit 10 (map byte_of (take AC_ID_LEN (pc_id c))) b2 =
        (?h @ map byte_of (pc_id c) @ [0]) @ ?f AC_HASH_LEN @ (?f 4 @ ?f 4 @ 0xFF # 0xFF # [0xFF, 0xFF])"
      by (simp only:) (subst blit_mid, simp_all add: l)
    then have "blit 20 (take AC_HASH_LEN (pc_hash c)) (blit 10 (map byte_of (take AC_ID_LEN (pc_id c))) b2) =
        (?h @ map byte_of (pc_id c) @ [0]) @ pc_hash c @ (?f 4 @ ?f 4 @ 0xFF # 0xFF # [0xFF, 0xFF])"
      by (simp only:) (subst blit_mid, simp_all add: l)
    then show ?thesis using True by (simp add: b3_def)
  next
    case False
    have "b2 = (?h @ replicate 10 0) @ ?f AC_HASH_LEN @ (?f 4 @ ?f 4 @ 0xFF # 0xFF # [0xFF, 0xFF])"
      unfolding s4 by simp
    then have "blit 20 (replicate AC_HASH_LEN 0) b2 =
        (?h @ replicate 10 0) @ replicate AC_HASH_LEN 0 @ (?f 4 @ ?f 4 @ 0xFF # 0xFF # [0xFF, 0xFF])"
      by (simp only:) (subst blit_mid, simp_all)
    then show ?thesis using False by (simp add: b3_def)
  qed
  have lm: "length ?mid = 42" using assms by (simp add: pc_wf_def)
  have s6: "blit 52 ?vf b3 = (?h @ ?mid @ ?vf) @ ?f 4 @ (0xFF # 0xFF # [0xFF, 0xFF])"
    unfolding s5 by (subst blit_mid) (use lm in simp_all)
  have s7: "blit 56 ?vu (blit 52 ?vf b3) = pc_bytes c gen @ 0xFF # (0xFF # [0xFF, 0xFF])"
    unfolding s6 by (subst blit_mid) (use lm in \<open>simp_all add: pc_bytes_def\<close>)
  have lb: "length (pc_bytes c gen) = PC_CRC_AT" using assms by (rule length_pc_bytes)
  have crc: "crc16 (blit 56 ?vu (blit 52 ?vf b3)) PC_CRC_AT = crc16 (pc_bytes c gen) PC_CRC_AT"
    unfolding s7 by (intro crc16_cong) (simp add: lb)
  have up: "(blit 56 ?vu (blit 52 ?vf b3))[PC_CRC_AT := x, PC_CRC_AT + 1 := y] = pc_bytes c gen @ [x, y] @ [0xFF, 0xFF]" for x y
  proof -
    have "(blit 56 ?vu (blit 52 ?vf b3))[PC_CRC_AT := x] = (pc_bytes c gen @ [x]) @ 0xFF # [0xFF, 0xFF]"
      unfolding s7 by (subst update_mid) (use lb in simp_all)
    then show ?thesis by (simp only:) (subst update_mid, use lb in simp_all)
  qed
  have "pc_encode c gen = (let out = blit 56 ?vu (blit 52 ?vf b3); crc = crc16 out PC_CRC_AT
      in out[PC_CRC_AT := ucast crc, PC_CRC_AT + 1 := ucast (drop_bit 8 crc)])"
    unfolding pc_encode_def b3_def b2_def b1_def Let_def by (rule refl)
  then show ?thesis unfolding Let_def crc up .
qed

lemma length_pc_encode: "pc_wf c \<Longrightarrow> length (pc_encode c gen) = PC_REC_SIZE"
  by (simp add: pc_encode_bytes length_pc_bytes)


lemma pc_decode_encode:
  assumes "pc_wf c"
  shows "pc_decode (pc_encode c gen) = Some (c, gen)"
proof -
  define crc where "crc = crc16 (pc_bytes c gen) PC_CRC_AT"
  let ?mid = "if pc_occupied c then map byte_of (pc_id c) @ [0] @ pc_hash c else replicate 10 0 @ replicate AC_HASH_LEN 0"
  let ?vf = "put32 (if pc_occupied c then pc_from c else 0)" and ?vu = "put32 (if pc_occupied c then pc_until c else 0)"
  define p where "p = pc_encode c gen"
  have p: "p = put32 PC_MAGIC @ put32 gen @ [PC_VERSION, if pc_occupied c then F_OCCUPIED else 0] @ ?mid @ ?vf @ ?vu @
      [ucast crc, ucast (drop_bit 8 crc)] @ [0xFF, 0xFF]"
    unfolding p_def pc_encode_bytes [OF assms] crc_def by (simp add: pc_bytes_def)
  have lm: "length ?mid = 42" using assms by (simp add: pc_wf_def)
  have lb: "length (pc_bytes c gen) = PC_CRC_AT" using assms by (rule length_pc_bytes)
  have "take PC_CRC_AT p = pc_bytes c gen"
    unfolding p_def pc_encode_bytes [OF assms] using lb by simp
  then have "crc16 p PC_CRC_AT = crc" unfolding crc_def crc16_def using lb by simp
  moreover have "p ! PC_CRC_AT = ucast crc" "p ! (PC_CRC_AT + 1) = ucast (drop_bit 8 crc)"
    unfolding p_def pc_encode_bytes [OF assms] crc_def [symmetric] using lb by (simp_all add: nth_append)
  then have "stored16 p PC_CRC_AT = crc" unfolding stored16_def by (simp only: stored16_bytes)
  moreover have "p ! 8 = PC_VERSION" "p ! 9 = (if pc_occupied c then F_OCCUPIED else 0)"
    unfolding p by (simp_all add: nth_append)
  moreover have "get32 (drop 0 p) = PC_MAGIC" "get32 (drop 4 p) = gen"
    unfolding p by (simp_all add: get32_put32)
  moreover have d: "drop 10 p = ?mid @ ?vf @ ?vu @ [ucast crc, ucast (drop_bit 8 crc)] @ [0xFF, 0xFF]"
    unfolding p by simp
  have d52: "drop 52 p = ?vf @ ?vu @ [ucast crc, ucast (drop_bit 8 crc)] @ [0xFF, 0xFF]"
    and d56: "drop 56 p = ?vu @ [ucast crc, ucast (drop_bit 8 crc)] @ [0xFF, 0xFF]"
    and d20: "pc_occupied c \<Longrightarrow> drop 20 p = pc_hash c @ ?vf @ ?vu @ [ucast crc, ucast (drop_bit 8 crc)] @ [0xFF, 0xFF]"
    using lm assms unfolding p by (simp_all add: pc_wf_def)
  have "(if pc_occupied c
      then zero_code\<lparr>pc_occupied := True, pc_id := (map char_of_byte (take AC_ID_LEN (drop 10 p)))[AC_ID_LEN - 1 := NUL],
        pc_hash := take AC_HASH_LEN (drop 20 p), pc_from := get32 (drop 52 p), pc_until := get32 (drop 56 p)\<rparr>
      else zero_code) = c"
  proof (cases "pc_occupied c")
    case True
    then have w: "length (pc_id c) = AC_ID_LEN" "pc_id c ! 8 = NUL" "length (pc_hash c) = AC_HASH_LEN"
      using assms by (simp_all add: pc_wf_def)
    have "take AC_ID_LEN (drop 10 p) = map byte_of (pc_id c)" using True w d by simp
    then have i: "(map char_of_byte (take AC_ID_LEN (drop 10 p)))[AC_ID_LEN - 1 := NUL] = pc_id c"
      using w(2) list_update_id [of "pc_id c" 8] by (simp only: map_char_of_byte_of) simp
    have h: "take AC_HASH_LEN (drop 20 p) = pc_hash c" using True w d20 by simp
    show ?thesis
      unfolding i h d52 d56 get32_put32 using True by (simp add: zero_code_def)
  next
    case False
    then show ?thesis using assms by (simp add: pc_wf_def)
  qed
  moreover have "(if pc_occupied c then F_OCCUPIED else 0 :: u8) AND F_OCCUPIED \<noteq> 0 \<longleftrightarrow> pc_occupied c" by simp
  moreover have "zero_code\<lparr>pc_occupied := False\<rparr> = zero_code" by (simp add: zero_code_def)
  ultimately show ?thesis
    unfolding p_def [symmetric] pc_decode_def Let_def by (cases "pc_occupied c") simp_all
qed

interpretation pc: crc_record pc_decode PC_CRC_AT PC_REC_SIZE
  by unfold_locales (auto simp: pc_decode_def split: if_splits)


section \<open>Two buffers\<close>

text \<open>Writing one half of a slot image.\<close>

definition write_half :: "nat \<Rightarrow> u8 list \<Rightarrow> u8 list \<Rightarrow> u8 list" where
  "write_half h bs slot = blit (h * PC_REC_SIZE) bs slot"

lemma halves_write:
  assumes "length slot = PC_SLOT_SIZE" "length bs = PC_REC_SIZE" "h < 2"
  shows "take PC_REC_SIZE (write_half h bs slot) = (if h = 0 then bs else take PC_REC_SIZE slot)"
    "take PC_REC_SIZE (drop PC_REC_SIZE (write_half h bs slot)) = (if h = 1 then bs else take PC_REC_SIZE (drop PC_REC_SIZE slot))"
    "length (write_half h bs slot) = PC_SLOT_SIZE"
  using assms by (auto simp: write_half_def blit_def less_2_cases_iff)

lemma write_half_lt: "fst (pc_slot_write_half slot) < 2"
  by (auto simp: pc_slot_write_half_def Let_def split: option.splits)

lemma sint_one_more: "0 < sint ((g :: u32) + 1 - g)" "\<not> 0 < sint ((g :: u32) - (g + 1))"
proof -
  have "(g :: u32) - (g + 1) = - 1" by simp
  then show "0 < sint ((g :: u32) + 1 - g)" "\<not> 0 < sint ((g :: u32) - (g + 1))" by simp_all
qed

text \<open>A complete write is what is read next.\<close>

lemma slot_write_new:
  assumes "length slot = PC_SLOT_SIZE" "pc_wf c" "pc_slot_write_half slot = (h, gen)"
  shows "pc_slot_read (write_half h (pc_encode c gen) slot) = Some (c, gen)"
proof -
  have h: "h < 2" using write_half_lt [of slot] assms(3) by simp
  note w = halves_write [OF assms(1) length_pc_encode [OF assms(2)] h]
  show ?thesis
    using assms(3) sint_one_more
    by (auto simp: pc_slot_read_def w pc_decode_encode [OF assms(2)] pc_slot_write_half_def Let_def
        split: option.splits if_splits)
qed

text \<open>An interrupted write leaves what was read before.\<close>

lemma slot_write_torn:
  assumes "length slot = PC_SLOT_SIZE" "pc_slot_write_half slot = (h, gen)"
    "length bs = PC_REC_SIZE" "pc_decode bs = None"
  shows "pc_slot_read (write_half h bs slot) = pc_slot_read slot"
proof -
  have h: "h < 2" using write_half_lt [of slot] assms(2) by simp
  note w = halves_write [OF assms(1,3) h]
  show ?thesis
    using assms(2,4)
    by (auto simp: pc_slot_read_def w pc_slot_write_half_def Let_def split: option.splits if_splits)
qed



section \<open>Properties\<close>

text \<open>Writing a code can lose the write, never the code.  The half chosen for writing is never
  the one that is read: a complete write is what is read next, with the next generation, across
  the wrap of the generation number; a half left with anything that is not a valid record leaves
  the slot reading as before.\<close>

theorem code_slot_never_lost:
  assumes "length slot = PC_SLOT_SIZE" "pc_slot_write_half slot = (h, gen)" "pc_wf c"
    "length torn = PC_REC_SIZE" "pc_decode torn = None"
  shows "pc_slot_read (write_half h (pc_encode c gen) slot) = Some (c, gen) \<and>
    pc_slot_read (write_half h torn slot) = pc_slot_read slot"
  using slot_write_new [OF assms(1,3,2)] slot_write_torn [OF assms(1,2,4,5)] by simp

text \<open>A slot image whose first half holds generation \<open>2\<^sup>3\<^sup>2 - 1\<close>.\<close>

definition demo_code :: "string \<Rightarrow> pc_code" where
  "demo_code s = \<lparr>pc_occupied = True, pc_id = s @ [NUL], pc_hash = replicate 32 7, pc_from = 5, pc_until = 9\<rparr>"

definition demo_slot :: "u8 list" where
  "demo_slot = write_half 0 (pc_encode (demo_code ''0000002a'') (- 1)) (replicate PC_SLOT_SIZE 0xFF)"

lemma demo_code_wf: "length s = 8 \<Longrightarrow> pc_wf (demo_code s)"
  by (simp add: pc_wf_def demo_code_def nth_append)

lemma pc_erased: "pc_decode (replicate PC_REC_SIZE 0xFF) = None"
  by (simp add: pc_decode_def get32_def)

lemma demo_slot_halves:
  "length demo_slot = PC_SLOT_SIZE" "pc_slot_write_half demo_slot = (1, 0)"
  "pc_slot_read demo_slot = Some (demo_code ''0000002a'', - 1)"
proof -
  have w: "pc_wf (demo_code ''0000002a'')" by (rule demo_code_wf) simp
  have a: "take PC_REC_SIZE demo_slot = pc_encode (demo_code ''0000002a'') (- 1)"
    "take PC_REC_SIZE (drop PC_REC_SIZE demo_slot) = replicate PC_REC_SIZE 0xFF"
    "length demo_slot = PC_SLOT_SIZE"
    using halves_write [of "replicate PC_SLOT_SIZE (0xFF :: u8)" "pc_encode (demo_code ''0000002a'') (- 1)" 0]
    by (simp_all add: demo_slot_def length_pc_encode [OF w])
  show "length demo_slot = PC_SLOT_SIZE" by (rule a(3))
  show "pc_slot_write_half demo_slot = (1, 0)" "pc_slot_read demo_slot = Some (demo_code ''0000002a'', - 1)"
    by (simp_all add: pc_slot_write_half_def pc_slot_read_def a(1,2) pc_erased pc_decode_encode [OF w])
qed

theorem code_slot_never_lost_witness:
  "pc_slot_read (write_half 1 (pc_encode (demo_code ''0000002b'') 0) demo_slot) = Some (demo_code ''0000002b'', 0) \<and>
   pc_slot_read (write_half 1 (replicate PC_REC_SIZE 0xFF) demo_slot) = Some (demo_code ''0000002a'', - 1)"
  using code_slot_never_lost [OF demo_slot_halves(1,2) demo_code_wf _ pc_erased, of "''0000002b''"] demo_slot_halves(3)
  by simp

text \<open>A code record with one damaged byte is never taken for a code.  Changing any one of the
  sixty protected bytes or of the two CRC bytes of a record that decodes makes it not decode.\<close>

theorem code_record_damage_detected:
  assumes "pc_wf c" "i < PC_CRC_AT + 2" "b \<noteq> pc_encode c gen ! i"
  shows "pc_decode ((pc_encode c gen)[i := b]) = None"
  using assms by (intro pc.one_byte_detected) (simp_all add: length_pc_encode pc_decode_encode)

theorem code_record_damage_detected_witness:
  "pc_decode ((pc_encode (demo_code ''0000002a'') 3)[8 := 7]) = None"
proof -
  have w: "pc_wf (demo_code ''0000002a'')" by (rule demo_code_wf) simp
  then have "pc_encode (demo_code ''0000002a'') 3 ! 8 = 1"
    by (simp add: pc_encode_bytes pc_bytes_def nth_append)
  then show ?thesis using code_record_damage_detected [OF w, of 8 7 3] by simp
qed

end
