(* ===== verification/Persist_Store.thy ===== *)
theory Persist_Store
  imports Persist_Ring Persist_Codes Esp_Err
begin

text \<open>
  \<^verbatim>\<open>persist_store/persist_store\<close>: the two regions of the AT24C32 behind the I2C bus.  The bus driver
  (\<open>i2c_master_transmit\<close>, \<open>i2c_master_transmit_receive\<close>, \<open>i2c_master_probe\<close>) is the platform's and
  is a parameter: three functions on a bus state.  What is relied on of the chip behind it is
  the predicate \<open>eeprom_bus\<close>: a transfer that succeeds reads or writes the bytes at its address,
  one that fails has written at most a prefix; and, for the claims that a call succeeds,
  \<open>write_cycles\<close>: after a write the chip ignores the bus for a while, which is over before the polls
  of \<open>wait_write_cycle\<close> run out.
\<close>

section \<open>Data\<close>

abbreviation READ_CHUNK :: nat where "READ_CHUNK \<equiv> 256"
abbreviation WRITE_CYCLE_MS :: nat where "WRITE_CYCLE_MS \<equiv> 10"
abbreviation PAGE_SIZE :: nat where "PAGE_SIZE \<equiv> 32"

text \<open>The statics of the file; \<open>dev_added\<close> is \<open>s_dev != NULL\<close>.\<close>

record 'b persist =
  bus :: 'b
  dev_added :: bool
  pcur :: pr_cursor
  pfound :: pr_state
  phave :: bool

definition persist_statics :: "'b \<Rightarrow> 'b persist" where
  "persist_statics b = \<lparr>bus = b, dev_added = False, pcur = \<lparr>cur_slot = None, cur_seq = 0\<rparr>,
     pfound = \<lparr>attempts = 0, pr_lockout_until = 0, boot_count = 0\<rparr>, phave = False\<rparr>"


section \<open>Operations\<close>

fun probe_loop :: "'b i2c \<Rightarrow> 'b \<Rightarrow> nat \<Rightarrow> 'b \<times> esp_err" where
  "probe_loop i b 0 = (b, ESP_ERR_TIMEOUT)"
| "probe_loop i b (Suc n) =
     (let (b, ok) = probe i b in if ok then (b, ESP_OK) else probe_loop i b n)"

definition wait_write_cycle :: "'b i2c \<Rightarrow> 'b \<Rightarrow> 'b \<times> esp_err" where
  "wait_write_cycle i b = probe_loop i b (WRITE_CYCLE_MS * 2)"

definition mem_address :: "nat \<Rightarrow> u8 list" where
  "mem_address mem = [ucast (drop_bit 8 (of_nat mem :: u16)), ucast (of_nat mem :: u16)]"

definition persist_raw_read :: "'b i2c \<Rightarrow> 'b persist \<Rightarrow> nat \<Rightarrow> nat \<Rightarrow> 'b persist \<times> (esp_err + u8 list)" where
  "persist_raw_read i p mem len =
     (if \<not> dev_added p then (p, Inl ESP_ERR_INVALID_STATE)
      else
        (case transmit_receive i (bus p) (mem_address mem) len of
           (b, None) \<Rightarrow> (p\<lparr>bus := b\<rparr>, Inl ESP_FAIL)
         | (b, Some bytes) \<Rightarrow> (p\<lparr>bus := b\<rparr>, Inr bytes)))"

definition persist_raw_write :: "'b i2c \<Rightarrow> 'b persist \<Rightarrow> nat \<Rightarrow> u8 list \<Rightarrow> 'b persist \<times> esp_err" where
  "persist_raw_write i p mem bytes =
     (if \<not> dev_added p then (p, ESP_ERR_INVALID_STATE)
      else if length bytes > PAGE_SIZE then (p, ESP_ERR_INVALID_SIZE)
      else
        (let (b, ok) = transmit i (bus p) (mem_address mem @ bytes)
         in if ok then (let (b, err) = wait_write_cycle i b in (p\<lparr>bus := b\<rparr>, err))
            else (p\<lparr>bus := b\<rparr>, ESP_FAIL)))"

text \<open>The loop of \<open>persist_init\<close> over the ring region, chunk by chunk.\<close>

fun read_ring :: "'b i2c \<Rightarrow> 'b persist \<Rightarrow> nat list \<Rightarrow> u8 list \<Rightarrow> 'b persist \<times> (esp_err + u8 list)" where
  "read_ring i p [] img = (p, Inr img)"
| "read_ring i p (off # offs) img =
     (case persist_raw_read i p off READ_CHUNK of
        (p, Inl err) \<Rightarrow> (p, Inl err)
      | (p, Inr bytes) \<Rightarrow> read_ring i p offs (blit off bytes img))"

definition persist_init :: "'b i2c \<Rightarrow> bool \<Rightarrow> 'b persist \<Rightarrow> 'b persist \<times> esp_err" where
  "persist_init i add_device_ok p =
     (if \<not> add_device_ok then (p, ESP_FAIL)
      else
        (let p = p\<lparr>dev_added := True\<rparr> in
         case read_ring i p (map (\<lambda>k. k * READ_CHUNK) [0..<PR_SLOTS * PR_SLOT_SIZE div READ_CHUNK])
                (replicate (PR_SLOTS * PR_SLOT_SIZE) 0) of
           (p, Inl err) \<Rightarrow> (p, err)
         | (p, Inr img) \<Rightarrow>
             (case pr_find_latest img PR_SLOTS of
                (cur, None) \<Rightarrow> (p\<lparr>pcur := cur, phave := False\<rparr>, ESP_OK)
              | (cur, Some st) \<Rightarrow> (p\<lparr>pcur := cur, pfound := st, phave := True\<rparr>, ESP_OK))))"

definition persist_load :: "'b persist \<Rightarrow> pr_state option" where
  "persist_load p = (if phave p then Some (pfound p) else None)"

definition persist_save :: "'b i2c \<Rightarrow> 'b persist \<Rightarrow> pr_state option \<Rightarrow> 'b persist \<times> esp_err" where
  "persist_save i p s =
     (case s of
        None \<Rightarrow> (p, ESP_ERR_INVALID_STATE)
      | Some s \<Rightarrow>
          if \<not> dev_added p then (p, ESP_ERR_INVALID_STATE)
          else
            (let (nxt, slot) = pr_advance (pcur p) PR_SLOTS;
                 rec = pr_encode s (cur_seq nxt);
                 (p, err) = persist_raw_write i p (slot * PR_SLOT_SIZE) rec
             in (if err = ESP_OK then p\<lparr>pcur := nxt\<rparr> else p, err)))"

text \<open>One round of the loop of \<open>persist_codes_load\<close>.\<close>

definition load_slot :: "'b i2c \<Rightarrow> nat \<Rightarrow> 'b persist \<times> ac_ctx \<times> nat \<Rightarrow> 'b persist \<times> ac_ctx \<times> nat" where
  "load_slot i k s =
     (let (p, ctx, loaded) = s in
      case persist_raw_read i p (pc_offset k 0) PC_SLOT_SIZE of
        (p, Inl err) \<Rightarrow> (p, ctx, loaded)
      | (p, Inr slot) \<Rightarrow>
          (case pc_slot_read slot of
             None \<Rightarrow> (p, ctx, loaded)
           | Some (c, gen) \<Rightarrow>
               if \<not> pc_occupied c then (p, ctx, loaded)
               else (let (ctx, ok) = pc_apply ctx (int k) c in (p, ctx, if ok then loaded + 1 else loaded))))"

definition persist_codes_load :: "'b i2c \<Rightarrow> 'b persist \<Rightarrow> ac_ctx \<Rightarrow> 'b persist \<times> ac_ctx \<times> nat" where
  "persist_codes_load i p ctx =
     (if \<not> dev_added p then (p, ctx, 0) else fold (load_slot i) [0..<PC_SLOTS] (p, ctx, 0))"

text \<open>The record that stands for a table slot.\<close>

definition code_of_slot :: "ac_slot \<Rightarrow> pc_code" where
  "code_of_slot s =
     (if occupied s
      then zero_code\<lparr>pc_occupied := True, pc_id := take AC_ID_LEN (slot_id s),
             pc_hash := take AC_HASH_LEN (slot_hash s),
             pc_from := word_of_int (slot_from s), pc_until := word_of_int (slot_until s)\<rparr>
      else zero_code)"

definition persist_codes_save :: "'b i2c \<Rightarrow> 'b persist \<Rightarrow> ac_ctx \<Rightarrow> int \<Rightarrow> 'b persist \<times> esp_err" where
  "persist_codes_save i p ctx slot =
     (if slot < 0 \<or> slot \<ge> int PC_SLOTS then (p, ESP_ERR_INVALID_ARG)
      else
        (let s = slots ctx ! nat slot in
         if occupied s \<and> transient s then (p, ESP_OK)
         else
           (case persist_raw_read i p (pc_offset (nat slot) 0) PC_SLOT_SIZE of
              (p, Inl err) \<Rightarrow> (p, err)
            | (p, Inr img) \<Rightarrow>
                (let (half, gen) = pc_slot_write_half img;
                     rec = pc_encode (code_of_slot s) gen;
                     at = pc_offset (nat slot) half;
                     (p, err) = persist_raw_write i p at (take PAGE_SIZE rec)
                 in if err = ESP_OK
                    then persist_raw_write i p (at + PAGE_SIZE) (take PAGE_SIZE (drop PAGE_SIZE rec))
                    else (p, err)))))"


section \<open>The chip\<close>

definition EEPROM_SIZE :: nat where "EEPROM_SIZE = 4096"

text \<open>
  \<open>mem b\<close> is what the chip holds in bus state \<open>b\<close>.  A read that is answered returns the bytes at
  the address; a write that stays in its page has put a prefix of its bytes there, and all of them
  when it is acknowledged; probing changes nothing.
\<close>

definition eeprom_bus :: "'b i2c \<Rightarrow> ('b \<Rightarrow> u8 list) \<Rightarrow> bool" where
  "eeprom_bus i mem \<longleftrightarrow>
     (\<forall>b. length (mem b) = EEPROM_SIZE \<and>
       (\<forall>a n. a + n \<le> EEPROM_SIZE \<longrightarrow>
          mem (fst (transmit_receive i b (mem_address a) n)) = mem b \<and>
          (\<forall>bs. snd (transmit_receive i b (mem_address a) n) = Some bs \<longrightarrow> bs = take n (drop a (mem b)))) \<and>
       (\<forall>a bs. a + length bs \<le> EEPROM_SIZE \<and> a mod PAGE_SIZE + length bs \<le> PAGE_SIZE \<longrightarrow>
          (\<exists>k\<le>length bs. mem (fst (transmit i b (mem_address a @ bs))) = blit a (take k bs) (mem b) \<and>
             (snd (transmit i b (mem_address a @ bs)) \<longrightarrow> k = length bs))) \<and>
       mem (fst (probe i b)) = mem b)"

text \<open>
  \<open>busy b\<close> is the number of polls that the chip will still leave unanswered.  An idle chip answers
  every transfer, and a write makes it busy for less than the twenty polls of \<open>wait_write_cycle\<close>,
  the longest cycle of the data sheet; a busy one ignores transfers and polls until the cycle is
  over.
\<close>

definition write_cycles :: "'b i2c \<Rightarrow> ('b \<Rightarrow> nat) \<Rightarrow> bool" where
  "write_cycles i busy \<longleftrightarrow>
     (\<forall>b. (\<forall>a n. (snd (transmit_receive i b (mem_address a) n) \<noteq> None \<longleftrightarrow> busy b = 0) \<and>
              busy (fst (transmit_receive i b (mem_address a) n)) \<le> busy b) \<and>
          (\<forall>a bs. (snd (transmit i b (mem_address a @ bs)) \<longleftrightarrow> busy b = 0) \<and>
              (if busy b = 0 then busy (fst (transmit i b (mem_address a @ bs))) < WRITE_CYCLE_MS * 2
               else busy (fst (transmit i b (mem_address a @ bs))) \<le> busy b)) \<and>
          (snd (probe i b) \<longleftrightarrow> busy b = 0) \<and> busy (fst (probe i b)) = busy b - 1)"

text \<open>The driver is up and the chip is idle, as every call of the driver leaves it.\<close>

definition ready :: "('b \<Rightarrow> nat) \<Rightarrow> 'b persist \<Rightarrow> bool" where
  "ready busy p \<longleftrightarrow> dev_added p \<and> busy (bus p) = 0"

lemma probe_loop_waits:
  assumes "write_cycles i busy"
  shows "busy b < n \<Longrightarrow> snd (probe_loop i b n) = ESP_OK \<and> busy (fst (probe_loop i b n)) = 0"
proof (induction n arbitrary: b)
  case (Suc n)
  have p: "snd (probe i b) \<longleftrightarrow> busy b = 0" "busy (fst (probe i b)) = busy b - 1"
    using assms unfolding write_cycles_def by blast+
  show ?case using p Suc.IH [of "fst (probe i b)"] Suc.prems by (cases "busy b = 0") (auto simp: split_def Let_def)
qed simp

lemma raw_read_ready:
  assumes "write_cycles i busy" "ready busy p"
  obtains b bs where "persist_raw_read i p a n = (p\<lparr>bus := b\<rparr>, Inr bs)" "ready busy (p\<lparr>bus := b\<rparr>)"
proof -
  obtain b x where t: "transmit_receive i (bus p) (mem_address a) n = (b, x)" by fastforce
  have z: "busy (bus p) = 0" "dev_added p" using assms(2) by (simp_all add: ready_def)
  have "snd (transmit_receive i (bus p) (mem_address a) n) \<noteq> None \<and> busy (fst (transmit_receive i (bus p) (mem_address a) n)) \<le> 0"
    using assms(1) z(1) unfolding write_cycles_def by metis
  then have "busy b = 0 \<and> x \<noteq> None" by (simp add: t)
  then obtain bs where "busy b = 0" "x = Some bs" by blast
  then show ?thesis using that [of b bs] z(2) t by (simp add: persist_raw_read_def ready_def)
qed

lemma raw_write_ready:
  assumes "write_cycles i busy" "ready busy p" "length bs \<le> PAGE_SIZE"
  shows "snd (persist_raw_write i p a bs) = ESP_OK" "ready busy (fst (persist_raw_write i p a bs))"
proof -
  obtain b ok where t: "transmit i (bus p) (mem_address a @ bs) = (b, ok)" by fastforce
  have z: "busy (bus p) = 0" "dev_added p" using assms(2) by (simp_all add: ready_def)
  have "snd (transmit i (bus p) (mem_address a @ bs)) \<and> busy (fst (transmit i (bus p) (mem_address a @ bs))) < WRITE_CYCLE_MS * 2"
    using assms(1) z(1) unfolding write_cycles_def by metis
  then have ok: "ok" "busy b < WRITE_CYCLE_MS * 2" by (simp_all add: t)
  from probe_loop_waits [OF assms(1) ok(2)]
  show "snd (persist_raw_write i p a bs) = ESP_OK" "ready busy (fst (persist_raw_write i p a bs))"
    using z(2) assms(3) ok(1)
    by (simp_all add: persist_raw_write_def t ready_def wait_write_cycle_def split_def Let_def)
qed

lemma save_ready:
  assumes "write_cycles i busy" "ready busy p"
  shows "snd (persist_save i p (Some s)) = ESP_OK" "ready busy (fst (persist_save i p (Some s)))"
proof -
  obtain nxt slot where n: "pr_advance (pcur p) PR_SLOTS = (nxt, slot)" by fastforce
  have "length (pr_encode s (cur_seq nxt)) \<le> PAGE_SIZE" by simp
  note w = raw_write_ready [OF assms this, of "slot * PR_SLOT_SIZE"]
  have d: "dev_added p" using assms(2) by (simp add: ready_def)
  show "snd (persist_save i p (Some s)) = ESP_OK" "ready busy (fst (persist_save i p (Some s)))"
    using w d by (simp_all add: persist_save_def n split_def Let_def) (simp add: ready_def)
qed

lemma probe_loop_mem: "eeprom_bus i mem \<Longrightarrow> mem (fst (probe_loop i b n)) = mem b"
proof (induction n arbitrary: b)
  case (Suc n)
  have p: "mem (fst (probe i b)) = mem b" using Suc.prems by (simp add: eeprom_bus_def)
  then show ?case using Suc by (simp add: split_def Let_def)
qed simp

lemma raw_read:
  assumes "eeprom_bus i mem" "a + n \<le> EEPROM_SIZE" "persist_raw_read i p a n = (p', r)"
  shows "mem (bus p') = mem (bus p)" "\<exists>b. p' = p\<lparr>bus := b\<rparr>"
    "r = Inr bs \<Longrightarrow> bs = take n (drop a (mem (bus p)))"
proof -
  obtain b x where t: "transmit_receive i (bus p) (mem_address a) n = (b, x)" by fastforce
  have m: "mem b = mem (bus p)" "x = Some bs \<Longrightarrow> bs = take n (drop a (mem (bus p)))" for bs
    using assms(1,2) t unfolding eeprom_bus_def by (metis fst_conv, metis snd_conv)
  show "mem (bus p') = mem (bus p)" "\<exists>b. p' = p\<lparr>bus := b\<rparr>"
    "r = Inr bs \<Longrightarrow> bs = take n (drop a (mem (bus p)))"
    using assms(3) m by (auto simp: persist_raw_read_def t split: if_splits option.splits intro: exI [of _ "bus p"])
qed

lemma raw_write:
  assumes "eeprom_bus i mem" "a + length bs \<le> EEPROM_SIZE" "a mod PAGE_SIZE + length bs \<le> PAGE_SIZE"
    "persist_raw_write i p a bs = (p', err)" "dev_added p"
  obtains k where "k \<le> length bs" "mem (bus p') = blit a (take k bs) (mem (bus p))"
    "err = ESP_OK \<Longrightarrow> k = length bs" "p' = p\<lparr>bus := bus p'\<rparr>"
proof -
  obtain b ok where t: "transmit i (bus p) (mem_address a @ bs) = (b, ok)" by fastforce
  obtain k where k: "k \<le> length bs" "mem b = blit a (take k bs) (mem (bus p))" "ok \<Longrightarrow> k = length bs"
    using assms(1-3) t unfolding eeprom_bus_def by (metis fst_conv snd_conv)
  have w: "mem (fst (wait_write_cycle i b)) = mem b"
    using assms(1) by (simp add: wait_write_cycle_def probe_loop_mem)
  show ?thesis
  proof (rule that [of k])
    show "mem (bus p') = blit a (take k bs) (mem (bus p))" "err = ESP_OK \<Longrightarrow> k = length bs" "p' = p\<lparr>bus := bus p'\<rparr>"
      using assms(3-5) k w by (auto simp: persist_raw_write_def t Let_def split_def split: if_splits)
  qed (rule k(1))
qed

lemma raw_write_full:
  assumes "eeprom_bus i mem" "a + length bs \<le> EEPROM_SIZE" "a mod PAGE_SIZE + length bs \<le> PAGE_SIZE"
    "persist_raw_write i p a bs = (p', ESP_OK)" "dev_added p"
  shows "mem (bus p') = blit a bs (mem (bus p))" "dev_added p'" "pcur p' = pcur p"
proof -
  from raw_write [OF assms] obtain k where k: "mem (bus p') = blit a (take k bs) (mem (bus p))"
    "k = length bs" "p' = p\<lparr>bus := bus p'\<rparr>" by metis
  show "mem (bus p') = blit a bs (mem (bus p))" using k(1,2) by simp
  obtain b where "p' = p\<lparr>bus := b\<rparr>" using k(3) by blast
  then show "dev_added p'" "pcur p' = pcur p" using assms(5) by simp_all
qed

text \<open>Which part of the chip a write at \<open>a\<close> leaves alone.\<close>

lemma region_blit:
  assumes "length img = EEPROM_SIZE" "a + length bs \<le> EEPROM_SIZE" "r + n \<le> a \<or> a + length bs \<le> r" "r + n \<le> EEPROM_SIZE"
  shows "take n (drop r (blit a bs img)) = take n (drop r img)"
proof (rule nth_equalityI)
  have l: "length (blit a bs img) = EEPROM_SIZE" using assms(1,2) by simp
  then show len: "length (take n (drop r (blit a bs img))) = length (take n (drop r img))" using assms(1) by simp
  fix j assume "j < length (take n (drop r (blit a bs img)))"
  then have j: "j < n" by simp
  have "blit a bs img ! (r + j) = img ! (r + j)"
    using assms j by (subst nth_blit) auto
  then show "take n (drop r (blit a bs img)) ! j = take n (drop r img) ! j"
    using j l assms(1,4) by simp
qed

lemma region_blit_inside:
  assumes "length img = EEPROM_SIZE" "r + n \<le> EEPROM_SIZE" "r \<le> a" "a + length bs \<le> r + n"
  shows "take n (drop r (blit a bs img)) = blit (a - r) bs (take n (drop r img))"
proof (rule nth_equalityI)
  have l: "length (blit a bs img) = EEPROM_SIZE" using assms by simp
  have l2: "length (take n (drop r img)) = n" using assms(1,2) by simp
  then have l3: "length (blit (a - r) bs (take n (drop r img))) = n" using assms by (subst length_blit) auto
  show "length (take n (drop r (blit a bs img))) = length (blit (a - r) bs (take n (drop r img)))"
    unfolding l3 using l assms(2) by simp
  fix j assume "j < length (take n (drop r (blit a bs img)))"
  then have j: "j < n" by simp
  have "blit a bs img ! (r + j) = (if a \<le> r + j \<and> r + j < a + length bs then bs ! (r + j - a) else img ! (r + j))"
    using assms j by (subst nth_blit) auto
  moreover have "blit (a - r) bs (take n (drop r img)) ! j =
      (if a - r \<le> j \<and> j < a - r + length bs then bs ! (j - (a - r)) else take n (drop r img) ! j)"
    using assms j l2 by (subst nth_blit) auto
  moreover have "a - r \<le> j \<and> j < a - r + length bs \<longleftrightarrow> a \<le> r + j \<and> r + j < a + length bs" using assms(3) by arith
  moreover have "j - (a - r) = r + j - a" using assms(3) by simp
  ultimately show "take n (drop r (blit a bs img)) ! j = blit (a - r) bs (take n (drop r img)) ! j"
    using j l assms(1,2) by simp
qed

lemma blit_twice:
  assumes "length xs = n" "a + n + length ys \<le> length img"
  shows "blit (a + n) ys (blit a xs img) = blit a (xs @ ys) img"
  using assms by (simp add: blit_def ac_simps)


section \<open>The ring region\<close>

lemma read_ring_image:
  assumes "eeprom_bus i mem" "j \<le> 8" "length img = 2048" "take (j * 256) img = take (j * 256) (mem (bus p))"
    "read_ring i p (map (\<lambda>k. k * READ_CHUNK) [j..<8]) img = (p', r)"
  shows "mem (bus p') = mem (bus p) \<and> (\<exists>b. p' = p\<lparr>bus := b\<rparr>) \<and> (\<forall>img'. r = Inr img' \<longrightarrow> img' = take 2048 (mem (bus p)))"
  using assms
proof (induction "8 - j" arbitrary: j img p)
  case 0
  then show ?case by (auto intro: exI [of _ "bus p"])
next
  case (Suc d)
  then have j: "j < 8" by simp
  obtain q x where rr: "persist_raw_read i p (j * 256) READ_CHUNK = (q, x)" by fastforce
  have b: "j * 256 + READ_CHUNK \<le> EEPROM_SIZE" using j by (simp add: EEPROM_SIZE_def)
  note r = raw_read [OF Suc.prems(1) b rr]
  have u: "[j..<8] = j # [Suc j..<8]" using j by (simp add: upt_conv_Cons)
  show ?case
  proof (cases x)
    case (Inl e)
    then show ?thesis using Suc.prems(5) r(1,2) by (auto simp: u rr)
  next
    case (Inr bs)
    have bs: "bs = take 256 (drop (j * 256) (mem (bus p)))" using r(3) Inr by blast
    have lm: "length (mem (bus p)) = EEPROM_SIZE" using Suc.prems(1) by (simp add: eeprom_bus_def)
    have lbs: "length bs = 256" using lm j by (simp add: bs EEPROM_SIZE_def)
    have st: "read_ring i q (map (\<lambda>k. k * READ_CHUNK) [Suc j..<8]) (blit (j * 256) bs img) = (p', r)"
      using Suc.prems(5) Inr by (simp add: u rr)
    have "take (Suc j * 256) (blit (j * 256) bs img) = take (j * 256) img @ bs"
      using lbs j Suc.prems(3) by (simp add: blit_def)
    also have "\<dots> = take (Suc j * 256) (mem (bus q))"
      unfolding r(1) Suc.prems(4) bs using take_add [of "j * 256" 256 "mem (bus p)"] by (simp add: add.commute)
    finally have tk: "take (Suc j * 256) (blit (j * 256) bs img) = take (Suc j * 256) (mem (bus q))" .
    have "mem (bus p') = mem (bus q) \<and> (\<exists>b. p' = q\<lparr>bus := b\<rparr>) \<and> (\<forall>img'. r = Inr img' \<longrightarrow> img' = take 2048 (mem (bus q)))"
      using Suc.hyps(2) j lbs Suc.prems(3) by (intro Suc.hyps(1) [OF _ Suc.prems(1) _ _ tk st]) auto
    then show ?thesis using r(1,2) by auto
  qed
qed


text \<open>The statics agree with the chip: the cursor points at the newest record of the ring.\<close>

definition ring_of :: "u8 list \<Rightarrow> u8 list" where
  "ring_of img = take (PR_SLOTS * PR_SLOT_SIZE) (drop 0 img)"

definition store_inv :: "('b \<Rightarrow> u8 list) \<Rightarrow> 'b persist \<Rightarrow> bool" where
  "store_inv mem p \<longleftrightarrow> dev_added p \<and>
     (ring_blank (ring_of (mem (bus p))) \<and> pcur p = \<lparr>cur_slot = None, cur_seq = 0\<rparr> \<or>
      (\<exists>st. ring_inv (ring_of (mem (bus p))) (pcur p) st))"

declare store_inv_def [inv_defs]

lemma init_finds:
  assumes "eeprom_bus i mem" "ring_inv (ring_of (mem b)) cur st"
    "persist_init i ok (persist_statics b) = (q, ESP_OK)"
  shows "persist_load q = Some st \<and> pcur q = cur \<and> mem (bus q) = mem b \<and> dev_added q"
proof -
  let ?p = "(persist_statics b)\<lparr>dev_added := True\<rparr>"
  let ?offs = "map (\<lambda>k. k * READ_CHUNK) [0..<8]"
  obtain p1 r where rr: "read_ring i ?p ?offs (replicate 2048 0) = (p1, r)" by fastforce
  have n: "PR_SLOTS * PR_SLOT_SIZE div READ_CHUNK = 8" "PR_SLOTS * PR_SLOT_SIZE = 2048" by simp_all
  have rd: "mem (bus p1) = mem (bus ?p) \<and> (\<exists>b. p1 = ?p\<lparr>bus := b\<rparr>) \<and>
      (\<forall>img'. r = Inr img' \<longrightarrow> img' = take 2048 (mem (bus ?p)))"
    by (rule read_ring_image [OF assms(1) _ _ _ rr]) simp_all
  have "ok" using assms(3) by (simp add: persist_init_def split: if_splits)
  then have i: "(case r of Inl err \<Rightarrow> (p1, err) | Inr img \<Rightarrow>
      (case pr_find_latest img PR_SLOTS of
         (cur, None) \<Rightarrow> (p1\<lparr>pcur := cur, phave := False\<rparr>, ESP_OK)
       | (cur, Some st) \<Rightarrow> (p1\<lparr>pcur := cur, pfound := st, phave := True\<rparr>, ESP_OK))) = (q, ESP_OK) \<and>
      (\<forall>e. r = Inl e \<longrightarrow> e = ESP_OK)"
    using assms(3) rr unfolding persist_init_def Let_def n by (auto split: sum.splits)
  show ?thesis
  proof (cases r)
    case (Inl e)
    have "read_ring i p offs img \<noteq> (p', Inl ESP_OK)" for p offs img p'
      by (induction offs arbitrary: p img)
        (auto simp: persist_raw_read_def split: prod.splits sum.splits option.splits if_splits)
    then show ?thesis using i rr Inl by auto
  next
    case (Inr img)
    then have "img = ring_of (mem b)" using rd by (simp add: ring_of_def persist_statics_def)
    then have "pr_find_latest img PR_SLOTS = (cur, Some st)" using assms(2) by (simp add: find_latest_inv)
    then show ?thesis using i Inr rd by (auto simp: persist_load_def persist_statics_def)
  qed
qed

lemma save_ring:
  assumes "eeprom_bus i mem" "store_inv mem p" "unat (cur_seq (pcur p)) < 2 ^ 32 - 1"
    "persist_save i p (Some s) = (q, ESP_OK)"
  shows "ring_inv (ring_of (mem (bus q))) (pcur q) s \<and> store_inv mem q"
proof -
  obtain nxt slot where n: "pr_advance (pcur p) PR_SLOTS = (nxt, slot)" by fastforce
  let ?rec = "pr_encode s (cur_seq nxt)" and ?img = "ring_of (mem (bus p))"
  have dev: "dev_added p" using assms(2) by (simp add: store_inv_def)
  obtain st where st: "ring_inv ?img (pcur p) st \<or> ring_blank ?img \<and> pcur p = \<lparr>cur_slot = None, cur_seq = 0\<rparr>"
    using assms(2) by (auto simp: store_inv_def)
  then have lt: "slot < PR_SLOTS" using advance_inv(1) [OF _ n, of ?img st] by auto
  then have a: "slot * PR_SLOT_SIZE + length ?rec \<le> 2048" "slot * PR_SLOT_SIZE + length ?rec \<le> EEPROM_SIZE"
    "slot * PR_SLOT_SIZE mod PAGE_SIZE + length ?rec \<le> PAGE_SIZE" by (simp_all add: EEPROM_SIZE_def)
  obtain p1 err where w: "persist_raw_write i p (slot * PR_SLOT_SIZE) ?rec = (p1, err)" by fastforce
  have q: "err = ESP_OK" "q = p1\<lparr>pcur := nxt\<rparr>"
    using assms(4) dev by (auto simp: persist_save_def n w Let_def split: if_splits)
  note w = raw_write_full [OF assms(1) a(2,3) w [unfolded q(1)] dev]
  have lm: "length (mem (bus p)) = EEPROM_SIZE" using assms(1) by (simp add: eeprom_bus_def)
  have "ring_of (mem (bus q)) = blit (slot * PR_SLOT_SIZE - 0) ?rec ?img"
    unfolding q(2) ring_of_def using w(1) a by (simp add: region_blit_inside [OF lm] EEPROM_SIZE_def del: drop0)
  then have rs: "ring_save (?img, pcur p) s = (ring_of (mem (bus q)), pcur q)"
    by (simp add: ring_save_def n q(2))
  have "ring_inv (ring_of (mem (bus q))) (pcur q) s"
    using ring_save_inv [OF st assms(3), of s] by (simp add: rs)
  moreover have "dev_added q" using w(2) q(2) by simp
  ultimately show ?thesis by (auto simp: store_inv_def)
qed

text \<open>The attempt counter survives a power cut.  Once a save has succeeded, a boot whose reads
  succeed loads exactly the state that was saved and resumes with the same ring cursor, whatever
  the bus answers to probes and however often earlier saves failed.\<close>

theorem attempts_survive_reboot:
  assumes "eeprom_bus i mem" "store_inv mem p" "unat (cur_seq (pcur p)) < 2 ^ 32 - 1"
    "persist_save i p (Some s) = (q, ESP_OK)" "persist_init i ok (persist_statics (bus q)) = (r, ESP_OK)"
  shows "persist_load r = Some s \<and> pcur r = pcur q \<and> store_inv mem r"
proof -
  have q: "ring_inv (ring_of (mem (bus q))) (pcur q) s" using save_ring [OF assms(1-4)] by simp
  from init_finds [OF assms(1) q assms(5)] q show ?thesis by (auto simp: store_inv_def)
qed


text \<open>A chip for the witnesses: its content, and the polls it will still ignore; three after a write.\<close>

definition demo_mem :: "u8 list \<times> nat \<Rightarrow> u8 list" where
  "demo_mem b = take EEPROM_SIZE (fst b @ replicate EEPROM_SIZE 0xFF)"

definition demo_address :: "u8 list \<Rightarrow> nat" where
  "demo_address tx = unat (tx ! 0) * 256 + unat (tx ! 1)"

definition demo_bus :: "(u8 list \<times> nat) i2c" where
  "demo_bus = \<lparr>transmit_receive = (\<lambda>b tx n. (b, if snd b = 0 then Some (take n (drop (demo_address tx) (demo_mem b))) else None)),
     transmit = (\<lambda>b tx. if snd b = 0 then ((blit (demo_address tx) (drop 2 tx) (demo_mem b), 3), True) else (b, False)),
     probe = (\<lambda>b. ((fst b, snd b - 1), snd b = 0))\<rparr>"

lemma demo_cycles: "write_cycles demo_bus snd"
  by (simp add: write_cycles_def demo_bus_def)

lemma demo_address_mem: "a < 65536 \<Longrightarrow> demo_address (mem_address a @ bs) = a"
proof -
  assume a: "a < 65536"
  then have u: "unat (of_nat a :: u16) = a" by (simp add: unat_of_nat take_bit_nat_eq_self)
  have "unat (ucast (drop_bit 8 (of_nat a :: u16)) :: u8) = a div 256 mod 256"
    by (simp only: unsigned_ucast_eq unat_drop_bit_eq u) (simp add: drop_bit_eq_div take_bit_eq_mod)
  moreover have "unat (ucast (of_nat a :: u16) :: u8) = a mod 256"
    by (simp only: unsigned_ucast_eq u) (simp add: take_bit_eq_mod)
  moreover have "a div 256 < 256" using a by (simp add: less_mult_imp_div_less)
  ultimately show ?thesis by (simp add: demo_address_def mem_address_def)
qed

lemma demo_bus_ok: "eeprom_bus demo_bus demo_mem"
proof -
  have l: "length (demo_mem b) = EEPROM_SIZE" for b by (simp add: demo_mem_def)
  have ad: "demo_address (mem_address a) = a" "demo_address (mem_address a @ bs) = a" if "a \<le> EEPROM_SIZE" for a and bs :: "u8 list"
    using demo_address_mem [of a "[]"] demo_address_mem [of a bs] that by (simp_all add: EEPROM_SIZE_def)
  have w: "demo_mem (blit a bs (demo_mem b), n) = blit a bs (demo_mem b)" if "a + length bs \<le> EEPROM_SIZE" for a bs b n
    using that l [of b] by (simp add: demo_mem_def [of "(blit a bs (demo_mem b), n)"])
  show ?thesis
    unfolding eeprom_bus_def
  proof (intro allI conjI impI)
    fix b a n assume "a + n \<le> EEPROM_SIZE"
    then show "demo_mem (fst (transmit_receive demo_bus b (mem_address a) n)) = demo_mem b"
      "\<And>bs. snd (transmit_receive demo_bus b (mem_address a) n) = Some bs \<Longrightarrow> bs = take n (drop a (demo_mem b))"
      by (simp_all add: demo_bus_def ad split: if_splits)
  next
    fix b a and bs :: "u8 list" assume f: "a + length bs \<le> EEPROM_SIZE \<and> a mod PAGE_SIZE + length bs \<le> PAGE_SIZE"
    have d: "drop 2 (mem_address a @ bs) = bs" by (simp add: mem_address_def)
    show "\<exists>k\<le>length bs. demo_mem (fst (transmit demo_bus b (mem_address a @ bs))) = blit a (take k bs) (demo_mem b)
        \<and> (snd (transmit demo_bus b (mem_address a @ bs)) \<longrightarrow> k = length bs)"
    proof (cases "snd b = 0")
      case True
      then show ?thesis using f d by (intro exI [of _ "length bs"]) (simp add: demo_bus_def ad w)
    next
      case False
      then show ?thesis by (intro exI [of _ 0]) (simp add: demo_bus_def blit_def)
    qed
  qed (simp_all add: l demo_bus_def demo_mem_def)
qed


definition demo_store :: "(u8 list \<times> nat) persist" where
  "demo_store = (persist_statics (replicate EEPROM_SIZE 0xFF, 0))\<lparr>dev_added := True\<rparr>"

lemma demo_store_ready: "ready snd demo_store"
  by (simp add: ready_def demo_store_def persist_statics_def)

lemma demo_store_inv: "store_inv demo_mem demo_store"
proof -
  have "ring_of (demo_mem (replicate EEPROM_SIZE 0xFF, 0)) = replicate (PR_SLOTS * PR_SLOT_SIZE) 0xFF"
    by (simp add: ring_of_def demo_mem_def EEPROM_SIZE_def)
  then show ?thesis using erased_blank by (simp add: store_inv_def demo_store_def persist_statics_def)
qed

lemma read_ring_ready:
  "write_cycles i busy \<Longrightarrow> ready busy p \<Longrightarrow> \<exists>b img'. read_ring i p offs img = (p\<lparr>bus := b\<rparr>, Inr img') \<and> busy b = 0"
proof (induction offs arbitrary: p img)
  case Nil
  then show ?case by (auto simp: ready_def intro: exI [of _ "bus p"])
next
  case (Cons off offs)
  obtain b bs where r: "persist_raw_read i p off READ_CHUNK = (p\<lparr>bus := b\<rparr>, Inr bs)" "ready busy (p\<lparr>bus := b\<rparr>)"
    by (rule raw_read_ready [OF Cons.prems])
  from Cons.IH [OF Cons.prems(1) r(2), of "blit off bs img"] r(1) show ?case by auto
qed

lemma init_ready:
  assumes "write_cycles i busy" "busy (bus p) = 0"
  obtains q where "persist_init i True p = (q, ESP_OK)" "ready busy q"
proof -
  have "ready busy (p\<lparr>dev_added := True\<rparr>)" using assms(2) by (simp add: ready_def)
  from read_ring_ready [OF assms(1) this] obtain b img where
    "read_ring i (p\<lparr>dev_added := True\<rparr>) (map (\<lambda>k. k * READ_CHUNK) [0..<PR_SLOTS * PR_SLOT_SIZE div READ_CHUNK])
      (replicate (PR_SLOTS * PR_SLOT_SIZE) 0) = (p\<lparr>dev_added := True, bus := b\<rparr>, Inr img)" "busy b = 0" by fastforce
  then have "\<exists>q. persist_init i True p = (q, ESP_OK) \<and> ready busy q"
    by (cases "pr_find_latest img PR_SLOTS")
      (auto simp: persist_init_def Let_def ready_def split: option.split)
  then show ?thesis using that by blast
qed

theorem attempts_survive_reboot_witness:
  "let s = \<lparr>attempts = 4, pr_lockout_until = 0, boot_count = 2\<rparr>; q = fst (persist_save demo_bus demo_store (Some s)) in
     persist_load (fst (persist_init demo_bus True (persist_statics (bus q)))) = Some s"
proof -
  let ?s = "\<lparr>attempts = 4, pr_lockout_until = 0, boot_count = 2\<rparr>"
  obtain q err where q: "persist_save demo_bus demo_store (Some ?s) = (q, err)" by fastforce
  note sv = save_ready [OF demo_cycles demo_store_ready, of ?s]
  from sv q have q: "persist_save demo_bus demo_store (Some ?s) = (q, ESP_OK)" "ready snd q" by simp_all
  have "snd (bus (persist_statics (bus q))) = 0" using q(2) by (simp add: ready_def persist_statics_def)
  then obtain r where r: "persist_init demo_bus True (persist_statics (bus q)) = (r, ESP_OK)"
    by (rule init_ready [OF demo_cycles])
  have "unat (cur_seq (pcur demo_store)) < 2 ^ 32 - 1" by (simp add: demo_store_def persist_statics_def)
  from attempts_survive_reboot [OF demo_bus_ok demo_store_inv this q(1) r] show ?thesis using q(1) r by simp
qed


section \<open>The code region\<close>

definition code_region :: "u8 list \<Rightarrow> nat \<Rightarrow> u8 list" where
  "code_region img k = take PC_SLOT_SIZE (drop (pc_offset k 0) img)"

lemma code_region_bounds: "k < PC_SLOTS \<Longrightarrow> pc_offset k 0 + PC_SLOT_SIZE \<le> EEPROM_SIZE"
  by (simp add: pc_offset_def EEPROM_SIZE_def)

lemma length_code_region:
  "length img = EEPROM_SIZE \<Longrightarrow> k < PC_SLOTS \<Longrightarrow> length (code_region img k) = PC_SLOT_SIZE"
  using code_region_bounds [of k] by (simp add: code_region_def)

text \<open>A half of a slot written to the chip is a half of the slot image written, and touches neither
  another slot nor the ring.\<close>

lemma code_write:
  assumes "length img = EEPROM_SIZE" "length rec = PC_REC_SIZE" "k < PC_SLOTS" "h < 2"
  shows "code_region (blit (pc_offset k h) rec img) k = write_half h rec (code_region img k)"
    "j < PC_SLOTS \<Longrightarrow> j \<noteq> k \<Longrightarrow> code_region (blit (pc_offset k h) rec img) j = code_region img j"
    "ring_of (blit (pc_offset k h) rec img) = ring_of img"
proof -
  note b = code_region_bounds [OF assms(3)]
  have h: "pc_offset k h = pc_offset k 0 + h * PC_REC_SIZE" by (simp add: pc_offset_def)
  have e: "pc_offset k h + length rec \<le> EEPROM_SIZE" "pc_offset k h + length rec \<le> pc_offset k 0 + PC_SLOT_SIZE"
    using b h assms(2,4) by simp_all
  show "code_region (blit (pc_offset k h) rec img) k = write_half h rec (code_region img k)"
    unfolding code_region_def write_half_def
    by (subst region_blit_inside [OF assms(1) b _ e(2)]) (simp_all add: h)
  show "ring_of (blit (pc_offset k h) rec img) = ring_of img"
    unfolding ring_of_def using e(1)
    by (intro region_blit [OF assms(1)]) (simp_all add: pc_offset_def EEPROM_SIZE_def)
  show "code_region (blit (pc_offset k h) rec img) j = code_region img j" if j: "j < PC_SLOTS" "j \<noteq> k"
  proof -
    have "pc_offset j 0 + PC_SLOT_SIZE \<le> pc_offset k 0 \<or> pc_offset k 0 + PC_SLOT_SIZE \<le> pc_offset j 0"
      using j(2) by (cases "j < k") (simp_all add: pc_offset_def)
    then show ?thesis
      unfolding code_region_def using e code_region_bounds [OF j(1)] h
      by (intro region_blit [OF assms(1)]) auto
  qed
qed

lemma code_of_slot_wf: "slot_wf s \<Longrightarrow> pc_wf (code_of_slot s)"
  by (auto simp: pc_wf_def code_of_slot_def slot_wf_def zero_code_def)

lemma save_code:
  assumes "eeprom_bus i mem" "dev_added p" "ac_inv ctx" "k < PC_SLOTS"
    "\<not> (occupied (slots ctx ! k) \<and> transient (slots ctx ! k))"
    "persist_codes_save i p ctx (int k) = (q, ESP_OK)"
  shows "\<exists>gen. pc_slot_read (code_region (mem (bus q)) k) = Some (code_of_slot (slots ctx ! k), gen)"
    "\<And>j. j < PC_SLOTS \<Longrightarrow> j \<noteq> k \<Longrightarrow> code_region (mem (bus q)) j = code_region (mem (bus p)) j"
    "ring_of (mem (bus q)) = ring_of (mem (bus p))" "dev_added q" "pcur q = pcur p"
proof -
  let ?c = "code_of_slot (slots ctx ! k)"
  have lm: "length (mem b) = EEPROM_SIZE" for b using assms(1) by (simp add: eeprom_bus_def)
  obtain p1 r where rr: "persist_raw_read i p (pc_offset k 0) PC_SLOT_SIZE = (p1, r)" by fastforce
  note rd = raw_read [OF assms(1) code_region_bounds [OF assms(4)] rr]
  have d1: "dev_added p1" using rd(2) assms(2) by auto
  have ne: "\<nexists>e. r = Inl e"
  proof
    assume "\<exists>e. r = Inl e"
    then obtain e where "r = Inl e" by blast
    then have "e = ESP_OK" using assms(4-6) rr
      by (cases "occupied (slots ctx ! k)") (simp_all add: persist_codes_save_def Let_def)
    with \<open>r = Inl e\<close> rr show False by (auto simp: persist_raw_read_def split: if_splits prod.splits option.splits)
  qed
  then obtain img where r: "r = Inr img" by (cases r) auto
  have img: "img = code_region (mem (bus p)) k" using rd(3) r by (simp add: code_region_def)
  obtain h gen where hg: "pc_slot_write_half img = (h, gen)" by fastforce
  have h: "h < 2" using write_half_lt [of img] hg by simp
  have wf: "pc_wf ?c" using assms(3,4) by (intro code_of_slot_wf) (simp add: ac_inv_def)
  let ?rec = "pc_encode ?c gen" and ?at = "pc_offset k h"
  have lr: "length ?rec = PC_REC_SIZE" using wf by (rule length_pc_encode)
  have al: "?at mod PAGE_SIZE = 0" "?at + PC_REC_SIZE \<le> EEPROM_SIZE"
    using h assms(4) by (auto simp: pc_offset_def EEPROM_SIZE_def less_2_cases_iff)
  obtain p2 err where w1: "persist_raw_write i p1 ?at (take PAGE_SIZE ?rec) = (p2, err)" by fastforce
  have sv: "(if err = ESP_OK then persist_raw_write i p2 (?at + PAGE_SIZE) (take PAGE_SIZE (drop PAGE_SIZE ?rec)) else (p2, err)) = (q, ESP_OK)"
    using assms(4-6) rr r hg w1
    by (cases "occupied (slots ctx ! k)") (simp_all add: persist_codes_save_def Let_def)
  then have ok: "err = ESP_OK" by (auto split: if_splits)
  with sv have w2: "persist_raw_write i p2 (?at + PAGE_SIZE) (take PAGE_SIZE (drop PAGE_SIZE ?rec)) = (q, ESP_OK)" by simp
  have l1: "?at + length (take PAGE_SIZE ?rec) \<le> EEPROM_SIZE" "?at mod PAGE_SIZE + length (take PAGE_SIZE ?rec) \<le> PAGE_SIZE"
    using al lr by simp_all
  note f1 = raw_write_full [OF assms(1) l1 w1 [unfolded ok] d1]
  have l2: "?at + PAGE_SIZE + length (take PAGE_SIZE (drop PAGE_SIZE ?rec)) \<le> EEPROM_SIZE"
    "(?at + PAGE_SIZE) mod PAGE_SIZE + length (take PAGE_SIZE (drop PAGE_SIZE ?rec)) \<le> PAGE_SIZE"
    using al lr by simp_all
  note f2 = raw_write_full [OF assms(1) l2 w2 f1(2)]
  have "take PAGE_SIZE ?rec @ take PAGE_SIZE (drop PAGE_SIZE ?rec) = ?rec"
    using take_add [of PAGE_SIZE PAGE_SIZE ?rec] lr by simp
  then have m: "mem (bus q) = blit ?at ?rec (mem (bus p))"
    unfolding f2(1) f1(1) rd(1) [symmetric] using al(2) lr lm
    by (subst blit_twice) simp_all
  note cw = code_write [OF lm lr assms(4) h]
  show "\<exists>gen. pc_slot_read (code_region (mem (bus q)) k) = Some (?c, gen)"
    unfolding m cw(1) using slot_write_new [OF length_code_region [OF lm assms(4)] wf hg [unfolded img]] by blast
  show "code_region (mem (bus q)) j = code_region (mem (bus p)) j" if "j < PC_SLOTS" "j \<noteq> k" for j
    unfolding m using cw(2) [OF that] .
  show "ring_of (mem (bus q)) = ring_of (mem (bus p))" unfolding m by (rule cw(3))
  show "dev_added q" by (rule f2(2))
  show "pcur q = pcur p" using rd(2) f1(3) f2(3) by auto
qed


text \<open>What loading makes of one slot: the stored code, or what was in the table.\<close>

definition restored :: "pc_code \<Rightarrow> ac_slot" where
  "restored c = \<lparr>occupied = True, transient = False, slot_id = (take AC_ID_LEN (pc_id c))[AC_ID_LEN - 1 := NUL],
     slot_hash = take AC_HASH_LEN (pc_hash c), slot_from = uint (pc_from c), slot_until = uint (pc_until c)\<rparr>"

definition loaded_slot :: "u8 list \<Rightarrow> ac_slot \<Rightarrow> ac_slot" where
  "loaded_slot region s =
     (case pc_slot_read region of Some (c, gen) \<Rightarrow> if pc_occupied c then restored c else s | None \<Rightarrow> s)"

text \<open>One round of the loop: a slot that cannot be read or holds no code stays as it is.\<close>

lemma load_slot_any:
  assumes "eeprom_bus i mem" "k < PC_SLOTS" "load_slot i k (p, ctx, n) = (p', ctx', n')"
  shows "mem (bus p') = mem (bus p)" "\<exists>b. p' = p\<lparr>bus := b\<rparr>" "\<exists>xs. ctx' = ctx\<lparr>slots := xs\<rparr>"
    "slots ctx' \<in> {slots ctx, (slots ctx)[k := loaded_slot (code_region (mem (bus p)) k) (slots ctx ! k)]}"
proof -
  obtain p1 r where rr: "persist_raw_read i p (pc_offset k 0) PC_SLOT_SIZE = (p1, r)" by fastforce
  note rd = raw_read [OF assms(1) code_region_bounds [OF assms(2)] rr]
  have r: "r = Inr x \<Longrightarrow> x = code_region (mem (bus p)) k" for x using rd(3) [of x] by (simp add: code_region_def)
  have "ctx' = ctx \<and> p' = p1 \<or> (\<exists>x. r = Inr x \<and> p' = p1 \<and> ctx' = ctx\<lparr>slots := (slots ctx)[k := loaded_slot x (slots ctx ! k)]\<rparr>)"
    using assms(2,3) rr
    by (cases r) (auto simp: load_slot_def loaded_slot_def pc_apply_def restored_def split: option.splits if_splits)
  then show "mem (bus p') = mem (bus p)" "\<exists>b. p' = p\<lparr>bus := b\<rparr>" "\<exists>xs. ctx' = ctx\<lparr>slots := xs\<rparr>"
    "slots ctx' \<in> {slots ctx, (slots ctx)[k := loaded_slot (code_region (mem (bus p)) k) (slots ctx ! k)]}"
    using rd(1,2) r by (auto intro: exI [of _ "slots ctx"])
qed

lemma load_slot_spec:
  assumes "eeprom_bus i mem" "write_cycles i busy" "ready busy p" "k < PC_SLOTS"
    "load_slot i k (p, ctx, n) = (p', ctx', n')"
  shows "mem (bus p') = mem (bus p) \<and> ready busy p' \<and>
    slots ctx' = (slots ctx)[k := loaded_slot (code_region (mem (bus p)) k) (slots ctx ! k)]"
proof -
  obtain b x where rr: "persist_raw_read i p (pc_offset k 0) PC_SLOT_SIZE = (p\<lparr>bus := b\<rparr>, Inr x)" "ready busy (p\<lparr>bus := b\<rparr>)"
    by (rule raw_read_ready [OF assms(2,3)])
  note rd = raw_read [OF assms(1) code_region_bounds [OF assms(4)] rr(1)]
  have "x = code_region (mem (bus p)) k" using rd(3) [of x] by (simp add: code_region_def)
  then show ?thesis
    using assms(4,5) rd(1) rr
    by (auto simp: load_slot_def loaded_slot_def pc_apply_def restored_def split: option.splits if_splits)
qed

lemma load_slots_spec:
  assumes "eeprom_bus i mem" "write_cycles i busy" "ready busy p" "distinct ks" "set ks \<subseteq> {..<PC_SLOTS}"
    "length (slots ctx) = AC_MAX_SLOTS" "fold (load_slot i) ks (p, ctx, n) = (p', ctx', n')"
  shows "ready busy p'"
    "k < PC_SLOTS \<Longrightarrow> slots ctx' ! k = (if k \<in> set ks then loaded_slot (code_region (mem (bus p)) k) (slots ctx ! k) else slots ctx ! k)"
proof -
  have "ready busy p' \<and> (k < PC_SLOTS \<longrightarrow>
      slots ctx' ! k = (if k \<in> set ks then loaded_slot (code_region (mem (bus p)) k) (slots ctx ! k) else slots ctx ! k))"
    using assms
  proof (induction ks arbitrary: p ctx n)
    case (Cons j ks)
    obtain p1 ctx1 n1 where l: "load_slot i j (p, ctx, n) = (p1, ctx1, n1)" by (cases "load_slot i j (p, ctx, n)") auto
    have j: "j < PC_SLOTS" using Cons.prems(5) by simp
    note s = load_slot_spec [OF Cons.prems(1-3) j l]
    have "ready busy p' \<and> (k < PC_SLOTS \<longrightarrow>
      slots ctx' ! k = (if k \<in> set ks then loaded_slot (code_region (mem (bus p1)) k) (slots ctx1 ! k) else slots ctx1 ! k))"
      using Cons.prems s l by (intro Cons.IH) auto
    then show ?case using s Cons.prems(4,6) by (cases "k = j") auto
  qed simp
  then show "ready busy p'"
    "k < PC_SLOTS \<Longrightarrow> slots ctx' ! k = (if k \<in> set ks then loaded_slot (code_region (mem (bus p)) k) (slots ctx ! k) else slots ctx ! k)"
    by blast+
qed

text \<open>Saving a slot of the table on an idle chip.\<close>

lemma codes_save_ready:
  assumes "write_cycles i busy" "ready busy p" "k < PC_SLOTS"
  shows "snd (persist_codes_save i p ctx (int k)) = ESP_OK" "ready busy (fst (persist_codes_save i p ctx (int k)))"
proof -
  have "snd (persist_codes_save i p ctx (int k)) = ESP_OK \<and> ready busy (fst (persist_codes_save i p ctx (int k)))"
  proof (cases "occupied (slots ctx ! k) \<and> transient (slots ctx ! k)")
    case True
    then show ?thesis using assms(2,3) by (simp add: persist_codes_save_def)
  next
    case False
    obtain b img where r: "persist_raw_read i p (pc_offset k 0) PC_SLOT_SIZE = (p\<lparr>bus := b\<rparr>, Inr img)" "ready busy (p\<lparr>bus := b\<rparr>)"
      by (rule raw_read_ready [OF assms(1,2)])
    obtain h gen where hg: "pc_slot_write_half img = (h, gen)" by fastforce
    let ?rec = "pc_encode (code_of_slot (slots ctx ! k)) gen" and ?at = "pc_offset k h"
    obtain p2 err where w: "persist_raw_write i (p\<lparr>bus := b\<rparr>) ?at (take PAGE_SIZE ?rec) = (p2, err)" by fastforce
    have "length (take PAGE_SIZE ?rec) \<le> PAGE_SIZE" "length (take PAGE_SIZE (drop PAGE_SIZE ?rec)) \<le> PAGE_SIZE" by simp_all
    note l = this
    from raw_write_ready [OF assms(1) r(2) l(1), of ?at] w have e: "err = ESP_OK" "ready busy p2" by simp_all
    from raw_write_ready [OF assms(1) e(2) l(2), of "?at + PAGE_SIZE"] show ?thesis
      using False r(1) hg w e(1) assms(3) by (cases "occupied (slots ctx ! k)") (simp_all add: persist_codes_save_def Let_def)
  qed
  then show "snd (persist_codes_save i p ctx (int k)) = ESP_OK" "ready busy (fst (persist_codes_save i p ctx (int k)))" by blast+
qed

text \<open>
  What may be on the chip for the table loaded from it to be well formed: every record a boot would
  take has an id and a window that is not empty, and no two have the same id.  Each code the
  program stores has such an id and window; the boot checks neither that nor that ids differ.
\<close>

definition stored_at :: "u8 list \<Rightarrow> nat \<Rightarrow> ac_slot option" where
  "stored_at img k =
     (case pc_slot_read (code_region img k) of
        None \<Rightarrow> None
      | Some (c, gen) \<Rightarrow> if pc_occupied c then Some (restored c) else None)"

definition chip_codes_ok :: "u8 list \<Rightarrow> bool" where
  "chip_codes_ok img \<longleftrightarrow>
     (\<forall>k<PC_SLOTS. case stored_at img k of None \<Rightarrow> True
        | Some s \<Rightarrow> cstr (slot_id s) \<noteq> [] \<and> slot_from s < slot_until s) \<and>
     (\<forall>j<PC_SLOTS. \<forall>k<PC_SLOTS. j \<noteq> k \<longrightarrow> (case (stored_at img j, stored_at img k) of
          (Some s, Some t) \<Rightarrow> cstr (slot_id s) \<noteq> cstr (slot_id t)
        | _ \<Rightarrow> True))"

lemma loaded_slot_stored: "loaded_slot (code_region img k) s = (case stored_at img k of None \<Rightarrow> s | Some t \<Rightarrow> t)"
  by (auto simp: loaded_slot_def stored_at_def split: option.split)

lemma stored_at_shape:
  assumes "length img = EEPROM_SIZE" "k < PC_SLOTS" "stored_at img k = Some s"
  shows "occupied s" "\<not> transient s" "length (slot_id s) = AC_ID_LEN" "slot_id s ! (AC_ID_LEN - 1) = NUL"
    "length (slot_hash s) = AC_HASH_LEN"
proof -
  have d: "length (pc_id c) = AC_ID_LEN \<and> length (pc_hash c) = AC_HASH_LEN"
    if "pc_decode r = Some (c, gen)" "length r = PC_REC_SIZE" for r c gen
    using that by (auto simp: pc_decode_def zero_code_def Let_def split: if_splits)
  have l: "length (code_region img k) = PC_SLOT_SIZE" by (rule length_code_region [OF assms(1,2)])
  obtain c gen where c: "pc_slot_read (code_region img k) = Some (c, gen)" "s = restored c"
    using assms(3) by (auto simp: stored_at_def split: option.splits if_splits)
  have "length (take PC_REC_SIZE (code_region img k)) = PC_REC_SIZE"
    "length (take PC_REC_SIZE (drop PC_REC_SIZE (code_region img k))) = PC_REC_SIZE" using l by simp_all
  then have "length (pc_id c) = AC_ID_LEN \<and> length (pc_hash c) = AC_HASH_LEN"
    using c(1) d by (auto simp: pc_slot_read_def split: option.splits if_splits)
  then show "occupied s" "\<not> transient s" "length (slot_id s) = AC_ID_LEN" "slot_id s ! (AC_ID_LEN - 1) = NUL"
    "length (slot_hash s) = AC_HASH_LEN" by (simp_all add: c(2) restored_def)
qed

definition from_chip :: "u8 list \<Rightarrow> ac_ctx \<Rightarrow> bool" where
  "from_chip img ctx \<longleftrightarrow> length (slots ctx) = AC_MAX_SLOTS \<and>
     (\<forall>k<AC_MAX_SLOTS. slots ctx ! k = zero_slot \<or> stored_at img k = Some (slots ctx ! k))"

lemma from_chip_good:
  assumes "length img = EEPROM_SIZE" "chip_codes_ok img" "from_chip img ctx"
  shows "ac_good ctx"
proof -
  have len: "length (slots ctx) = AC_MAX_SLOTS" using assms(3) by (simp add: from_chip_def)
  have at: "slots ctx ! k = zero_slot \<or> stored_at img k = Some (slots ctx ! k)" if "k < AC_MAX_SLOTS" for k
    using assms(3) that by (simp add: from_chip_def)
  have ok: "cstr (slot_id (slots ctx ! k)) \<noteq> []" "slot_from (slots ctx ! k) < slot_until (slots ctx ! k)"
    "\<not> transient (slots ctx ! k)" "stored_at img k = Some (slots ctx ! k)"
    if "k < AC_MAX_SLOTS" "occupied (slots ctx ! k)" for k
  proof -
    from at [OF that(1)] that(2) show st: "stored_at img k = Some (slots ctx ! k)" by auto
    with assms(2) that(1) show "cstr (slot_id (slots ctx ! k)) \<noteq> []" "slot_from (slots ctx ! k) < slot_until (slots ctx ! k)"
      unfolding chip_codes_ok_def by fastforce+
    show "\<not> transient (slots ctx ! k)" by (rule stored_at_shape(2) [OF assms(1) that(1) st])
  qed
  have wf: "slot_wf (slots ctx ! k)" if k: "k < AC_MAX_SLOTS" for k
    using at [OF k]
  proof
    assume "stored_at img k = Some (slots ctx ! k)"
    with stored_at_shape [OF assms(1) k this] ok(1) [OF k] show ?thesis by (simp add: slot_wf_def)
  qed simp
  have "ids_unique (slots ctx)"
  proof -
    have "j = k" if "j < AC_MAX_SLOTS" "k < AC_MAX_SLOTS" "occupied (slots ctx ! j)" "occupied (slots ctx ! k)"
      "cstr (slot_id (slots ctx ! j)) = cstr (slot_id (slots ctx ! k))" for j k
    proof (rule ccontr)
      assume "j \<noteq> k"
      with assms(2) that(1,2) have "case (stored_at img j, stored_at img k) of (Some s, Some t) \<Rightarrow> cstr (slot_id s) \<noteq> cstr (slot_id t) | _ \<Rightarrow> True"
        unfolding chip_codes_ok_def by blast
      with ok(4) that show False by simp
    qed
    then show ?thesis using len by (simp add: ids_unique_def)
  qed
  then have inv: "ac_inv ctx" using len wf by (auto simp: ac_inv_def all_set_conv_all_nth)
  moreover have "windows_ok (ac_table ctx)"
    using ok(2,3) by (auto simp: windows_ok_def ac_table_Some [OF inv] names_slot_def entry_of_def)
  ultimately show ?thesis by (simp add: ac_good_def)
qed

text \<open>Loading a chip into an empty table, whichever reads fail.\<close>

lemma load_slots_from_chip:
  assumes "eeprom_bus i mem" "set ks \<subseteq> {..<PC_SLOTS}" "fold (load_slot i) ks (p, ctx, n) = (p', ctx', n')"
    "from_chip (mem (bus p)) ctx"
  shows "from_chip (mem (bus p)) ctx'"
  using assms(2-4)
proof (induction ks arbitrary: p ctx n)
  case (Cons k ks)
  obtain p1 ctx1 n1 where l: "load_slot i k (p, ctx, n) = (p1, ctx1, n1)" by (rule prod_cases3)
  have k: "k < PC_SLOTS" using Cons.prems(1) by simp
  note s = load_slot_any [OF assms(1) k l]
  have "from_chip (mem (bus p)) ctx1"
    using s(4) Cons.prems(3) k
    by (cases "stored_at (mem (bus p)) k") (auto simp: from_chip_def loaded_slot_stored nth_list_update; blast)+
  then show ?case using Cons.IH [of p1 ctx1 n1] Cons.prems(1,2) l s(1) by simp
qed simp

lemma read_ring_keeps:
  "eeprom_bus i mem \<Longrightarrow> \<forall>off\<in>set offs. off + READ_CHUNK \<le> EEPROM_SIZE \<Longrightarrow> mem (bus (fst (read_ring i p offs img))) = mem (bus p)"
proof (induction offs arbitrary: p img)
  case (Cons off offs)
  obtain q r where rr: "persist_raw_read i p off READ_CHUNK = (q, r)" by fastforce
  have "mem (bus q) = mem (bus p)" using Cons.prems by (intro raw_read(1) [OF _ _ rr]) simp_all
  then show ?case using rr Cons.IH [OF Cons.prems(1)] Cons.prems(2) by (cases r) simp_all
qed simp

lemma init_keeps_mem:
  assumes "eeprom_bus i mem"
  shows "mem (bus (fst (persist_init i ok p))) = mem (bus p)"
proof -
  let ?offs = "map (\<lambda>k. k * READ_CHUNK) [0..<PR_SLOTS * PR_SLOT_SIZE div READ_CHUNK]"
  obtain q r where rr: "read_ring i (p\<lparr>dev_added := True\<rparr>) ?offs (replicate (PR_SLOTS * PR_SLOT_SIZE) 0) = (q, r)" by fastforce
  have "\<forall>off\<in>set ?offs. off + READ_CHUNK \<le> EEPROM_SIZE" by (auto simp: EEPROM_SIZE_def)
  from read_ring_keeps [OF assms this, of "p\<lparr>dev_added := True\<rparr>" "replicate (PR_SLOTS * PR_SLOT_SIZE) 0"]
  have "mem (bus q) = mem (bus p)" by (simp only: rr fst_conv) simp
  then show ?thesis unfolding persist_init_def Let_def rr by (auto split: sum.split prod.split option.split)
qed

text \<open>A slot that was written is the slot that is loaded.\<close>

lemma loaded_saved:
  assumes "slot_wf s" "\<not> (occupied s \<and> transient s)" "0 \<le> slot_from s" "slot_from s < 2 ^ 32"
    "0 \<le> slot_until s" "slot_until s < 2 ^ 32" "pc_slot_read region = Some (code_of_slot s, gen)"
  shows "loaded_slot region t = (if occupied s then s else t)"
proof (cases "occupied s")
  case True
  have "take AC_ID_LEN (slot_id s) = slot_id s" "(slot_id s)[8 := NUL] = slot_id s" "take AC_HASH_LEN (slot_hash s) = slot_hash s"
    using assms(1) list_update_id [of "slot_id s" 8] by (simp_all add: slot_wf_def)
  then have "restored (code_of_slot s) = s"
    using True assms(2-6) by (simp add: restored_def code_of_slot_def zero_code_def uint_word_of_int)
  then show ?thesis using True assms(7) by (simp add: loaded_slot_def code_of_slot_def)
next
  case False
  then show ?thesis using assms(7) by (simp add: loaded_slot_def code_of_slot_def zero_code_def)
qed

text \<open>A code that was written through is the code after a power cut.  Once saving a table slot
  has reported success, loading the chip into a fresh table puts the same id, hash and window
  back into the same slot; a slot that was free when it was saved stays free, whatever code the
  chip held there before.\<close>

theorem codes_survive_reboot:
  assumes "eeprom_bus i mem" "write_cycles i busy" "ready busy p" "ac_inv ctx" "k < PC_SLOTS"
    "\<not> (occupied (slots ctx ! k) \<and> transient (slots ctx ! k))"
    "0 \<le> slot_from (slots ctx ! k)" "slot_from (slots ctx ! k) < 2 ^ 32"
    "0 \<le> slot_until (slots ctx ! k)" "slot_until (slots ctx ! k) < 2 ^ 32"
    "persist_codes_save i p ctx (int k) = (q, ESP_OK)"
    "persist_codes_load i ((persist_statics (bus q))\<lparr>dev_added := True\<rparr>) (ac_init m l) = (r, ctx', n)"
  shows "slots ctx' ! k = (if occupied (slots ctx ! k) then slots ctx ! k else zero_slot)"
proof -
  let ?s = "slots ctx ! k"
  obtain gen where g: "pc_slot_read (code_region (mem (bus q)) k) = Some (code_of_slot ?s, gen)"
    using save_code(1) [OF assms(1) _ assms(4-6,11)] assms(3) by (auto simp: ready_def)
  have wf: "slot_wf ?s" using assms(4,5) by (simp add: ac_inv_def)
  have z: "slots (ac_init m l) ! k = zero_slot" "length (slots (ac_init m l)) = AC_MAX_SLOTS"
    using assms(5) by (simp_all add: ac_init_def)
  have "fold (load_slot i) [0..<PC_SLOTS] ((persist_statics (bus q))\<lparr>dev_added := True\<rparr>, ac_init m l, 0) = (r, ctx', n)"
    using assms(12) by (simp add: persist_codes_load_def)
  moreover have "ready busy ((persist_statics (bus q))\<lparr>dev_added := True\<rparr>)"
    using codes_save_ready(2) [OF assms(2,3,5), of ctx] assms(11) by (simp add: ready_def persist_statics_def)
  ultimately
  have "slots ctx' ! k = loaded_slot (code_region (mem (bus q)) k) zero_slot"
    using load_slots_spec(2) [OF assms(1,2) _ _ _ z(2) _ assms(5), of _ "[0..<PC_SLOTS]"] assms(5) z(1)
    by (simp add: persist_statics_def atLeast0LessThan)
  also have "\<dots> = (if occupied ?s then ?s else zero_slot)"
    using wf assms(6-10) g by (rule loaded_saved)
  finally show ?thesis .
qed


definition demo_table_ctx :: ac_ctx where
  "demo_table_ctx = foldl ac_step (ac_init 2 300) [Upsert ''0000002a'' (replicate 32 7) 100 200]"

lemma demo_table_ctx_slots:
  "slots demo_table_ctx ! 0 = \<lparr>occupied = True, transient = False, slot_id = ''0000002a'' @ [NUL],
     slot_hash = replicate 32 7, slot_from = 100, slot_until = 200\<rparr>"
  by code_simp

lemma demo_table_ctx_inv: "ac_inv demo_table_ctx"
  using ac_run.run_inv [OF ac_good_init, of "[Upsert ''0000002a'' (replicate 32 7) 100 200]" 2 300]
  by (simp add: demo_table_ctx_def ac_good_def id_fits_def)

theorem codes_survive_reboot_witness:
  "\<exists>q. snd (persist_codes_save demo_bus demo_store demo_table_ctx 0) = ESP_OK \<and>
     fst (persist_codes_save demo_bus demo_store demo_table_ctx 0) = q \<and>
     slots (fst (snd (persist_codes_load demo_bus ((persist_statics (bus q))\<lparr>dev_added := True\<rparr>) (ac_init 2 300)))) ! 0
       = \<lparr>occupied = True, transient = False, slot_id = ''0000002a'' @ [NUL],
          slot_hash = replicate 32 7, slot_from = 100, slot_until = 200\<rparr>"
proof -
  obtain q where q: "persist_codes_save demo_bus demo_store demo_table_ctx (int 0) = (q, ESP_OK)"
    using codes_save_ready(1) [OF demo_cycles demo_store_ready, of 0 demo_table_ctx] by (metis prod.collapse zero_less_numeral)
  obtain r ctx' n where l: "persist_codes_load demo_bus ((persist_statics (bus q))\<lparr>dev_added := True\<rparr>) (ac_init 2 300) = (r, ctx', n)"
    by (cases "persist_codes_load demo_bus ((persist_statics (bus q))\<lparr>dev_added := True\<rparr>) (ac_init 2 300)") auto
  have "slots ctx' ! 0 = slots demo_table_ctx ! 0"
    using codes_survive_reboot [OF demo_bus_ok demo_cycles demo_store_ready demo_table_ctx_inv _ _ _ _ _ _ q l]
    by (simp add: demo_table_ctx_slots)
  then show ?thesis using q l by (simp add: demo_table_ctx_slots)
qed

end
