(* ===== verification/Sync_Logic.thy ===== *)
theory Sync_Logic
  imports Access_Core
begin

text \<open>
  \<^verbatim>\<open>components/code_sync/sync_logic.c\<close>: when to poll the backend for the code set,
  which sets are accepted, and how an accepted one replaces the guest codes of
  the table.  The table is used through the interface \<open>code_table\<close>.
\<close>

section \<open>Data\<close>

abbreviation SYNC_PERIOD_MS :: u32 where "SYNC_PERIOD_MS \<equiv> 900000"
abbreviation SYNC_STALE_MS :: u32 where "SYNC_STALE_MS \<equiv> 3600000"
abbreviation SYNC_MAX_ENTRIES :: nat where "SYNC_MAX_ENTRIES \<equiv> 8"

record sync_entry =
  entry_id :: string         \<comment> \<open>\<open>char id[AC_ID_LEN]\<close>\<close>
  entry_hash :: "u8 list"    \<comment> \<open>\<open>uint8_t hash[AC_HASH_LEN]\<close>\<close>
  entry_from :: i64
  entry_until :: i64

record sync_set =
  set_generation :: u64
  set_count :: nat
  entries :: "sync_entry list"   \<comment> \<open>\<open>entries[SYNC_MAX_ENTRIES]\<close>\<close>

datatype sync_result = SYNC_APPLIED | SYNC_UNCHANGED | SYNC_STALE | SYNC_BAD_ENTRY | SYNC_OVERFLOWED

record sync_ctx =
  generation :: u64
  last_ok_ms :: u32
  ever_synced :: bool
  next_due_ms :: u32


section \<open>Operations\<close>

definition sync_init :: "u64 \<Rightarrow> u32 \<Rightarrow> sync_ctx" where
  "sync_init stored_generation now_ms = \<lparr>generation = stored_generation, last_ok_ms = 0,
     ever_synced = False, next_due_ms = now_ms\<rparr>"

definition sync_due :: "sync_ctx \<Rightarrow> u32 \<Rightarrow> bool" where
  "sync_due ctx now_ms \<longleftrightarrow> 0 \<le> sint (now_ms - next_due_ms ctx)"

definition schedule_next :: "sync_ctx \<Rightarrow> u32 \<Rightarrow> sync_ctx" where
  "schedule_next ctx now_ms = ctx\<lparr>next_due_ms := now_ms + SYNC_PERIOD_MS\<rparr>"

definition sync_failed :: "sync_ctx \<Rightarrow> u32 \<Rightarrow> sync_ctx" where
  "sync_failed ctx now_ms = schedule_next ctx now_ms"

definition sync_unchanged :: "sync_ctx \<Rightarrow> u32 \<Rightarrow> sync_ctx" where
  "sync_unchanged ctx now_ms = schedule_next (ctx\<lparr>last_ok_ms := now_ms, ever_synced := True\<rparr>) now_ms"

definition id_is_backend :: "string \<Rightarrow> bool" where
  "id_is_backend cid \<longleftrightarrow> (if length (cstr cid) \<noteq> AC_ID_LEN - 1 then False
                          else list_all is_lower_hex (cstr cid))"

text \<open>What the replacing loop does to a guest slot: it frees the slot and wipes its hash
  and its id, and leaves the window and the kind where they are.\<close>

definition drop_guest :: "ac_slot \<Rightarrow> ac_slot" where
  "drop_guest s = (if occupied s \<and> \<not> transient s
     then s\<lparr>occupied := False, slot_hash := replicate AC_HASH_LEN 0, slot_id := (slot_id s)[0 := NUL]\<rparr>
     else s)"

definition entry_refused :: "sync_entry \<Rightarrow> bool" where
  "entry_refused e \<longleftrightarrow> (if \<not> id_is_backend (entry_id e) then True else entry_until e < entry_from e)"

fun upsert_loop :: "ac_ctx \<Rightarrow> sync_entry list \<Rightarrow> bool \<Rightarrow> ac_ctx \<times> bool" where
  "upsert_loop table [] overflowed = (table, overflowed)"
| "upsert_loop table (e # es) overflowed =
     (let (table, idx) = ac_upsert table (Some (entry_id e)) (Some (entry_hash e))
                           (entry_from e) (entry_until e)
      in upsert_loop table es (if idx = None then True else overflowed))"

definition sync_apply ::
  "sync_ctx \<Rightarrow> ac_ctx \<Rightarrow> sync_set option \<Rightarrow> u32 \<Rightarrow> sync_ctx \<times> ac_ctx \<times> sync_result" where
  "sync_apply ctx table set_ptr now_ms =
     (case set_ptr of
        None \<Rightarrow> (ctx, table, SYNC_BAD_ENTRY)
      | Some st \<Rightarrow>
          if set_count st > SYNC_MAX_ENTRIES then (ctx, table, SYNC_BAD_ENTRY)
          else if set_generation st = generation ctx \<and> ever_synced ctx
          then (sync_unchanged ctx now_ms, table, SYNC_UNCHANGED)
          else if set_generation st < generation ctx then (ctx, table, SYNC_STALE)
          else if list_ex entry_refused (take (set_count st) (entries st))
          then (ctx, table, SYNC_BAD_ENTRY)
          else
            (let table = table\<lparr>slots := map drop_guest (slots table)\<rparr>;
                 (table, overflowed) = upsert_loop table (take (set_count st) (entries st)) False;
                 ctx = ctx\<lparr>generation := set_generation st, last_ok_ms := now_ms, ever_synced := True\<rparr>;
                 ctx = schedule_next ctx now_ms
             in (ctx, table, if overflowed then SYNC_OVERFLOWED else SYNC_APPLIED)))"

definition sync_is_stale :: "sync_ctx \<Rightarrow> u32 \<Rightarrow> bool" where
  "sync_is_stale ctx now_ms \<longleftrightarrow>
     (if \<not> ever_synced ctx then True else now_ms - last_ok_ms ctx > SYNC_STALE_MS)"


section \<open>Pacing\<close>

text \<open>The outcomes that arm the next poll: a failure, and an answer that counts as a sync.\<close>

fun sync_outcome :: "sync_ctx \<Rightarrow> bool \<Rightarrow> u32 \<Rightarrow> sync_ctx" where
  "sync_outcome ctx False t = sync_failed ctx t"
| "sync_outcome ctx True t = sync_unchanged ctx t"

lemma sync_outcome_due [simp]: "next_due_ms (sync_outcome ctx r t) = t + SYNC_PERIOD_MS"
  by (cases r) (simp_all add: sync_failed_def sync_unchanged_def schedule_next_def)

interpretation sync: retry_timer sync_due sync_outcome "\<lambda>_ _. SYNC_PERIOD_MS" "\<lambda>_. True" 900000
  by unfold_locales (simp_all add: sync_due_def)


section \<open>Replacing the guest codes\<close>

text \<open>\<open>upsert\<close> reads its id as a C string.\<close>

lemma upsert_cstr: "upsert ctx (Some cid) h f u tr = upsert ctx (Some (cstr cid)) h f u tr"
proof -
  have "find_by_id ctx (cstr cid) = find_by_id ctx cid" "strncpy_bytes n (cstr cid) = strncpy_bytes n cid" for n
    by (simp_all add: find_by_id_def strncmp_eq_take strncpy_bytes_def)
  then show ?thesis by (cases h) (simp_all add: upsert_def)
qed

text \<open>The entries of a set as bindings of the table.\<close>

definition binding :: "sync_entry \<Rightarrow> string \<times> ac_entry" where
  "binding e = (cstr (entry_id e), (entry_hash e, entry_from e, entry_until e, False))"

definition entry_wf :: "sync_entry \<Rightarrow> bool" where
  "entry_wf e \<longleftrightarrow> length (entry_id e) = AC_ID_LEN \<and> length (entry_hash e) = AC_HASH_LEN"

definition holdable :: "sync_entry \<Rightarrow> bool" where
  "holdable e \<longleftrightarrow> entry_from e < entry_until e"

lemma backend_id_fits: "id_is_backend cid \<Longrightarrow> id_fits (cstr cid)"
  by (auto simp: id_is_backend_def id_fits_def split: if_splits)

lemma binding_good:
  "entry_wf e \<Longrightarrow> \<not> entry_refused e \<Longrightarrow> holdable e \<Longrightarrow> case binding e of (k, b) \<Rightarrow> good_entry k b"
  by (auto simp: binding_def good_entry_def entry_refused_def entry_wf_def holdable_def
      backend_id_fits split: if_splits)

text \<open>The loop is the client \<open>install\<close> of the interface on the entries whose window is
  not empty; the flag also records the others.\<close>

lemma upsert_loop_install:
  "upsert_loop table es ov =
     (fst (ac.install table (map binding (filter holdable es))),
      ov \<or> snd (ac.install table (map binding (filter holdable es))) \<or> (\<exists>e\<in>set es. \<not> holdable e))"
proof (induction es arbitrary: table ov)
  case (Cons e es)
  show ?case
  proof (cases "holdable e")
    case True
    have "ac_put table (cstr (entry_id e)) (entry_hash e, entry_from e, entry_until e, False) =
        (let (t, r) = ac_upsert table (Some (entry_id e)) (Some (entry_hash e)) (entry_from e) (entry_until e)
         in (t, r \<noteq> None))"
      unfolding ac_upsert_def ac_put_def upsert_cstr [of _ "entry_id e"] by simp
    with True show ?thesis by (auto simp: Cons.IH binding_def split_def Let_def)
  next
    case False
    then have "ac_upsert table (Some (entry_id e)) (Some (entry_hash e)) (entry_from e) (entry_until e) =
        (table, None)"
      by (simp add: ac_upsert_def upsert_def holdable_def)
    with False show ?thesis by (simp add: Cons.IH)
  qed
qed simp

text \<open>Freeing the guest slots removes the guest bindings.\<close>

abbreviation dropped :: "ac_ctx \<Rightarrow> ac_ctx" where
  "dropped table \<equiv> table\<lparr>slots := map drop_guest (slots table)\<rparr>"

definition transients :: "(string \<Rightarrow> ac_entry option) \<Rightarrow> string \<Rightarrow> ac_entry option" where
  "transients m k = (case m k of Some (h, f, u, True) \<Rightarrow> Some (h, f, u, True) | _ \<Rightarrow> None)"

lemma first_index_map: "first_index P (map f xs) = first_index (\<lambda>x. P (f x)) xs"
  by (induction xs) auto

lemma drop_guest_names:
  "names_slot k (drop_guest s) \<longleftrightarrow> names_slot k (if occupied s \<and> \<not> transient s then zero_slot else s)"
  by (simp add: drop_guest_def names_slot_def)

lemma dropped_table:
  assumes "ac_inv table"
  shows "ac_table (dropped table) = transients (ac_table table)"
proof -
  let ?P = "\<lambda>s. occupied s \<and> \<not> transient s"
  have "ac_table (dropped table) = ac_table (fst (clear_slots ?P table))"
  proof (rule ext)
    fix k
    have "map_option (\<lambda>i. entry_of (drop_guest (slots table ! i)))
        (first_index (\<lambda>s. names_slot k (if ?P s then zero_slot else s)) (slots table)) =
      map_option (\<lambda>i. entry_of (if ?P (slots table ! i) then zero_slot else slots table ! i))
        (first_index (\<lambda>s. names_slot k (if ?P s then zero_slot else s)) (slots table))"
      using first_index_SomeD [of "\<lambda>s. names_slot k (if ?P s then zero_slot else s)" "slots table"]
      by (fastforce simp: drop_guest_def names_slot_def split: if_splits intro!: option.map_cong0)
    then show "ac_table (dropped table) k = ac_table (fst (clear_slots ?P table)) k"
      using first_index_SomeD(1) [of "\<lambda>s. names_slot k (if ?P s then zero_slot else s)" "slots table"]
      by (cases "first_index (\<lambda>s. names_slot k (if ?P s then zero_slot else s)) (slots table)")
        (simp_all add: ac_table_def clear_slots_def first_index_map drop_guest_names)
  qed
  also have "\<dots> = (\<lambda>k. case ac_table table k of None \<Rightarrow> None
      | Some e \<Rightarrow> if \<not> snd (snd (snd e)) then None else Some e)"
    by (rule ac_table_clear [OF assms]) (simp add: entry_of_def)
  finally show ?thesis
    by (auto simp: fun_eq_iff transients_def split: option.splits bool.splits)
qed

lemma drop_guest_wf: "slot_wf s \<Longrightarrow> slot_wf (drop_guest s)"
  by (simp add: slot_wf_def drop_guest_def)

lemma dropped_inv:
  assumes "ac_inv table"
  shows "ac_inv (dropped table)"
proof -
  have "ids_unique (slots (dropped table))"
    using assms by (auto simp: ac_inv_def ids_unique_def drop_guest_def split: if_splits)
  then show ?thesis using assms by (auto simp: ac_inv_def drop_guest_wf)
qed

lemma transients_sub: "transients m \<subseteq>\<^sub>m m"
  by (auto simp: map_le_def transients_def split: option.splits bool.splits)


text \<open>What an accepted set does.\<close>

definition set_wf :: "sync_set \<Rightarrow> bool" where
  "set_wf st \<longleftrightarrow> length (entries st) = SYNC_MAX_ENTRIES \<and> (\<forall>e\<in>set (entries st). entry_wf e)"

definition set_used :: "sync_set \<Rightarrow> sync_entry list" where
  "set_used st = take (set_count st) (entries st)"

definition set_acceptable :: "sync_ctx \<Rightarrow> sync_set \<Rightarrow> bool" where
  "set_acceptable ctx st \<longleftrightarrow> set_count st \<le> SYNC_MAX_ENTRIES \<and>
     generation ctx \<le> set_generation st \<and> (set_generation st = generation ctx \<longrightarrow> \<not> ever_synced ctx) \<and>
     (\<forall>e\<in>set (set_used st). \<not> entry_refused e)"

definition accepted_ctx :: "sync_ctx \<Rightarrow> sync_set \<Rightarrow> u32 \<Rightarrow> sync_ctx" where
  "accepted_ctx ctx st now_ms = \<lparr>generation = set_generation st, last_ok_ms = now_ms,
     ever_synced = True, next_due_ms = now_ms + SYNC_PERIOD_MS\<rparr>"

text \<open>The bindings of a set that can be held, in the order received.\<close>

abbreviation set_bindings :: "sync_set \<Rightarrow> (string \<times> ac_entry) list" where
  "set_bindings st \<equiv> map binding (filter holdable (set_used st))"

lemma sync_apply_accepted:
  "set_acceptable ctx st \<Longrightarrow> sync_apply ctx table (Some st) now_ms =
     (accepted_ctx ctx st now_ms, fst (ac.install (dropped table) (set_bindings st)),
      if snd (ac.install (dropped table) (set_bindings st)) \<or> (\<exists>e\<in>set (set_used st). \<not> holdable e)
      then SYNC_OVERFLOWED else SYNC_APPLIED)"
  by (simp add: sync_apply_def set_acceptable_def set_used_def not_less list_ex_iff
      upsert_loop_install accepted_ctx_def schedule_next_def Let_def)

lemma sync_apply_refused:
  assumes "\<not> set_acceptable ctx st"
  obtains r where "r \<in> {SYNC_UNCHANGED, SYNC_STALE, SYNC_BAD_ENTRY}"
    "sync_apply ctx table (Some st) now_ms =
      (if r = SYNC_UNCHANGED then sync_unchanged ctx now_ms else ctx, table, r)"
    "r = SYNC_STALE \<Longrightarrow> set_generation st < generation ctx"
proof -
  consider "set_count st > SYNC_MAX_ENTRIES"
    | "set_count st \<le> SYNC_MAX_ENTRIES" "set_generation st = generation ctx" "ever_synced ctx"
    | "set_count st \<le> SYNC_MAX_ENTRIES" "set_generation st < generation ctx"
    | "set_count st \<le> SYNC_MAX_ENTRIES" "generation ctx \<le> set_generation st"
      "set_generation st = generation ctx \<longrightarrow> \<not> ever_synced ctx" "\<exists>e\<in>set (set_used st). entry_refused e"
    using assms unfolding set_acceptable_def not_le by fastforce
  then show ?thesis
    by cases (rule that [of SYNC_BAD_ENTRY] that [of SYNC_UNCHANGED] that [of SYNC_STALE];
        auto simp: sync_apply_def set_used_def list_ex_iff not_less; fail)+
qed

lemma bindings_good:
  "set_wf st \<Longrightarrow> set_acceptable ctx st \<Longrightarrow> \<forall>(k, b)\<in>set (set_bindings st). good_entry k b"
  using binding_good by (fastforce simp: set_wf_def set_acceptable_def set_used_def dest: in_set_takeD)

lemma sync_apply_inv:
  assumes "ac_inv table" "set_wf st"
  shows "ac_inv (fst (snd (sync_apply ctx table (Some st) now_ms)))"
proof (cases "set_acceptable ctx st")
  case True
  then show ?thesis
    using ac.install_inv [OF dropped_inv [OF assms(1)] bindings_good [OF assms(2) True]]
    by (simp add: sync_apply_accepted)
next
  case False
  then show ?thesis by (rule sync_apply_refused [of ctx st table now_ms]) (simp add: assms)
qed

lemma sync_apply_generation:
  "generation (fst (sync_apply ctx table (Some st) now_ms)) =
     (if set_acceptable ctx st then set_generation st else generation ctx)"
proof (cases "set_acceptable ctx st")
  case False
  then show ?thesis
    by (rule sync_apply_refused [of ctx st table now_ms])
      (simp add: sync_unchanged_def schedule_next_def False)
qed (simp add: sync_apply_accepted accepted_ctx_def)


section \<open>Runs\<close>

text \<open>The state the sync task works on, and what it does to it.\<close>

datatype sync_event = Deliver sync_set u32 | Poll_failed u32

fun sync_step :: "sync_ctx \<times> ac_ctx \<Rightarrow> sync_event \<Rightarrow> sync_ctx \<times> ac_ctx" where
  "sync_step s (Deliver st t) = (let (c, a, _) = sync_apply (fst s) (snd s) (Some st) t in (c, a))"
| "sync_step s (Poll_failed t) = (sync_failed (fst s) t, snd s)"

fun sync_legal :: "sync_event \<Rightarrow> bool" where
  "sync_legal (Deliver st t) \<longleftrightarrow> set_wf st"
| "sync_legal (Poll_failed t) \<longleftrightarrow> True"

definition sync_inv :: "u64 \<Rightarrow> sync_ctx \<times> ac_ctx \<Rightarrow> bool" where
  "sync_inv g s \<longleftrightarrow> ac_inv (snd s) \<and> g \<le> generation (fst s)"

interpretation sync_run: machine sync_step "sync_inv g" sync_legal for g
proof unfold_locales
  fix s e assume "sync_inv g s" "sync_legal e"
  then show "sync_inv g (sync_step s e)"
    using sync_apply_inv [of "snd s"] sync_apply_generation [of "fst s" "snd s"]
    by (cases e) (auto simp: sync_inv_def split_def Let_def sync_failed_def schedule_next_def
        set_acceptable_def intro: order.trans)
qed


section \<open>The table after an accepted set\<close>

lemma sync_apply_replaces:
  assumes "ac_inv table" "set_wf st" "set_acceptable ctx st"
    "distinct (map (cstr \<circ> entry_id) (set_used st))"
    "\<forall>e\<in>set (set_used st). transients (ac_table table) (cstr (entry_id e)) = None"
    "sync_apply ctx table (Some st) now_ms = (ctx', table', r)"
    "room = AC_MAX_SLOTS - card (dom (transients (ac_table table)))"
  shows "ac_inv table' \<and>
    ac_table table' = transients (ac_table table) ++ map_of (take room (set_bindings st)) \<and>
    r = (if room < length (set_bindings st) \<or> (\<exists>e\<in>set (set_used st). entry_until e \<le> entry_from e)
         then SYNC_OVERFLOWED else SYNC_APPLIED) \<and>
    generation ctx' = set_generation st \<and> ever_synced ctx' \<and> next_due_ms ctx' = now_ms + SYNC_PERIOD_MS"
proof -
  have "map fst (set_bindings st) = map (cstr \<circ> entry_id) (filter holdable (set_used st))"
    by (simp add: binding_def)
  then have d: "distinct (map fst (set_bindings st))" using assms(4) by (metis distinct_map_filter)
  have fresh: "\<forall>k\<in>fst ` set (set_bindings st). ac_table (dropped table) k = None"
    using assms(5) by (auto simp: dropped_table [OF assms(1)] binding_def)
  note I = ac.install_spec [OF dropped_inv [OF assms(1)] bindings_good [OF assms(2,3)] d fresh]
  have "ac_inv (fst (ac.install (dropped table) (set_bindings st)))"
    by (rule ac.install_inv [OF dropped_inv [OF assms(1)] bindings_good [OF assms(2,3)]])
  moreover have eqs: "ctx' = accepted_ctx ctx st now_ms"
    "table' = fst (ac.install (dropped table) (set_bindings st))"
    "r = (if snd (ac.install (dropped table) (set_bindings st)) \<or> (\<exists>e\<in>set (set_used st). \<not> holdable e)
      then SYNC_OVERFLOWED else SYNC_APPLIED)"
    using assms(6) by (auto simp: sync_apply_accepted [OF assms(3)])
  moreover note I [unfolded dropped_table [OF assms(1)], folded assms(7)]
  ultimately show ?thesis by (simp add: holdable_def not_less accepted_ctx_def)
qed

lemma sync_apply_table:
  assumes "ac_inv table" "set_wf st" "set_acceptable ctx st"
    "distinct (map (cstr \<circ> entry_id) (set_used st))"
    "\<forall>e\<in>set (set_used st). transients (ac_table table) (cstr (entry_id e)) = None"
    "sync_apply ctx table (Some st) now_ms = (ctx', table', r)"
  shows "ac_table table' = transients (ac_table table) ++
    map_of (take (AC_MAX_SLOTS - card (dom (transients (ac_table table)))) (set_bindings st))"
  using sync_apply_replaces [OF assms refl] by blast


section \<open>Properties\<close>

text \<open>C12: an accepted code set replaces the guest codes whole.  The new table is the
  transient codes it held, which stay, and as many of the delivered entries as fit in the order
  received; every other guest code is revoked.  The result is SYNC_OVERFLOWED exactly when the
  entries exceed the room, or when one of them has an empty window, which passes the
  validation of the set but is not held.\<close>

theorem accepted_set_replaces_guests:
  assumes "ac_inv table" "set_wf st" "set_acceptable ctx st"
    "distinct (map (cstr \<circ> entry_id) (set_used st))"
    "\<forall>e\<in>set (set_used st). transients (ac_table table) (cstr (entry_id e)) = None"
    "sync_apply ctx table (Some st) now_ms = (ctx', table', r)"
    "room = AC_MAX_SLOTS - card (dom (transients (ac_table table)))"
  shows "ac_inv table' \<and>
    ac_table table' = transients (ac_table table) ++ map_of (take room (set_bindings st)) \<and>
    r = (if room < length (set_bindings st) \<or> (\<exists>e\<in>set (set_used st). entry_until e \<le> entry_from e)
         then SYNC_OVERFLOWED else SYNC_APPLIED) \<and>
    generation ctx' = set_generation st \<and> ever_synced ctx' \<and> next_due_ms ctx' = now_ms + SYNC_PERIOD_MS"
  using assms by (rule sync_apply_replaces)

text \<open>A table with a guest and a transient code, and a set with two entries, the second
  with an empty window.\<close>

definition guest_table :: ac_ctx where
  "guest_table = foldl ac_step (ac_init 3 300)
     [Upsert ''0000002a'' (replicate 32 7) 100 200, Upsert_transient ''dev1'' (replicate 32 8) 100 200]"

definition demo_entry :: "string \<Rightarrow> u8 \<Rightarrow> i64 \<Rightarrow> i64 \<Rightarrow> sync_entry" where
  "demo_entry cid b f u = \<lparr>entry_id = cid @ [NUL], entry_hash = replicate 32 b, entry_from = f, entry_until = u\<rparr>"

definition demo_set :: sync_set where
  "demo_set = \<lparr>set_generation = 3, set_count = 2, entries =
     demo_entry ''000000b7'' 9 500 600 # demo_entry ''000000b8'' 10 700 700 #
     replicate 6 (demo_entry ''00000000'' 0 0 0)\<rparr>"

lemma guest_table_inv: "ac_inv guest_table"
  using ac_run.run_inv [OF ac_good_init, of "[Upsert ''0000002a'' (replicate 32 7) 100 200,
      Upsert_transient ''dev1'' (replicate 32 8) 100 200]" 3 300]
  by (simp add: guest_table_def ac_good_def id_fits_def)

lemma guest_table_slots: "slots guest_table =
    \<lparr>occupied = True, transient = False, slot_id = ''0000002a'' @ [NUL], slot_hash = replicate 32 7,
      slot_from = 100, slot_until = 200\<rparr> #
    \<lparr>occupied = True, transient = True, slot_id = ''dev1'' @ replicate 5 NUL, slot_hash = replicate 32 8,
      slot_from = 100, slot_until = 200\<rparr> # replicate 3 zero_slot"
  by code_simp

lemma guest_table_transients:
  "transients (ac_table guest_table) = [''dev1'' \<mapsto> (replicate 32 8, 100, 200, True)]"
  by (rule ext) (simp add: transients_def ac_table_def guest_table_slots names_slot_def entry_of_def
      first_index_None eval_nat_numeral)

lemma demo_set_facts:
  "set_wf demo_set" "set_acceptable (sync_init 2 0) demo_set"
  "set_used demo_set = [demo_entry ''000000b7'' 9 500 600, demo_entry ''000000b8'' 10 700 700]"
  by (simp_all add: set_wf_def set_acceptable_def set_used_def demo_set_def entry_wf_def demo_entry_def
      sync_init_def entry_refused_def id_is_backend_def is_lower_hex_def less_eq_char_def)

theorem accepted_set_replaces_guests_witness:
  "ac_table (fst (snd (sync_apply (sync_init 2 0) guest_table (Some demo_set) 0))) =
     [''dev1'' \<mapsto> (replicate 32 8, 100, 200, True), ''000000b7'' \<mapsto> (replicate 32 9, 500, 600, False)] \<and>
   snd (snd (sync_apply (sync_init 2 0) guest_table (Some demo_set) 0)) = SYNC_OVERFLOWED"
proof -
  obtain c t r where eq: "sync_apply (sync_init 2 0) guest_table (Some demo_set) 0 = (c, t, r)"
    by (rule prod_cases3)
  have "distinct (map (cstr \<circ> entry_id) (set_used demo_set))"
    "\<forall>e\<in>set (set_used demo_set). transients (ac_table guest_table) (cstr (entry_id e)) = None"
    by (simp_all add: demo_set_facts guest_table_transients demo_entry_def)
  from accepted_set_replaces_guests [OF guest_table_inv demo_set_facts(1,2) this eq refl]
  show ?thesis
    by (simp add: eq demo_set_facts guest_table_transients demo_entry_def binding_def holdable_def
        map_add_def fun_eq_iff)
qed

text \<open>No replay.  Once the gate holds a generation, then after any run of deliveries, whatever
  their contents, and of failed polls, a set of an older generation changes neither the table nor
  the state, and the generation has not gone back.  A captured set cannot restore a revoked
  code.\<close>

theorem older_set_never_applies:
  assumes "ac_inv table" "list_all sync_legal es" "set_generation st < generation ctx"
    "foldl sync_step (ctx, table) es = (ctx', table')"
  shows "generation ctx \<le> generation ctx' \<and>
    fst (sync_apply ctx' table' (Some st) now_ms) = ctx' \<and>
    fst (snd (sync_apply ctx' table' (Some st) now_ms)) = table' \<and>
    snd (snd (sync_apply ctx' table' (Some st) now_ms)) \<in> {SYNC_STALE, SYNC_BAD_ENTRY}"
proof -
  have "sync_inv (generation ctx) (ctx, table)" using assms(1) by (simp add: sync_inv_def)
  from sync_run.run_inv [OF this assms(2)] have g: "generation ctx \<le> generation ctx'"
    by (simp add: assms(4) sync_inv_def)
  with assms(3) have "set_generation st < generation ctx'" by (rule less_le_trans)
  with g show ?thesis by (auto simp: sync_apply_def)
qed

theorem older_set_never_applies_witness:
  "fst (snd (sync_apply (fst (foldl sync_step (sync_init 4 0, guest_table) [Poll_failed 9]))
     guest_table (Some demo_set) 20)) = guest_table"
  using older_set_never_applies [of guest_table "[Poll_failed 9]" demo_set "sync_init 4 0"
      "sync_failed (sync_init 4 0) 9" guest_table 20] guest_table_inv
  by (simp add: demo_set_def sync_init_def)

text \<open>A set refused as older or as malformed leaves the poll due.  A failed fetch is followed
  by fifteen minutes of silence; a refused set changes nothing, the deadline included, so the sync
  task, which arms no deadline itself in that case, fetches again at its next tick.\<close>

theorem refused_set_stays_due:
  assumes "sync_apply ctx table (Some st) (of_nat t) = (ctx', table', r)" "r \<in> {SYNC_STALE, SYNC_BAD_ENTRY}"
    "sync_due ctx (of_nat t)" "d < 900000"
  shows "table' = table \<and> sync_due ctx' (of_nat t) \<and> \<not> sync_due (sync_failed ctx (of_nat t)) (of_nat (t + d))"
proof -
  have "ctx' = ctx \<and> table' = table"
    using assms(1,2) by (auto simp: sync_apply_def split_def Let_def split: if_splits)
  then show ?thesis
    using assms(3,4) sync.due_iff_waited [of d ctx False t] by simp
qed

theorem refused_set_stays_due_witness:
  "sync_due (fst (sync_apply (sync_init 4 0) guest_table (Some demo_set) (of_nat 0))) (of_nat 0) \<and>
   \<not> sync_due (sync_failed (sync_init 4 0) (of_nat 0)) (of_nat (0 + 899999))"
  using refused_set_stays_due [of "sync_init 4 0" guest_table demo_set 0 "sync_init 4 0" guest_table SYNC_STALE 899999]
  by (simp add: demo_set_def sync_init_def sync_apply_def sync_due_def)

end
