(* ===== verification/Wire_Text.thy ===== *)
theory Wire_Text
  imports Access_Core
begin

text \<open>
  The text helpers that the two delivery formats share: \<^verbatim>\<open>sync_parse.c\<close> and
  \<^verbatim>\<open>tg_proto.c\<close> carry the same hexadecimal decoder, the same constant-time
  comparison and the same loop that splits a line into fields.  A pointer and a
  length are the list of the characters they delimit.
\<close>

section \<open>Operations\<close>

abbreviation LF :: char where "LF \<equiv> CHR 0x0A"
abbreviation CR :: char where "CR \<equiv> CHR 0x0D"

definition is_digit :: "char \<Rightarrow> bool" where
  "is_digit c \<longleftrightarrow> CHR ''0'' \<le> c \<and> c \<le> CHR ''9''"

text \<open>\<open>c - '0'\<close>\<close>

definition digit_value :: "char \<Rightarrow> int" where
  "digit_value c = of_char c - of_char CHR ''0''"

definition hex_nibble :: "char \<Rightarrow> int" where
  "hex_nibble c =
     (if CHR ''0'' \<le> c \<and> c \<le> CHR ''9'' then of_char c - of_char CHR ''0''
      else if CHR ''a'' \<le> c \<and> c \<le> CHR ''f'' then of_char c - of_char CHR ''a'' + 10
      else - 1)"

text \<open>The loop over the output bytes; \<open>None\<close> is the early \<open>return false\<close>.\<close>

fun hex_loop :: "string \<Rightarrow> u8 list option" where
  "hex_loop (h # l # hex) =
     (let hi = hex_nibble h; lo = hex_nibble l
      in if hi < 0 \<or> lo < 0 then None
         else map_option ((#) (word_of_int (push_bit 4 hi OR lo))) (hex_loop hex))"
| "hex_loop _ = Some []"

definition hex_to_bytes :: "string \<Rightarrow> nat \<Rightarrow> u8 list option" where
  "hex_to_bytes hex out_len = (if length hex \<noteq> out_len * 2 then None else hex_loop hex)"

definition ct_equal_text :: "string \<Rightarrow> string \<Rightarrow> nat \<Rightarrow> bool" where
  "ct_equal_text a b n \<longleftrightarrow>
     fold (\<lambda>i diff. diff OR (of_char (a ! i) XOR of_char (b ! i))) [0..<n] (0 :: u32) = 0"

text \<open>The splitting loop: \<open>cur\<close> is the field being read, \<open>fs\<close> are the fields before
  it; one field more than \<open>limit\<close> is an error.\<close>

fun split_loop :: "char \<Rightarrow> nat \<Rightarrow> string \<Rightarrow> string \<Rightarrow> string list \<Rightarrow> string list option" where
  "split_loop sep limit [] cur fs = (if length fs \<ge> limit then None else Some (fs @ [cur]))"
| "split_loop sep limit (c # s) cur fs =
     (if c = sep then
        (if length fs \<ge> limit then None else split_loop sep limit s [] (fs @ [cur]))
      else split_loop sep limit s (cur @ [c]) fs)"

text \<open>\<open>strstr\<close>: the index of the first occurrence.\<close>

fun strstr :: "string \<Rightarrow> string \<Rightarrow> nat option" where
  "strstr [] needle = (if needle = [] then Some 0 else None)"
| "strstr (c # s) needle =
     (if take (length needle) (c # s) = needle then Some 0 else map_option Suc (strstr s needle))"

definition starts_with :: "string \<Rightarrow> string \<Rightarrow> bool" where
  "starts_with line prefix \<longleftrightarrow> length line \<ge> length prefix \<and> take (length prefix) line = prefix"

text \<open>\<open>while (len <= max && s[len] != 0) len++;\<close>\<close>

definition bounded_len :: "nat \<Rightarrow> string \<Rightarrow> nat" where
  "bounded_len max_len s = length (cstr (take (max_len + 1) s))"

text \<open>The line at a pointer and the pointer past it; \<open>None\<close> at the end of the region.\<close>

definition next_line :: "string \<Rightarrow> (string \<times> string) option" where
  "next_line p = (if p = [] then None
     else Some (takeWhile (\<lambda>c. c \<noteq> LF) p, drop 1 (dropWhile (\<lambda>c. c \<noteq> LF) p)))"


text \<open>A bounded read of a terminated text is the text, when it fits.\<close>

lemma bounded_text:
  assumes "bounded_len n buf \<le> n"
  shows "take (bounded_len n buf) buf = cstr buf" "bounded_len n buf = length (cstr buf)"
proof -
  have short: "length (cstr buf) < n + 1"
    using assms by (simp add: bounded_len_def cstr_take min_def split: if_splits)
  have "bounded_len n buf = length (cstr buf)"
    unfolding bounded_len_def cstr_take_self [OF short] ..
  then show "bounded_len n buf = length (cstr buf)" "take (bounded_len n buf) buf = cstr buf"
    by (simp_all add: cstr_def takeWhile_eq_take [symmetric])
qed

lemma bounded_len_plain: "NUL \<notin> set s \<Longrightarrow> length s \<le> n \<Longrightarrow> bounded_len n s = length s"
  by (simp add: bounded_len_def cstr_id)


section \<open>Hexadecimal\<close>

text \<open>The lower-case hexadecimal digits and the text of a byte string.\<close>

definition hex_digit :: "nat \<Rightarrow> char" where
  "hex_digit n = ''0123456789abcdef'' ! n"

definition upper_hex :: "nat \<Rightarrow> char" where
  "upper_hex n = ''0123456789ABCDEF'' ! n"

definition hex_byte :: "u8 \<Rightarrow> string" where
  "hex_byte b = [hex_digit (unat b div 16), hex_digit (unat b mod 16)]"

definition hex_text :: "u8 list \<Rightarrow> string" where
  "hex_text bs = concat (map hex_byte bs)"

definition hex_chars :: string where "hex_chars = ''0123456789abcdef''"

lemma hex_nibble_cases: "0 \<le> hex_nibble c \<longleftrightarrow> c \<in> set hex_chars"
  by (auto simp: hex_nibble_def char_range hex_chars_def)

lemma less_16_cases: "n < (16 :: nat) \<Longrightarrow> n \<in> {0, 1, 2, 3, 4, 5, 6, 7, 8, 9, 10, 11, 12, 13, 14, 15}"
  by simp presburger

lemma hex_nibble_digit: "n < 16 \<Longrightarrow> hex_nibble (hex_digit n) = int n"
  by (drule less_16_cases, elim insertE emptyE)
    (simp_all add: hex_digit_def hex_nibble_def less_eq_char_def)

lemma hex_digit_chars: "n < 16 \<Longrightarrow> hex_digit n \<in> set hex_chars"
  by (simp add: hex_digit_def hex_chars_def del: nth_Cons_numeral set_simps)

lemma nibbles_int:
  assumes "lo < 16"
  shows "push_bit 4 (int hi) OR int lo = int (16 * hi + lo)"
proof -
  have "push_bit 4 (int hi) AND int lo = 0"
  proof (rule bit_eqI)
    fix n
    have "int lo = take_bit 4 (int lo)" using assms by (simp add: take_bit_int_eq_self)
    then have "bit (int lo) n \<Longrightarrow> n < 4" by (metis bit_take_bit_iff)
    then show "bit (push_bit 4 (int hi) AND int lo) n = bit 0 n"
      by (auto simp: bit_simps)
  qed
  then have "push_bit 4 (int hi) OR int lo = push_bit 4 (int hi) + int lo"
    by (simp add: disjunctive_add_eq_or)
  then show ?thesis by (simp add: push_bit_eq_mult)
qed

lemma nibbles_word:
  "hi < 16 \<Longrightarrow> lo < 16 \<Longrightarrow> (word_of_int (push_bit 4 (int hi) OR int lo) :: u8) = of_nat (16 * hi + lo)"
  by (simp only: nibbles_int of_int_of_nat_eq)

lemma hex_loop_text: "hex_loop (hex_text bs) = Some bs"
proof (induction bs)
  case (Cons b bs)
  have "unat b < 256" using unsigned_less [of b, where 'a = nat] by simp
  then have d: "unat b div 16 < 16" by simp
  have "(of_nat (16 * (unat b div 16) + unat b mod 16) :: u8) = b" by simp
  then show ?case
    using Cons d
    by (simp add: hex_text_def hex_byte_def hex_nibble_digit Let_def nibbles_word)
qed (simp add: hex_text_def)

lemma length_hex_text [simp]: "length (hex_text bs) = 2 * length bs"
  by (induction bs) (simp_all add: hex_text_def hex_byte_def)

lemma hex_to_bytes_text: "length bs = n \<Longrightarrow> hex_to_bytes (hex_text bs) n = Some bs"
  by (simp add: hex_to_bytes_def hex_loop_text)

text \<open>Only one text decodes to a byte string: lower case, two digits a byte.\<close>

lemma hex_nibble_inverse: "0 \<le> hex_nibble c \<Longrightarrow> hex_nibble c < 16 \<and> hex_digit (nat (hex_nibble c)) = c"
  unfolding hex_nibble_cases hex_chars_def
  by (auto simp: hex_nibble_def hex_digit_def less_eq_char_def)

lemma hex_loop_Some:
  "hex_loop hex = Some bs \<Longrightarrow> even (length hex) \<Longrightarrow> hex = hex_text bs"
proof (induction hex arbitrary: bs rule: hex_loop.induct)
  case (1 h l hex)
  obtain bs' where b: "0 \<le> hex_nibble h" "0 \<le> hex_nibble l" "hex_loop hex = Some bs'"
    "bs = word_of_int (push_bit 4 (hex_nibble h) OR hex_nibble l) # bs'"
    using "1.prems"(1) by (auto simp: Let_def split: if_splits)
  define hi lo where "hi = nat (hex_nibble h)" and "lo = nat (hex_nibble l)"
  have e: "hex_nibble h = int hi" "hex_nibble l = int lo" using b by (simp_all add: hi_def lo_def)
  have n: "hi < 16" "lo < 16" "hex_digit hi = h" "hex_digit lo = l"
    using hex_nibble_inverse [OF b(1)] hex_nibble_inverse [OF b(2)] by (simp_all add: e)
  have "(word_of_int (push_bit 4 (hex_nibble h) OR hex_nibble l) :: u8) = of_nat (16 * hi + lo)"
    unfolding e by (rule nibbles_word) (use n in simp_all)
  moreover have "unat (of_nat (16 * hi + lo) :: u8) = 16 * hi + lo"
    using n(1,2) by (simp add: unat_of_nat take_bit_nat_eq_self del: of_nat_add of_nat_mult)
  moreover have "(16 * hi + lo) div 16 = hi" "(16 * hi + lo) mod 16 = lo" using n by simp_all
  ultimately have "hex_byte (word_of_int (push_bit 4 (hex_nibble h) OR hex_nibble l)) = [h, l]"
    using n(3,4) by (simp add: hex_byte_def)
  moreover have "hex = hex_text bs'" using "1.IH" [OF refl refl _ b(3)] b(1,2) "1.prems"(2) by simp
  ultimately show ?case by (simp add: b(4) hex_text_def)
qed (auto simp: hex_text_def)

lemma hex_to_bytes_Some: "hex_to_bytes hex n = Some bs \<longleftrightarrow> length bs = n \<and> hex = hex_text bs"
proof
  assume h: "hex_to_bytes hex n = Some bs"
  then have "hex = hex_text bs"
    by (intro hex_loop_Some) (auto simp: hex_to_bytes_def split: if_splits)
  moreover from this have "length bs = n" using h by (auto simp: hex_to_bytes_def split: if_splits)
  ultimately show "length bs = n \<and> hex = hex_text bs" by simp
qed (auto intro: hex_to_bytes_text)


lemma set_hex_text: "set (hex_text bs) \<subseteq> set hex_chars"
proof -
  have "set (hex_byte b) \<subseteq> set hex_chars" for b
  proof -
    have "unat b < 256" using unsigned_less [of b, where 'a = nat] by simp
    then have "hex_digit (unat b div 16) \<in> set hex_chars" "hex_digit (unat b mod 16) \<in> set hex_chars"
      by (intro hex_digit_chars; simp)+
    then show ?thesis by (simp add: hex_byte_def)
  qed
  then show ?thesis by (auto simp: hex_text_def)
qed

text \<open>The digits of a backend id.\<close>

lemma hex_nibble_neg: "hex_nibble c < 0 \<longleftrightarrow> \<not> is_lower_hex c"
  by (auto simp: hex_nibble_def is_lower_hex_def char_range)

lemma lower_hex_chars: "is_lower_hex c \<longleftrightarrow> c \<in> set hex_chars"
  using hex_nibble_cases [of c] hex_nibble_neg [of c] by linarith

lemma backend_no_NUL: "list_all is_lower_hex f \<Longrightarrow> NUL \<notin> set f"
  by (auto simp: list_all_iff is_lower_hex_def less_eq_char_def)

lemma cstr_backend_id: "list_all is_lower_hex f \<Longrightarrow> cstr (f @ [NUL]) = f"
proof -
  assume "list_all is_lower_hex f"
  then have "NUL \<notin> set f" by (auto simp: list_all_iff is_lower_hex_def less_eq_char_def)
  then show ?thesis by (simp add: cstr_append cstr_id)
qed


section \<open>Decimal\<close>

text \<open>The text of a number, and the value of a text of digits.\<close>

definition digit_char :: "nat \<Rightarrow> char" where
  "digit_char n = ''0123456789'' ! n"

fun nat_text :: "nat \<Rightarrow> string" where
  "nat_text n = (if n < 10 then [digit_char n] else nat_text (n div 10) @ [digit_char (n mod 10)])"

declare nat_text.simps [simp del]

definition int_text :: "int \<Rightarrow> string" where
  "int_text v = (if v < 0 then CHR ''-'' # nat_text (nat (- v)) else nat_text (nat v))"

lemma digit_char: "n < 10 \<Longrightarrow> digit_char n \<in> set ''0123456789'' \<and> digit_value (digit_char n) = int n"
proof -
  have "n < 10 \<Longrightarrow> n \<in> {0, 1, 2, 3, 4, 5, 6, 7, 8, 9}" by simp presburger
  then show "n < 10 \<Longrightarrow> ?thesis"
    by (elim meta_mp [elim_format] insertE emptyE) (simp_all add: digit_char_def digit_value_def)
qed

lemma not_digit: "c < CHR ''0'' \<or> c > CHR ''9'' \<longleftrightarrow> c \<notin> set ''0123456789''"
  using char_range [of "CHR ''0''" c "CHR ''9''"] by (auto simp: not_less [symmetric])

lemma set_nat_text: "set (nat_text n) \<subseteq> set ''0123456789''"
proof (induction n rule: nat_text.induct)
  case (1 n)
  have "digit_char (n mod 10) \<in> set ''0123456789''" "n < 10 \<Longrightarrow> digit_char n \<in> set ''0123456789''"
    using digit_char [of "n mod 10"] digit_char [of n] by simp_all
  moreover have "set [x] = {x}" for x :: char by simp
  ultimately show ?case using 1 by (subst nat_text.simps) (simp del: set_simps)
qed

lemma nat_text_ne [simp]: "nat_text n \<noteq> []"
  by (subst nat_text.simps) simp

lemma length_nat_text: "n < 10 ^ k \<Longrightarrow> 0 < k \<Longrightarrow> length (nat_text n) \<le> k"
proof (induction n arbitrary: k rule: nat_text.induct)
  case (1 n)
  show ?case
  proof (cases "n < 10")
    case True
    then show ?thesis using 1 by (subst nat_text.simps) simp
  next
    case False
    then obtain j where j: "k = Suc j" "0 < j"
      using 1 by (cases k; cases "k - 1") auto
    then have "n div 10 < 10 ^ j" using 1(2) by (simp add: less_mult_imp_div_less mult.commute)
    with 1(1) [OF False _ j(2)] j show ?thesis using False by (subst nat_text.simps) simp
  qed
qed

definition decimal_chars :: string where "decimal_chars = ''-0123456789''"

lemma set_int_text: "set (int_text v) \<subseteq> set decimal_chars"
proof -
  have "set (nat_text n) \<subseteq> set decimal_chars" for n
    using set_nat_text [of n] by (rule order.trans) (simp add: decimal_chars_def)
  moreover have "CHR ''-'' \<in> set decimal_chars" by (simp add: decimal_chars_def)
  ultimately show ?thesis by (simp add: int_text_def)
qed


section \<open>Fields and lines\<close>

text \<open>Splitting as a function of the text alone.\<close>

fun split_on :: "char \<Rightarrow> string \<Rightarrow> string list" where
  "split_on sep [] = [[]]"
| "split_on sep (c # s) = (if c = sep then [] # split_on sep s
     else (c # hd (split_on sep s)) # tl (split_on sep s))"

lemma split_on_ne [simp]: "split_on sep s \<noteq> []"
  by (cases s) auto

lemma split_loop_split_on:
  "split_loop sep limit s cur fs =
     (let out = fs @ (cur @ hd (split_on sep s)) # tl (split_on sep s)
      in if length out \<le> limit then Some out else None)"
proof (induction s arbitrary: cur fs)
  case (Cons c s)
  have "0 < length (split_on sep s)" by simp
  then show ?case by (auto simp: Cons.IH Let_def)
qed (auto simp: Let_def)

lemma split_loop_Nil:
  "split_loop sep limit s [] [] = (if length (split_on sep s) \<le> limit then Some (split_on sep s) else None)"
  using split_loop_split_on [of sep limit s "[]" "[]"] by simp

text \<open>Joining fields that do not contain the separator, and splitting them again.\<close>

fun join :: "char \<Rightarrow> string list \<Rightarrow> string" where
  "join sep [] = []"
| "join sep [f] = f"
| "join sep (f # fs) = f @ sep # join sep fs"

lemma split_on_plain: "sep \<notin> set f \<Longrightarrow> split_on sep f = [f]"
  by (induction f) auto

lemma split_on_append: "sep \<notin> set f \<Longrightarrow> split_on sep (f @ sep # s) = f # split_on sep s"
  by (induction f) auto

lemma split_on_join: "fs \<noteq> [] \<Longrightarrow> \<forall>f\<in>set fs. sep \<notin> set f \<Longrightarrow> split_on sep (join sep fs) = fs"
  by (induction sep fs rule: join.induct) (auto simp: split_on_plain split_on_append)

lemma join_split_on: "join sep (split_on sep s) = s"
proof (induction s)
  case (Cons c s)
  obtain f fs where "split_on sep s = f # fs" by (cases "split_on sep s") auto
  with Cons show ?case by (cases fs) auto
qed simp

lemma split_on_no_sep: "f \<in> set (split_on sep s) \<Longrightarrow> sep \<notin> set f"
proof (induction s arbitrary: f)
  case (Cons c s)
  then show ?case by (cases "split_on sep s") (auto split: if_splits)
qed simp

lemma next_line_append [simp]: "LF \<notin> set l \<Longrightarrow> next_line (l @ LF # rest) = Some (l, rest)"
  by (auto simp: next_line_def takeWhile_append)

lemma starts_with_iff: "starts_with line prefix \<longleftrightarrow> (\<exists>rest. line = prefix @ rest)"
  by (auto simp: starts_with_def) (metis append_take_drop_id)

lemma strstr_Some:
  "strstr s needle = Some i \<Longrightarrow> \<exists>rest. s = take i s @ needle @ rest \<and> i \<le> length s"
proof (induction s arbitrary: i)
  case (Cons c s)
  show ?case
  proof (cases "take (length needle) (c # s) = needle")
    case True
    with Cons.prems show ?thesis by (metis append_Nil append_take_drop_id option.inject
          strstr.simps(2) take_0 zero_le)
  next
    case False
    with Cons.prems obtain j where "i = Suc j" "strstr s needle = Some j" by auto
    with Cons.IH [of j] show ?thesis by auto
  qed
qed (auto split: if_splits)

text \<open>The constant-time comparison is equality of the compared characters.\<close>

lemma of_char_u32_inj: "(of_char a :: u32) = of_char b \<longleftrightarrow> a = b"
proof
  assume "(of_char a :: u32) = of_char b"
  then have "unat (of_nat (of_char a) :: u32) = unat (of_nat (of_char b) :: u32)"
    by (simp only: of_nat_of_char)
  moreover have "unat (of_nat (of_char c) :: u32) = of_char c" for c
    by (intro unat_of_nat_u32 less_trans [OF nat_of_char_less_256]) simp
  ultimately have "(of_char a :: nat) = of_char b" by simp
  then show "a = b" by simp
qed simp

lemma ct_equal_text_iff:
  assumes "n \<le> length a" "n \<le> length b"
  shows "ct_equal_text a b n \<longleftrightarrow> take n a = take n b"
  by (simp add: ct_equal_text_def fold_or_eq_0 xor_eq_0_iff_word of_char_u32_inj take_eq_iff_nth assms)

end
