(* ===== verification/Sync_Parse.thy ===== *)
theory Sync_Parse
  imports Sync_Logic Wire_Text
begin

text \<open>
  \<^verbatim>\<open>components/code_sync/sync_parse.c\<close>: the signed text in which the backend sends
  the code set.  The MAC is a parameter: a function from the signed region to
  the 64 hexadecimal digits and the terminator it writes, or \<open>None\<close> when it
  returns false.  The result is the verdict and the set left in \<open>*out\<close>.
\<close>

section \<open>Data\<close>

abbreviation SYNC_BODY_MAX :: nat where "SYNC_BODY_MAX \<equiv> 2048"
abbreviation SYNC_MAC_HEX_LEN :: nat where "SYNC_MAC_HEX_LEN \<equiv> 64"
abbreviation INT64_MAX :: int where "INT64_MAX \<equiv> 9223372036854775807"

datatype sync_parse_result =
    SYNC_PARSE_OK
  | SYNC_PARSE_FORMAT
  | SYNC_PARSE_VERSION
  | SYNC_PARSE_GATE
  | SYNC_PARSE_MAC
  | SYNC_PARSE_TRUNCATED
  | SYNC_PARSE_ENTRY
  | SYNC_PARSE_TOO_MANY

type_synonym mac_fn = "string \<Rightarrow> string option"

text \<open>\<open>memset(out, 0, sizeof(*out))\<close>\<close>

definition zero_entry :: sync_entry where
  "zero_entry = \<lparr>entry_id = replicate AC_ID_LEN NUL, entry_hash = replicate AC_HASH_LEN 0,
     entry_from = 0, entry_until = 0\<rparr>"

definition zero_set :: sync_set where
  "zero_set = \<lparr>set_generation = 0, set_count = 0, entries = replicate SYNC_MAX_ENTRIES zero_entry\<rparr>"

definition END_MARKER :: string where "END_MARKER = LF # ''end'' @ [LF]"
definition VERSION_LINE :: string where "VERSION_LINE = ''portao-sync v1''"


section \<open>Operations\<close>

fun i64_loop :: "string \<Rightarrow> int \<Rightarrow> int option" where
  "i64_loop [] v = Some v"
| "i64_loop (c # s) v =
     (if c < CHR ''0'' \<or> c > CHR ''9'' then None
      else if v > (INT64_MAX - digit_value c) div 10 then None
      else i64_loop s (v * 10 + digit_value c))"

definition parse_i64 :: "string \<Rightarrow> i64 option" where
  "parse_i64 s =
     (if length s = 0 \<or> length s > 19 then None
      else
        (let negative = (s ! 0 = CHR ''-''); i = (if negative then 1 else 0)
         in if i \<ge> length s then None
            else map_option (\<lambda>v. if negative then - v else v) (i64_loop (drop i s) 0)))"

definition parse_u64 :: "string \<Rightarrow> u64 option" where
  "parse_u64 s = (case parse_i64 s of None \<Rightarrow> None
                  | Some v \<Rightarrow> if v < 0 then None else Some (word_of_int v))"

definition parse_code_line :: "string \<Rightarrow> sync_parse_result + sync_entry" where
  "parse_code_line line =
     (case split_loop CHR '' '' 4 (drop 5 line) [] [] of
        None \<Rightarrow> Inl SYNC_PARSE_ENTRY
      | Some field \<Rightarrow>
          if length field \<noteq> 4 then Inl SYNC_PARSE_ENTRY
          else if length (field ! 0) \<noteq> AC_ID_LEN - 1 then Inl SYNC_PARSE_ENTRY
          else if list_ex (\<lambda>c. hex_nibble c < 0) (field ! 0) then Inl SYNC_PARSE_ENTRY
          else
            (case hex_to_bytes (field ! 1) AC_HASH_LEN of
               None \<Rightarrow> Inl SYNC_PARSE_ENTRY
             | Some h \<Rightarrow>
                 (case parse_i64 (field ! 2) of
                    None \<Rightarrow> Inl SYNC_PARSE_ENTRY
                  | Some valid_from \<Rightarrow>
                      (case parse_i64 (field ! 3) of
                         None \<Rightarrow> Inl SYNC_PARSE_ENTRY
                       | Some valid_until \<Rightarrow>
                           if valid_until < valid_from then Inl SYNC_PARSE_ENTRY
                           else Inr \<lparr>entry_id = field ! 0 @ [NUL], entry_hash = h,
                                     entry_from = valid_from, entry_until = valid_until\<rparr>))))"

lemma next_line_shorter: "next_line p = Some (line, p') \<Longrightarrow> length p' < length p"
proof -
  assume "next_line p = Some (line, p')"
  then have "p \<noteq> []" "p' = drop 1 (dropWhile (\<lambda>c. c \<noteq> LF) p)"
    by (auto simp: next_line_def split: if_splits)
  moreover have "length (dropWhile (\<lambda>c. c \<noteq> LF) p) \<le> length p" by (rule length_dropWhile_le)
  ultimately show ?thesis by (cases p) auto
qed

text \<open>The loop over the code lines.\<close>

function code_lines :: "string \<Rightarrow> sync_set \<Rightarrow> sync_parse_result \<times> sync_set" where
  "code_lines p out =
     (case next_line p of
        None \<Rightarrow> (SYNC_PARSE_TRUNCATED, out)
      | Some (line, p') \<Rightarrow>
          if line = ''end'' then (SYNC_PARSE_OK, out)
          else if \<not> starts_with line ''code '' then (SYNC_PARSE_FORMAT, out)
          else if set_count out \<ge> SYNC_MAX_ENTRIES then (SYNC_PARSE_TOO_MANY, out)
          else
            (case parse_code_line line of
               Inl r \<Rightarrow> (r, zero_set)
             | Inr e \<Rightarrow> code_lines p' (out\<lparr>entries := (entries out)[set_count out := e],
                                           set_count := set_count out + 1\<rparr>)))"
  by pat_completeness auto
termination
  by (relation "measure (\<lambda>(p, out). length p)") (auto dest: next_line_shorter)

declare code_lines.simps [simp del]

text \<open>What is read once the signature has verified: the version, the gate, the generation
  and the code lines, all inside the signed region.\<close>

definition parse_region :: "string \<Rightarrow> string \<Rightarrow> sync_set \<Rightarrow> sync_parse_result \<times> sync_set" where
  "parse_region region gate_id out =
     (case next_line region of
        None \<Rightarrow> (SYNC_PARSE_FORMAT, out)
      | Some (line, p) \<Rightarrow>
          if line \<noteq> VERSION_LINE
          then (if starts_with line ''portao-sync '' then (SYNC_PARSE_VERSION, out)
                else (SYNC_PARSE_FORMAT, out))
          else
            (case next_line p of
               None \<Rightarrow> (SYNC_PARSE_FORMAT, out)
             | Some (line, p) \<Rightarrow>
                 if \<not> starts_with line ''gate '' then (SYNC_PARSE_FORMAT, out)
                 else if drop 5 line \<noteq> cstr gate_id then (SYNC_PARSE_GATE, out)
                 else
                   (case next_line p of
                      None \<Rightarrow> (SYNC_PARSE_FORMAT, out)
                    | Some (line, p) \<Rightarrow>
                        if \<not> starts_with line ''gen '' then (SYNC_PARSE_FORMAT, out)
                        else
                          (case parse_u64 (drop 4 line) of
                             None \<Rightarrow> (SYNC_PARSE_FORMAT, out)
                           | Some g \<Rightarrow> code_lines p (out\<lparr>set_generation := g\<rparr>)))))"

text \<open>\<open>while (got_len > 0 && (got[got_len - 1] == '\\n' || ...)) got_len--;\<close>\<close>

definition strip_eol :: "string \<Rightarrow> string" where
  "strip_eol s = rev (dropWhile (\<lambda>c. c = LF \<or> c = CR) (rev s))"

definition sync_parse ::
  "string option \<Rightarrow> string option \<Rightarrow> mac_fn \<Rightarrow> sync_set \<Rightarrow> sync_parse_result \<times> sync_set" where
  "sync_parse body gate_id mac out =
     (case (body, gate_id) of
        (Some body, Some gate) \<Rightarrow>
          (let out = zero_set; len = bounded_len SYNC_BODY_MAX body; text = take len body
           in if len = 0 \<or> len > SYNC_BODY_MAX then (SYNC_PARSE_FORMAT, out)
              else
                (case strstr text END_MARKER of
                   None \<Rightarrow> (SYNC_PARSE_TRUNCATED, out)
                 | Some marker \<Rightarrow>
                     (let signed_len = marker + length END_MARKER
                      in case mac (take signed_len text) of
                           None \<Rightarrow> (SYNC_PARSE_MAC, out)
                         | Some expected \<Rightarrow>
                             (let mac_line = drop signed_len text
                              in if \<not> starts_with mac_line ''mac '' then (SYNC_PARSE_FORMAT, out)
                                 else
                                   (let got = strip_eol (drop 4 mac_line)
                                    in if length got \<noteq> SYNC_MAC_HEX_LEN \<or>
                                          \<not> ct_equal_text got expected SYNC_MAC_HEX_LEN
                                       then (SYNC_PARSE_MAC, out)
                                       else parse_region (take signed_len text) gate out)))))
      | _ \<Rightarrow> (SYNC_PARSE_FORMAT, out))"

definition sync_parse_text :: "sync_parse_result \<Rightarrow> string" where
  "sync_parse_text r = (case r of
     SYNC_PARSE_OK \<Rightarrow> ''ok''
   | SYNC_PARSE_FORMAT \<Rightarrow> ''malformed''
   | SYNC_PARSE_VERSION \<Rightarrow> ''unsupported version''
   | SYNC_PARSE_GATE \<Rightarrow> ''addressed to another gate''
   | SYNC_PARSE_MAC \<Rightarrow> ''signature does not verify''
   | SYNC_PARSE_TRUNCATED \<Rightarrow> ''body cut short''
   | SYNC_PARSE_ENTRY \<Rightarrow> ''bad code entry''
   | SYNC_PARSE_TOO_MANY \<Rightarrow> ''more codes than the device can hold'')"


section \<open>Numbers\<close>

lemma i64_loop_append:
  "i64_loop (s @ t) v = (case i64_loop s v of None \<Rightarrow> None | Some w \<Rightarrow> i64_loop t w)"
  by (induction s arbitrary: v) auto

lemma i64_loop_digit:
  assumes "d < 10" "0 \<le> v" "10 * v + int d \<le> INT64_MAX"
  shows "i64_loop [digit_char d] v = Some (10 * v + int d)"
proof -
  have "v = (10 * v) div 10" by simp
  also have "\<dots> \<le> (INT64_MAX - int d) div 10" using assms(3) by (intro zdiv_mono1) auto
  finally show ?thesis using digit_char [OF assms(1)] not_digit [of "digit_char d"] by simp
qed

lemma i64_loop_text: "int n \<le> INT64_MAX \<Longrightarrow> i64_loop (nat_text n) 0 = Some (int n)"
proof (induction n rule: nat_text.induct)
  case (1 n)
  have e: "10 * int (n div 10) + int (n mod 10) = int n" by presburger
  show ?case
  proof (cases "n < 10")
    case True
    then show ?thesis using i64_loop_digit [of n 0] 1(2) by (subst nat_text.simps) simp
  next
    case False
    have "int (n div 10) \<le> INT64_MAX" using 1(2) by linarith
    then have "i64_loop (nat_text (n div 10)) 0 = Some (int (n div 10))" using 1(1) False by blast
    moreover have "i64_loop [digit_char (n mod 10)] (int (n div 10)) = Some (int n)"
      using i64_loop_digit [of "n mod 10" "int (n div 10)"] 1(2) e by simp
    ultimately show ?thesis
      using False by (subst nat_text.simps) (simp only: if_False i64_loop_append option.case)
  qed
qed

lemma parse_i64_text:
  assumes "- (10 ^ 18) < v" "v \<le> INT64_MAX"
  shows "parse_i64 (int_text v) = Some v"
proof (cases "v < 0")
  case True
  have n: "nat (- v) < 10 ^ 18" using assms(1) by simp
  from length_nat_text [OF this] have "length (nat_text (nat (- v))) \<le> 18" by simp
  moreover have "i64_loop (nat_text (nat (- v))) 0 = Some (- v)"
    using i64_loop_text [of "nat (- v)"] n True by simp
  ultimately show ?thesis using True by (simp add: parse_i64_def int_text_def Let_def)
next
  case False
  have n: "nat v < 10 ^ 19" using assms(2) by simp
  from length_nat_text [OF this] have "length (nat_text (nat v)) \<le> 19" by simp
  moreover have "i64_loop (nat_text (nat v)) 0 = Some v"
    using i64_loop_text [of "nat v"] assms(2) False by simp
  moreover have "hd (nat_text (nat v)) \<in> set ''0123456789''"
    using set_nat_text [of "nat v"] hd_in_set [OF nat_text_ne] by blast
  then have "nat_text (nat v) ! 0 \<noteq> CHR ''-''" by (auto simp: hd_conv_nth [symmetric])
  ultimately show ?thesis using False by (simp add: parse_i64_def int_text_def Let_def)
qed

lemma parse_u64_text:
  assumes "uint g \<le> INT64_MAX"
  shows "parse_u64 (nat_text (unat g)) = Some g"
proof -
  have g: "0 \<le> uint g" by simp
  then have "parse_i64 (int_text (uint g)) = Some (uint g)"
    by (intro parse_i64_text assms less_le_trans [OF _ g]) simp
  moreover have "int_text (uint g) = nat_text (unat g)" using g by (simp add: int_text_def)
  ultimately show ?thesis by (simp add: parse_u64_def)
qed

section \<open>Code lines\<close>

text \<open>A line is accepted only with a well-formed entry that \<open>sync_apply\<close> does not refuse.\<close>

lemma parse_code_line_sound:
  assumes "parse_code_line line = Inr e"
  shows "entry_wf e \<and> \<not> entry_refused e"
proof -
  obtain f0 h a b where f: "length f0 = AC_ID_LEN - 1" "list_all is_lower_hex f0"
    "length h = AC_HASH_LEN" "\<not> b < a"
    "e = \<lparr>entry_id = f0 @ [NUL], entry_hash = h, entry_from = a, entry_until = b\<rparr>"
    using assms unfolding parse_code_line_def
    by (auto simp: hex_nibble_neg list_all_iff list_ex_iff hex_to_bytes_Some split: option.splits if_splits)
  have "cstr (f0 @ [NUL]) = f0" using backend_no_NUL [OF f(2)] by (simp add: cstr_append cstr_id)
  then show ?thesis using f by (simp add: entry_wf_def entry_refused_def id_is_backend_def hex_to_bytes_Some)
qed

definition code_line :: "sync_entry \<Rightarrow> string" where
  "code_line e = ''code '' @ join CHR '' '' [cstr (entry_id e), hex_text (entry_hash e),
     int_text (entry_from e), int_text (entry_until e)]"

definition renderable :: "sync_entry \<Rightarrow> bool" where
  "renderable e \<longleftrightarrow> entry_wf e \<and> \<not> entry_refused e \<and> - (10 ^ 18) < entry_from e \<and> entry_until e \<le> INT64_MAX"

lemma backend_id_shape:
  assumes "entry_wf e" "\<not> entry_refused e"
  shows "length (cstr (entry_id e)) = AC_ID_LEN - 1" "list_all is_lower_hex (cstr (entry_id e))"
    "entry_id e = cstr (entry_id e) @ [NUL]" "set (cstr (entry_id e)) \<subseteq> set hex_chars"
proof -
  show l: "length (cstr (entry_id e)) = AC_ID_LEN - 1" "list_all is_lower_hex (cstr (entry_id e))"
    using assms by (auto simp: entry_refused_def id_is_backend_def split: if_splits)
  then show "set (cstr (entry_id e)) \<subseteq> set hex_chars"
    by (simp add: list_all_iff lower_hex_chars subset_iff)
  have len: "length (entry_id e) = 9" using assms(1) by (simp add: entry_wf_def)
  have "length (dropWhile (\<lambda>c. c \<noteq> NUL) (entry_id e)) = 1"
    using l(1) len length_append [of "cstr (entry_id e)" "dropWhile (\<lambda>c. c \<noteq> NUL) (entry_id e)"]
    by (simp add: cstr_def)
  then obtain x where x: "dropWhile (\<lambda>c. c \<noteq> NUL) (entry_id e) = [x]"
    by (auto simp: length_Suc_conv)
  moreover have "x = NUL" using hd_dropWhile [of "\<lambda>c. c \<noteq> NUL" "entry_id e"] by (simp add: x)
  ultimately have "dropWhile (\<lambda>c. c \<noteq> NUL) (entry_id e) = [NUL]" by simp
  then show "entry_id e = cstr (entry_id e) @ [NUL]"
    unfolding cstr_def by (metis takeWhile_dropWhile_id)
qed

lemma parse_code_line_render:
  assumes "renderable e"
  shows "parse_code_line (code_line e) = Inr e"
proof -
  have w: "entry_wf e" "\<not> entry_refused e" using assms by (simp_all add: renderable_def)
  note s = backend_id_shape [OF w]
  have v: "\<not> entry_until e < entry_from e" using w by (auto simp: entry_refused_def split: if_splits)
  have n: "CHR '' '' \<notin> set hex_chars" "CHR '' '' \<notin> set decimal_chars"
    by (simp_all add: hex_chars_def decimal_chars_def)
  have "split_on CHR '' '' (join CHR '' '' [cstr (entry_id e), hex_text (entry_hash e),
      int_text (entry_from e), int_text (entry_until e)]) =
    [cstr (entry_id e), hex_text (entry_hash e), int_text (entry_from e), int_text (entry_until e)]"
    using s(4) set_hex_text n set_int_text by (intro split_on_join) (simp, fastforce)
  then have "split_loop CHR '' '' 4 (drop 5 (code_line e)) [] [] =
      Some [cstr (entry_id e), hex_text (entry_hash e), int_text (entry_from e), int_text (entry_until e)]"
    by (simp add: split_loop_Nil code_line_def)
  moreover have "parse_i64 (int_text (entry_from e)) = Some (entry_from e)"
    "parse_i64 (int_text (entry_until e)) = Some (entry_until e)"
    using assms v by (auto intro!: parse_i64_text simp: renderable_def)
  moreover have "hex_to_bytes (hex_text (entry_hash e)) AC_HASH_LEN = Some (entry_hash e)"
    using w(1) by (intro hex_to_bytes_text) (simp add: entry_wf_def)
  moreover have "\<not> list_ex (\<lambda>c. hex_nibble c < 0) (cstr (entry_id e))"
    using s(2) by (auto simp: hex_nibble_neg list_ex_iff list_all_iff)
  ultimately show ?thesis using s v by (simp add: parse_code_line_def)
qed



section \<open>The loop over the code lines\<close>

definition set_sound :: "sync_set \<Rightarrow> bool" where
  "set_sound st \<longleftrightarrow> set_wf st \<and> set_count st \<le> SYNC_MAX_ENTRIES \<and>
     (\<forall>e\<in>set (set_used st). \<not> entry_refused e)"

lemma set_sound_add:
  assumes "set_sound st" "entry_wf e" "\<not> entry_refused e" "set_count st < SYNC_MAX_ENTRIES"
  shows "set_sound (st\<lparr>entries := (entries st)[set_count st := e], set_count := set_count st + 1\<rparr>)"
proof -
  have "length (entries st) = SYNC_MAX_ENTRIES" using assms(1) by (simp add: set_sound_def set_wf_def)
  then have "take (set_count st + 1) ((entries st)[set_count st := e]) = set_used st @ [e]"
    using assms(4) by (simp add: take_Suc_conv_app_nth set_used_def)
  then show ?thesis
    using assms set_update_subset_insert [of "entries st" "set_count st" e]
    by (auto simp: set_sound_def set_wf_def set_used_def)
qed

lemma code_lines_sound:
  "code_lines p out = (SYNC_PARSE_OK, out') \<Longrightarrow> set_sound out \<Longrightarrow>
     set_sound out' \<and> set_generation out' = set_generation out"
proof (induction p out rule: code_lines.induct)
  case (1 p out)
  obtain line p' where l: "next_line p = Some (line, p')"
    using "1.prems"(1) by (cases "next_line p") (auto simp: code_lines.simps [of p])
  show ?case
  proof (cases "line = ''end''")
    case True
    with 1 l show ?thesis by (simp add: code_lines.simps [of p])
  next
    case False
    with "1.prems"(1) l have c: "starts_with line ''code ''" "set_count out < SYNC_MAX_ENTRIES"
      by (auto simp: code_lines.simps [of p] split: if_splits)
    have "\<exists>e. parse_code_line line = Inr e"
    proof (cases "parse_code_line line")
      case (Inl r)
      moreover have "r \<noteq> SYNC_PARSE_OK"
        using Inl by (auto simp: parse_code_line_def split: option.splits if_splits)
      ultimately show ?thesis
        using "1.prems"(1) l False c by (simp add: code_lines.simps [of p])
    qed simp
    then obtain e where e: "parse_code_line line = Inr e" by blast
    let ?out = "out\<lparr>entries := (entries out)[set_count out := e], set_count := set_count out + 1\<rparr>"
    have step: "code_lines p out = code_lines p' ?out"
      using l False c e by (subst code_lines.simps) simp
    have "set_sound ?out"
      using parse_code_line_sound [OF e] "1.prems"(2) c(2) by (intro set_sound_add) auto
    then have "set_sound out' \<and> set_generation out' = set_generation ?out"
      using "1.IH" [OF l refl False _ _ e] c "1.prems"(1) step by simp
    then show ?thesis by simp
  qed
qed

text \<open>The set with the entries \<open>es\<close>, the rest of the array zero.\<close>

definition set_of :: "u64 \<Rightarrow> sync_entry list \<Rightarrow> sync_set" where
  "set_of g es = \<lparr>set_generation = g, set_count = length es,
     entries = es @ replicate (SYNC_MAX_ENTRIES - length es) zero_entry\<rparr>"

lemma set_of_add:
  "length es < SYNC_MAX_ENTRIES \<Longrightarrow>
    (set_of g es)\<lparr>entries := (entries (set_of g es))[set_count (set_of g es) := e],
       set_count := set_count (set_of g es) + 1\<rparr> = set_of g (es @ [e])"
  by (simp add: set_of_def list_update_append Suc_diff_Suc [symmetric])

definition lines_text :: "string list \<Rightarrow> string" where
  "lines_text ls = concat (map (\<lambda>l. l @ [LF]) ls)"

lemma lines_text_simps [simp]:
  "lines_text [] = []" "lines_text (l # ls) = l @ LF # lines_text ls"
  by (simp_all add: lines_text_def)

lemma code_line_no_LF:
  assumes "renderable e"
  shows "LF \<notin> set (code_line e)" "NUL \<notin> set (code_line e)"
proof -
  have w: "entry_wf e" "\<not> entry_refused e" using assms by (simp_all add: renderable_def)
  have n: "LF \<notin> set hex_chars" "LF \<notin> set decimal_chars" "NUL \<notin> set hex_chars" "NUL \<notin> set decimal_chars"
    by (simp_all add: hex_chars_def decimal_chars_def)
  have "set (code_line e) \<subseteq> set ''code '' \<union> set hex_chars \<union> set decimal_chars"
    using backend_id_shape(4) [OF w] set_hex_text [of "entry_hash e"] set_int_text [of "entry_from e"]
      set_int_text [of "entry_until e"]
    unfolding code_line_def by (simp add: subset_iff)
  then show "LF \<notin> set (code_line e)" "NUL \<notin> set (code_line e)" using n by auto
qed

lemma code_lines_render:
  assumes "list_all renderable es" "length pre + length es \<le> SYNC_MAX_ENTRIES"
  shows "code_lines (lines_text (map code_line es) @ ''end'' @ [LF]) (set_of g pre) =
    (SYNC_PARSE_OK, set_of g (pre @ es))"
  using assms
proof (induction es arbitrary: pre)
  case Nil
  have "next_line (''end'' @ [LF]) = Some (''end'', [])" by (rule next_line_append) simp
  then show ?case by (subst code_lines.simps) simp
next
  case (Cons e es)
  let ?rest = "lines_text (map code_line es) @ ''end'' @ [LF]"
  have r: "renderable e" "list_all renderable es" using Cons.prems by simp_all
  have nl: "next_line (code_line e @ LF # ?rest) = Some (code_line e, ?rest)"
    by (rule next_line_append [OF code_line_no_LF(1) [OF r(1)]])
  have "code_line e \<noteq> ''end''" "starts_with (code_line e) ''code ''"
    by (simp_all add: code_line_def starts_with_iff)
  moreover have "set_count (set_of g pre) < SYNC_MAX_ENTRIES" "length pre < SYNC_MAX_ENTRIES"
    using Cons.prems(2) by (simp_all add: set_of_def)
  ultimately have "code_lines (code_line e @ LF # ?rest) (set_of g pre) =
      code_lines ?rest (set_of g (pre @ [e]))"
    using nl set_of_add [of pre g e] parse_code_line_render [OF r(1)]
    by (subst code_lines.simps) simp
  also have "\<dots> = (SYNC_PARSE_OK, set_of g ((pre @ [e]) @ es))"
    using Cons.prems(2) r(2) by (intro Cons.IH) simp_all
  finally show ?case by simp
qed


section \<open>The whole body\<close>

lemma strstr_line:
  assumes "LF \<notin> set l"
  shows "strstr (l @ LF # r) (LF # n) =
    (if take (length n) r = n then Some (length l) else map_option (\<lambda>i. Suc (length l + i)) (strstr r (LF # n)))"
  using assms by (induction l) (auto simp: option.map_comp comp_def)

lemma not_end_line:
  assumes "LF \<notin> set l" "l \<noteq> ''end''"
  shows "take 4 (l @ LF # r) \<noteq> ''end'' @ [LF]"
proof
  assume t: "take 4 (l @ LF # r) = ''end'' @ [LF]"
  have "l @ LF # r = ''end'' @ LF # drop 4 (l @ LF # r)"
    using append_take_drop_id [of 4 "l @ LF # r"] unfolding t by simp
  then have "Some (l, r) = Some (''end'', drop 4 (l @ LF # r))"
    using next_line_append [OF assms(1), of r] next_line_append [of "''end''" "drop 4 (l @ LF # r)"] by simp
  with assms(2) show False by simp
qed

text \<open>A marker that starts with a line end is found after the last of the lines, when
  none of the later lines starts with the rest of it.\<close>

lemma strstr_lines:
  assumes "\<forall>l\<in>set (l0 # ls). LF \<notin> set l" "\<forall>l\<in>set ls. \<forall>r. take (length n) (l @ LF # r) \<noteq> n"
  shows "strstr (lines_text (l0 # ls) @ n @ r) (LF # n) = Some (length (lines_text (l0 # ls)) - 1)"
  using assms
proof (induction ls arbitrary: l0)
  case Nil
  then show ?case by (simp add: strstr_line)
next
  case (Cons l ls)
  let ?r = "lines_text (l # ls) @ n @ r"
  have "take (length n) ?r \<noteq> n" using Cons.prems(2) by (simp del: take_append)
  moreover have "strstr ?r (LF # n) = Some (length (lines_text (l # ls)) - 1)"
    using Cons.prems by (intro Cons.IH) auto
  ultimately have "strstr (l0 @ LF # ?r) (LF # n) = Some (Suc (length l0 + (length (lines_text (l # ls)) - 1)))"
    using Cons.prems(1) strstr_line [of l0 ?r n] by simp
  then show ?case by simp
qed

text \<open>The text of a set for a gate, as the backend sends it.\<close>

definition set_lines :: "string \<Rightarrow> u64 \<Rightarrow> sync_entry list \<Rightarrow> string list" where
  "set_lines gate g es = VERSION_LINE # (''gate '' @ gate) # (''gen '' @ nat_text (unat g)) # map code_line es"

definition set_region :: "string \<Rightarrow> u64 \<Rightarrow> sync_entry list \<Rightarrow> string" where
  "set_region gate g es = lines_text (set_lines gate g es) @ ''end'' @ [LF]"

lemma nat_text_plain: "LF \<notin> set (nat_text n)" "NUL \<notin> set (nat_text n)"
  using set_nat_text [of n] by auto

lemma set_lines_plain:
  assumes "list_all renderable es" "LF \<notin> set gate" "NUL \<notin> set gate" "l \<in> set (set_lines gate g es)"
  shows "LF \<notin> set l" "NUL \<notin> set l" "l \<noteq> ''end''"
proof -
  have "LF \<notin> set l \<and> NUL \<notin> set l \<and> l \<noteq> ''end''"
    using assms nat_text_plain code_line_no_LF
    by (auto simp: set_lines_def VERSION_LINE_def list_all_iff code_line_def)
  then show "LF \<notin> set l" "NUL \<notin> set l" "l \<noteq> ''end''" by simp_all
qed

lemma parse_region_render:
  assumes "list_all renderable es" "length es \<le> SYNC_MAX_ENTRIES" "uint g \<le> INT64_MAX"
    "LF \<notin> set gate" "NUL \<notin> set gate"
  shows "parse_region (set_region gate g es) gate zero_set = (SYNC_PARSE_OK, set_of g es)"
proof -
  define r3 where "r3 = lines_text (map code_line es) @ ''end'' @ [LF]"
  define gen where "gen = ''gen '' @ nat_text (unat g)"
  define gl where "gl = ''gate '' @ gate"
  have z: "zero_set\<lparr>set_generation := g\<rparr> = set_of g []" by (simp add: zero_set_def set_of_def)
  have "LF \<notin> set gen" "LF \<notin> set gl" "LF \<notin> set VERSION_LINE"
    using nat_text_plain assms(4) by (simp_all add: gen_def gl_def VERSION_LINE_def)
  note l = this [THEN next_line_append]
  have d: "drop 5 gl = cstr gate" "drop 4 gen = nat_text (unat g)"
    "starts_with gl ''gate ''" "starts_with gen ''gen ''"
    using assms(5) by (simp_all add: cstr_id starts_with_iff gl_def gen_def)
  have "set_region gate g es = VERSION_LINE @ LF # gl @ LF # gen @ LF # r3"
    by (simp add: set_region_def set_lines_def gl_def gen_def r3_def)
  moreover have "code_lines r3 (set_of g []) = (SYNC_PARSE_OK, set_of g es)"
    using code_lines_render [OF assms(1), of "[]" g] assms(2) by (simp add: r3_def)
  ultimately show ?thesis
    unfolding parse_region_def
    by (simp only: l d z parse_u64_text [OF assms(3)] option.case prod.case simp_thms if_False)
qed

lemma strip_eol_mac:
  assumes "set hex \<subseteq> set hex_chars" "set tail \<subseteq> {LF, CR}"
  shows "strip_eol (hex @ tail) = hex"
proof -
  have n: "LF \<notin> set hex_chars" "CR \<notin> set hex_chars" by (simp_all add: hex_chars_def)
  have "dropWhile (\<lambda>c. c = LF \<or> c = CR) (rev tail @ rev hex) = dropWhile (\<lambda>c. c = LF \<or> c = CR) (rev hex)"
    using assms(2) by (intro dropWhile_append2) auto
  also have "\<dots> = rev hex"
    using assms(1) n by (cases "rev hex") auto
  finally show ?thesis by (simp add: strip_eol_def)
qed

text \<open>The trailing line ends are all that is removed.\<close>

lemma strip_eol_split: "\<exists>tail. s = strip_eol s @ tail \<and> set tail \<subseteq> {LF, CR}"
proof -
  let ?P = "\<lambda>c. c = LF \<or> c = CR"
  have "s = strip_eol s @ rev (takeWhile ?P (rev s))"
    using arg_cong [OF takeWhile_dropWhile_id [symmetric, of "rev s" ?P], of rev]
    unfolding rev_append rev_rev_ident strip_eol_def .
  moreover have "set (rev (takeWhile ?P (rev s))) \<subseteq> {LF, CR}"
    using set_takeWhileD [of _ ?P "rev s"] by auto
  ultimately show ?thesis by blast
qed

lemma parse_region_sound:
  assumes "parse_region region gate zero_set = (SYNC_PARSE_OK, out)"
  shows "set_sound out"
proof -
  have z: "set_sound (zero_set\<lparr>set_generation := g\<rparr>)" for g
    by (simp add: set_sound_def set_wf_def zero_set_def entry_wf_def zero_entry_def set_used_def)
  from assms obtain p g where "code_lines p (zero_set\<lparr>set_generation := g\<rparr>) = (SYNC_PARSE_OK, out)"
    unfolding parse_region_def by (auto split: option.splits if_splits prod.splits)
  with code_lines_sound z show ?thesis by blast
qed


section \<open>What a region says\<close>

text \<open>
  The same text read without the parser: a line spells an entry when it is the word \<open>code\<close> and the
  entry's id, the digits of its hash and its window; a region says a generation and an entry for
  a gate when its first lines are the version, the gate and the generation, followed by lines
  one of which spells the entry.
\<close>

definition line_says :: "string \<Rightarrow> sync_entry \<Rightarrow> bool" where
  "line_says line e \<longleftrightarrow> (\<exists>f u. line = ''code '' @ join CHR '' '' [cstr (entry_id e), hex_text (entry_hash e), f, u] \<and>
     parse_i64 f = Some (entry_from e) \<and> parse_i64 u = Some (entry_until e))"

definition set_says :: "string \<Rightarrow> string \<Rightarrow> u64 \<Rightarrow> sync_entry \<Rightarrow> bool" where
  "set_says region gate gen e \<longleftrightarrow> (\<exists>g codes rest.
     region = lines_text (VERSION_LINE # (''gate '' @ cstr gate) # (''gen '' @ g) # codes) @ rest \<and>
     (\<forall>l\<in>set ((''gate '' @ cstr gate) # (''gen '' @ g) # codes). LF \<notin> set l) \<and>
     parse_u64 g = Some gen \<and> (\<exists>l\<in>set codes. line_says l e))"

lemma starts_with_drop: "starts_with line p \<Longrightarrow> line = p @ drop (length p) line"
  by (auto simp: starts_with_iff)

lemma next_line_inner:
  assumes "next_line p = Some (line, p')" "p' \<noteq> []"
  shows "p = line @ LF # p'" "LF \<notin> set line"
proof -
  have l: "line = takeWhile (\<lambda>c. c \<noteq> LF) p" "p' = drop 1 (dropWhile (\<lambda>c. c \<noteq> LF) p)"
    using assms(1) by (auto simp: next_line_def split: if_splits)
  show "LF \<notin> set line" using l(1) by (auto dest: set_takeWhileD)
  obtain c q where d: "dropWhile (\<lambda>c. c \<noteq> LF) p = c # q" using l(2) assms(2) by (cases "dropWhile (\<lambda>c. c \<noteq> LF) p") auto
  then have "c = LF" using hd_dropWhile [of "\<lambda>c. c \<noteq> LF" p] by simp
  with d have "p = line @ LF # q" using l(1) by (metis takeWhile_dropWhile_id)
  then show "p = line @ LF # p'" using l(2) d by simp
qed

lemma parse_code_line_says:
  assumes "parse_code_line line = Inr e" "starts_with line ''code ''"
  shows "line_says line e"
proof -
  have line: "line = ''code '' @ drop 5 line" using starts_with_drop [OF assms(2)] by (simp add: numeral_eq_Suc)
  obtain field where f: "split_on CHR '' '' (drop 5 line) = field" "length field = 4"
    "hex_to_bytes (field ! 1) AC_HASH_LEN = Some (entry_hash e)" "list_all is_lower_hex (field ! 0)"
    "parse_i64 (field ! 2) = Some (entry_from e)" "parse_i64 (field ! 3) = Some (entry_until e)"
    "entry_id e = field ! 0 @ [NUL]"
    using assms(1) unfolding parse_code_line_def split_loop_Nil
    by (auto simp: hex_nibble_neg list_all_iff list_ex_iff split: option.splits if_splits)
  have "field = [field ! 0, field ! 1, field ! 2, field ! 3]"
    using f(2) by (simp add: list_eq_iff_nth_eq less_Suc_eq numeral_eq_Suc)
  moreover have "field ! 0 = cstr (entry_id e)" "field ! 1 = hex_text (entry_hash e)"
    using f(3) cstr_backend_id [OF f(4)] by (simp_all add: hex_to_bytes_Some f(7))
  ultimately have "drop 5 line = join CHR '' '' [cstr (entry_id e), hex_text (entry_hash e), field ! 2, field ! 3]"
    using join_split_on [of "CHR '' ''" "drop 5 line"] f(1) by metis
  with line f(5,6) show ?thesis unfolding line_says_def by metis
qed

lemma code_lines_say:
  "code_lines p out = (SYNC_PARSE_OK, out') \<Longrightarrow> set_sound out \<Longrightarrow>
     \<exists>codes rest. p = lines_text codes @ rest \<and> (\<forall>l\<in>set codes. LF \<notin> set l) \<and>
       (\<forall>e\<in>set (set_used out') - set (set_used out). \<exists>l\<in>set codes. line_says l e)"
proof (induction p out rule: code_lines.induct)
  case (1 p out)
  have ne: "p \<noteq> []" using "1.prems"(1) by (auto simp: code_lines.simps [of p] next_line_def)
  obtain line p' where l: "next_line p = Some (line, p')"
    using "1.prems"(1) by (cases "next_line p") (auto simp: code_lines.simps [of p])
  show ?case
  proof (cases "line = ''end''")
    case True
    with "1.prems"(1) l have "out' = out" by (simp add: code_lines.simps [of p])
    then show ?thesis by (intro exI [of _ "[]"] exI [of _ p]) simp
  next
    case False
    with "1.prems"(1) l have c: "starts_with line ''code ''" "set_count out < SYNC_MAX_ENTRIES"
      by (auto simp: code_lines.simps [of p] split: if_splits)
    have "parse_code_line line \<noteq> Inl SYNC_PARSE_OK"
      by (auto simp: parse_code_line_def split: option.splits if_splits)
    then obtain e where e: "parse_code_line line = Inr e"
      using "1.prems"(1) l False c by (cases "parse_code_line line") (auto simp: code_lines.simps [of p])
    let ?out = "out\<lparr>entries := (entries out)[set_count out := e], set_count := set_count out + 1\<rparr>"
    have step: "code_lines p' ?out = (SYNC_PARSE_OK, out')"
      using "1.prems"(1) l False c e by (simp add: code_lines.simps [of p])
    have sound: "set_sound ?out"
      using parse_code_line_sound [OF e] "1.prems"(2) c(2) by (intro set_sound_add) auto
    have used: "set_used ?out = set_used out @ [e]"
      using "1.prems"(2) c(2) by (simp add: set_used_def set_sound_def set_wf_def take_Suc_conv_app_nth)
    from "1.IH" [OF l refl False _ _ e step sound] c obtain codes rest where
      r: "p' = lines_text codes @ rest" "\<forall>l\<in>set codes. LF \<notin> set l"
      "\<forall>x\<in>set (set_used out') - set (set_used ?out). \<exists>l\<in>set codes. line_says l x" by auto
    have "p' \<noteq> []" using step by (auto simp: code_lines.simps [of p'] next_line_def)
    note n = next_line_inner [OF l this]
    have "p = lines_text (line # codes) @ rest" using n(1) r(1) by simp
    moreover have "\<forall>x\<in>set (set_used out') - set (set_used out). \<exists>l\<in>set (line # codes). line_says l x"
      using r(3) parse_code_line_says [OF e c(1)] unfolding used by auto
    ultimately show ?thesis using n(2) r(2) by (intro exI [of _ "line # codes"] exI [of _ rest]) simp
  qed
qed

lemma parse_region_says:
  assumes "parse_region region gate zero_set = (SYNC_PARSE_OK, out)" "e \<in> set (set_used out)"
  shows "set_says region gate (set_generation out) e"
proof -
  from assms(1) obtain p1 l2 p2 l3 p3 g where
    n: "next_line region = Some (VERSION_LINE, p1)" "next_line p1 = Some (l2, p2)" "next_line p2 = Some (l3, p3)"
    and s: "starts_with l2 ''gate ''" "drop 5 l2 = cstr gate" "starts_with l3 ''gen ''" "parse_u64 (drop 4 l3) = Some g"
    and c: "code_lines p3 (zero_set\<lparr>set_generation := g\<rparr>) = (SYNC_PARSE_OK, out)"
    unfolding parse_region_def by (auto split: option.splits if_splits prod.splits)
  have z: "set_sound (zero_set\<lparr>set_generation := g\<rparr>)" "set_used (zero_set\<lparr>set_generation := g\<rparr>) = []"
    by (simp_all add: set_sound_def set_wf_def zero_set_def entry_wf_def zero_entry_def set_used_def)
  from code_lines_say [OF c z(1)] z(2) assms(2) obtain codes rest where
    r: "p3 = lines_text codes @ rest" "\<forall>l\<in>set codes. LF \<notin> set l" "\<exists>l\<in>set codes. line_says l e" by auto
  have "p3 \<noteq> []" using c by (auto simp: code_lines.simps [of p3] next_line_def)
  note n3 = next_line_inner [OF n(3) this]
  then have "p2 \<noteq> []" by simp
  note n2 = next_line_inner [OF n(2) this]
  then have "p1 \<noteq> []" by simp
  note n1 = next_line_inner [OF n(1) this]
  have l: "l2 = ''gate '' @ cstr gate" "l3 = ''gen '' @ drop 4 l3"
    using starts_with_drop [OF s(1)] starts_with_drop [OF s(3)] s(2) by (simp_all add: numeral_eq_Suc)
  have "region = lines_text (VERSION_LINE # (''gate '' @ cstr gate) # (''gen '' @ drop 4 l3) # codes) @ rest"
    unfolding l(1) [symmetric] l(2) [symmetric] using n1(1) n2(1) n3(1) r(1) by simp
  moreover have "\<forall>l\<in>set ((''gate '' @ cstr gate) # (''gen '' @ drop 4 l3) # codes). LF \<notin> set l"
    unfolding l(1) [symmetric] l(2) [symmetric] using n2(2) n3(2) r(2) by simp
  moreover have "set_generation out = g" using code_lines_sound [OF c z(1)] by simp
  ultimately show ?thesis using s(4) r(3) unfolding set_says_def by blast
qed



section \<open>Properties\<close>

text \<open>The buffer a MAC writes to: 64 digits and a terminator.\<close>

definition mac_fills :: "mac_fn \<Rightarrow> bool" where
  "mac_fills mac \<longleftrightarrow> (\<forall>s e. mac s = Some e \<longrightarrow> length e = SYNC_MAC_HEX_LEN + 1)"

lemma sync_parse_signed:
  assumes "mac_fills mac" "sync_parse (Some body) (Some gate) mac old = (SYNC_PARSE_OK, out)"
  obtains region tail e where "cstr body = region @ ''mac '' @ take 64 e @ tail" "set tail \<subseteq> {LF, CR}"
    "mac region = Some e" "parse_region region gate zero_set = (SYNC_PARSE_OK, out)"
    "\<exists>lines. region = lines @ END_MARKER" "length (cstr body) \<le> SYNC_BODY_MAX"
proof -
  define t where "t = take (bounded_len SYNC_BODY_MAX body) body"
  from assms(2) obtain m e where
    len: "bounded_len SYNC_BODY_MAX body \<le> SYNC_BODY_MAX"
    and m: "strstr t END_MARKER = Some m" "mac (take (m + length END_MARKER) t) = Some e"
    "starts_with (drop (m + length END_MARKER) t) ''mac ''"
    "length (strip_eol (drop 4 (drop (m + length END_MARKER) t))) = SYNC_MAC_HEX_LEN"
    "ct_equal_text (strip_eol (drop 4 (drop (m + length END_MARKER) t))) e SYNC_MAC_HEX_LEN"
    "parse_region (take (m + length END_MARKER) t) gate zero_set = (SYNC_PARSE_OK, out)"
    unfolding sync_parse_def Let_def t_def
    by (auto simp del: take_take split: if_splits option.splits)
  let ?region = "take (m + length END_MARKER) t" and ?rest = "drop (m + length END_MARKER) t"
  have short: "length (cstr body) \<le> SYNC_BODY_MAX" using len bounded_text(2) [OF len] by simp
  have tt: "t = cstr body" unfolding t_def by (rule bounded_text(1) [OF len])
  have e: "length e = 65" using assms(1) m(2) by (simp add: mac_fills_def)
  obtain tail where tail: "drop 4 ?rest = strip_eol (drop 4 ?rest) @ tail" "set tail \<subseteq> {LF, CR}"
    using strip_eol_split by blast
  have s1: "strip_eol (drop 4 ?rest) = take 64 e"
    using m(4,5) e by (subst (asm) ct_equal_text_iff) simp_all
  have four: "length ''mac '' = 4" by simp
  have "?rest = ''mac '' @ drop 4 ?rest" using starts_with_drop [OF m(3)] unfolding four .
  also have "drop 4 ?rest = take 64 e @ tail" using tail(1) unfolding s1 .
  finally have "?rest = ''mac '' @ take 64 e @ tail" .
  then have "cstr body = ?region @ ''mac '' @ take 64 e @ tail"
    unfolding tt [symmetric] by (metis append_take_drop_id)
  moreover have "\<exists>lines. ?region = lines @ END_MARKER"
  proof -
    obtain rest where "t = take m t @ END_MARKER @ rest" using strstr_Some [OF m(1)] by blast
    then have "take m t @ drop m t = take m t @ END_MARKER @ rest" unfolding append_take_drop_id .
    then have "drop m t = END_MARKER @ rest" by (rule same_append_eq [THEN iffD1])
    then have "?region = take m t @ END_MARKER" by (simp add: take_add)
    then show ?thesis by blast
  qed
  ultimately show ?thesis using that tail(2) m(2,6) short by simp
qed

text \<open>A terminator after the text changes nothing.\<close>

lemma sync_parse_NUL:
  assumes "NUL \<notin> set body" "length body \<le> SYNC_BODY_MAX"
  shows "sync_parse (Some (body @ [NUL])) gate mac old = sync_parse (Some body) gate mac old"
proof -
  have "cstr (body @ [NUL]) = body" using assms(1) by (simp add: cstr_append cstr_id)
  then have "bounded_len SYNC_BODY_MAX (body @ [NUL]) = length body"
    using assms(2) by (simp add: bounded_len_def cstr_take)
  moreover have "bounded_len SYNC_BODY_MAX body = length body" by (rule bounded_len_plain [OF assms])
  ultimately show ?thesis by (cases gate) (simp_all add: sync_parse_def)
qed

text \<open>Only signed text reaches the table.  When a body is accepted it is a signed region,
  closed by the end line, the word \<open>mac\<close> and the very digits the MAC gives for that region,
  followed by nothing but line ends; the set is what reading that region alone gives, its entries
  have backend ids, hashes of 32 bytes and windows that are not inverted, and so \<open>sync_apply\<close> never
  refuses it as malformed.\<close>

theorem accepted_body_is_signed:
  assumes "mac_fills mac" "sync_parse (Some body) (Some gate) mac old = (SYNC_PARSE_OK, out)"
  shows "(\<exists>region tail e. cstr body = region @ ''mac '' @ take SYNC_MAC_HEX_LEN e @ tail \<and>
      set tail \<subseteq> {LF, CR} \<and> mac region = Some e \<and> (\<exists>lines. region = lines @ END_MARKER) \<and>
      parse_region region gate zero_set = (SYNC_PARSE_OK, out)) \<and>
    set_wf out \<and> set_count out \<le> SYNC_MAX_ENTRIES \<and>
    snd (snd (sync_apply ctx table (Some out) now_ms)) \<noteq> SYNC_BAD_ENTRY"
proof -
  obtain region tail e where r: "cstr body = region @ ''mac '' @ take 64 e @ tail" "set tail \<subseteq> {LF, CR}"
    "mac region = Some e" "parse_region region gate zero_set = (SYNC_PARSE_OK, out)"
    "\<exists>lines. region = lines @ END_MARKER"
    using sync_parse_signed [OF assms] by metis
  have s: "set_sound out" using parse_region_sound [OF r(4)] .
  then have "snd (snd (sync_apply ctx table (Some out) now_ms)) \<noteq> SYNC_BAD_ENTRY"
    by (auto simp: sync_apply_def set_sound_def set_used_def list_ex_iff split_def Let_def split: if_splits)
  with r s show ?thesis unfolding set_sound_def by blast
qed

lemma parse_rendered:
  assumes "list_all renderable es" "length es \<le> SYNC_MAX_ENTRIES" "uint g \<le> INT64_MAX"
    "LF \<notin> set gate" "NUL \<notin> set gate" "mac (set_region gate g es) = Some (hex @ [NUL])"
    "length hex = SYNC_MAC_HEX_LEN" "set hex \<subseteq> set hex_chars"
    "length (set_region gate g es) + 69 \<le> SYNC_BODY_MAX"
  shows "sync_parse (Some (set_region gate g es @ ''mac '' @ hex @ [LF])) (Some gate) mac old =
    (SYNC_PARSE_OK, set_of g es)"
proof -
  let ?body = "set_region gate g es @ ''mac '' @ hex @ [LF]"
  define ls where "ls = (''gate '' @ gate) # (''gen '' @ nat_text (unat g)) # map code_line es"
  have ls: "set_lines gate g es = VERSION_LINE # ls" by (simp add: set_lines_def ls_def)
  note plain = set_lines_plain [OF assms(1,4,5)]
  have n: "NUL \<notin> set hex" using assms(8) by (auto simp: hex_chars_def)
  have "NUL \<notin> set (lines_text (set_lines gate g es))"
    using plain(2) by (auto simp: lines_text_def)
  then have "NUL \<notin> set ?body" using n by (simp add: set_region_def)
  have len: "length ?body \<le> SYNC_BODY_MAX" using assms(7,9) by simp
  have t: "bounded_len SYNC_BODY_MAX ?body = length ?body"
    using \<open>NUL \<notin> set ?body\<close> len by (rule bounded_len_plain)
  have reg: "set_region gate g es = lines_text (VERSION_LINE # ls) @ ''end'' @ [LF]"
    by (simp only: set_region_def ls)
  have four: "length (''end'' @ [LF]) = 4" by simp
  have "strstr (lines_text (VERSION_LINE # ls) @ (''end'' @ [LF]) @ ''mac '' @ hex @ [LF]) (LF # ''end'' @ [LF]) =
      Some (length (lines_text (VERSION_LINE # ls)) - 1)"
  proof (rule strstr_lines)
    show "\<forall>l\<in>set (VERSION_LINE # ls). LF \<notin> set l" using plain(1) ls by metis
    show "\<forall>l\<in>set ls. \<forall>r. take (length (''end'' @ [LF])) (l @ LF # r) \<noteq> ''end'' @ [LF]"
      unfolding four using plain(1,3) not_end_line ls by (metis list.set_intros(2))
  qed
  moreover have "?body = lines_text (VERSION_LINE # ls) @ (''end'' @ [LF]) @ ''mac '' @ hex @ [LF]"
    unfolding reg by simp
  ultimately have m: "strstr ?body END_MARKER = Some (length (lines_text (VERSION_LINE # ls)) - 1)"
    by (simp only: END_MARKER_def) 
  have sl: "length (lines_text (VERSION_LINE # ls)) - 1 + length END_MARKER = length (set_region gate g es)"
    unfolding reg by (simp add: END_MARKER_def)
  have got: "strip_eol (hex @ [LF]) = hex" using assms(8) by (intro strip_eol_mac) simp_all
  have eq: "ct_equal_text hex (hex @ [NUL]) SYNC_MAC_HEX_LEN"
    using assms(7) by (subst ct_equal_text_iff) simp_all
  define tl where "tl = ''mac '' @ hex @ [LF]"
  have sw: "starts_with tl ''mac ''" "drop 4 tl = hex @ [LF]" by (simp_all add: starts_with_iff tl_def)
  have split: "take (length (set_region gate g es)) (set_region gate g es @ tl) = set_region gate g es"
    "drop (length (set_region gate g es)) (set_region gate g es @ tl) = tl" by simp_all
  have len': "\<not> (length (set_region gate g es @ tl) = 0 \<or> SYNC_BODY_MAX < length (set_region gate g es @ tl))"
    using len by (simp add: tl_def)
  show ?thesis
    unfolding sync_parse_def option.case prod.case Let_def t
    unfolding tl_def [symmetric]
    by (simp only: len' take_all [OF order.refl] m [folded tl_def] if_False option.case sl split
        assms(6) sw got assms(7) eq simp_thms parse_region_render [OF assms(1-5)])
qed

text \<open>A concrete MAC and a set of one code for a gate.\<close>

definition demo_mac :: mac_fn where
  "demo_mac region = Some (replicate 64 CHR ''a'' @ [NUL])"

lemma demo_mac_fills: "mac_fills demo_mac"
  by (simp add: mac_fills_def demo_mac_def)

lemma demo_renderable: "list_all renderable [demo_entry ''000000b7'' 9 500 600]"
proof -
  have "entry_wf (demo_entry ''000000b7'' 9 500 600)" by (simp add: demo_entry_def entry_wf_def)
  moreover have "\<not> entry_refused (demo_entry ''000000b7'' 9 500 600)"
    by (simp add: demo_entry_def entry_refused_def id_is_backend_def is_lower_hex_def less_eq_char_def)
  moreover have "- (10 ^ 18) < entry_from (demo_entry ''000000b7'' 9 500 600)"
    "entry_until (demo_entry ''000000b7'' 9 500 600) \<le> INT64_MAX" by (simp_all add: demo_entry_def)
  ultimately show ?thesis by (simp only: renderable_def list.pred_inject simp_thms)
qed

lemma length_set_region:
  "length (set_region gate g es) = 30 + length gate + length (nat_text (unat g)) +
     sum_list (map (\<lambda>e. Suc (length (code_line e))) es)"
  by (simp add: set_region_def set_lines_def VERSION_LINE_def lines_text_def length_concat comp_def)

lemma demo_parsed:
  "sync_parse (Some (set_region ''portao-1'' 3 [demo_entry ''000000b7'' 9 500 600] @ ''mac '' @
     replicate 64 CHR ''a'' @ [LF])) (Some ''portao-1'') demo_mac zero_set =
   (SYNC_PARSE_OK, set_of 3 [demo_entry ''000000b7'' 9 500 600])"
proof (rule parse_rendered [OF demo_renderable])
  show "length (set_region ''portao-1'' 3 [demo_entry ''000000b7'' 9 500 600]) + 69 \<le> SYNC_BODY_MAX"
    by (simp add: length_set_region code_line_def demo_entry_def int_text_def nat_text.simps)
qed (simp_all add: demo_mac_def hex_chars_def)

theorem accepted_body_is_signed_witness:
  "snd (snd (sync_apply (sync_init 2 0) guest_table
     (Some (set_of 3 [demo_entry ''000000b7'' 9 500 600])) 0)) \<noteq> SYNC_BAD_ENTRY"
  using accepted_body_is_signed [OF demo_mac_fills demo_parsed] by blast

text \<open>C26: the backend's text is read back exactly.  Any generation up to \<open>INT64_MAX\<close> and any list
  of at most eight well-formed entries, written in the wire format for a gate and signed, is parsed
  by that gate into the same generation and the same entries.\<close>

theorem rendered_set_parses:
  assumes "list_all renderable es" "length es \<le> SYNC_MAX_ENTRIES" "uint g \<le> INT64_MAX"
    "LF \<notin> set gate" "NUL \<notin> set gate" "mac (set_region gate g es) = Some (hex @ [NUL])"
    "length hex = SYNC_MAC_HEX_LEN" "set hex \<subseteq> set hex_chars"
    "length (set_region gate g es) + 69 \<le> SYNC_BODY_MAX"
  shows "sync_parse (Some (set_region gate g es @ ''mac '' @ hex @ [LF])) (Some gate) mac old =
    (SYNC_PARSE_OK, set_of g es)"
  using assms by (rule parse_rendered)

theorem rendered_set_parses_witness:
  "sync_parse (Some (set_region ''g'' 7 [] @ ''mac '' @ replicate 64 CHR ''a'' @ [LF])) (Some ''g'')
     demo_mac zero_set = (SYNC_PARSE_OK, set_of 7 [])"
  using rendered_set_parses [of "[]" 7 "''g''" demo_mac "replicate 64 CHR ''a''" zero_set]
  by (simp add: demo_mac_def hex_chars_def length_set_region nat_text.simps)

end
