(* ===== verification/Client_Io.thy ===== *)
theory Client_Io
  imports Wire_Text Esp_Err
begin

text \<open>
  What \<^verbatim>\<open>sync_client.c\<close> and \<^verbatim>\<open>tg_client.c\<close> use of the world outside the
  repository: the HTTP client, the HMAC of mbedtls and the key-value store of
  NVS, each a parameter; and the helpers both files carry, the decoder of the
  delivery key and the collection of a response body.
\<close>

section \<open>The outside\<close>

text \<open>One request as the HTTP client runs it: whether a client could be made, what
  \<open>esp_http_client_perform\<close> returned, the status code, and the data events in order.\<close>

record http_reply =
  client_made :: bool
  perform_err :: esp_err
  http_status :: int
  data_events :: "string list"

type_synonym http_fn = "string \<Rightarrow> http_reply"

text \<open>\<open>mbedtls_md_hmac\<close> with SHA-256: the digest of a text under a key, if it can be had.\<close>

type_synonym hmac_fn = "u8 list \<Rightarrow> string \<Rightarrow> u8 list option"

text \<open>The store: reading and writing a 64-bit number under a namespace and a key.  A
  write that fails to open the store leaves it as it was.\<close>

record 'n nvs_ops =
  nvs_get :: "'n \<Rightarrow> string \<Rightarrow> string \<Rightarrow> u64 option"
  nvs_put :: "'n \<Rightarrow> string \<Rightarrow> string \<Rightarrow> u64 \<Rightarrow> 'n"

text \<open>What the code relies on, where a statement needs it.\<close>

definition hmac_sized :: "hmac_fn \<Rightarrow> bool" where
  "hmac_sized hmac \<longleftrightarrow> (\<forall>k s d. hmac k s = Some d \<longrightarrow> length d = 32)"

definition nvs_works :: "'n nvs_ops \<Rightarrow> bool" where
  "nvs_works N \<longleftrightarrow> (\<forall>n ns k v ns' k'. nvs_get N (nvs_put N n ns k v) ns' k' =
     (if ns' = ns \<and> k' = k then Some v else nvs_get N n ns' k'))"


section \<open>The delivery key\<close>

definition key_nibble :: "char \<Rightarrow> int" where
  "key_nibble c =
     (if CHR ''0'' \<le> c \<and> c \<le> CHR ''9'' then of_char c - of_char CHR ''0''
      else if CHR ''a'' \<le> c \<and> c \<le> CHR ''f'' then of_char c - of_char CHR ''a'' + 10
      else if CHR ''A'' \<le> c \<and> c \<le> CHR ''F'' then of_char c - of_char CHR ''A'' + 10
      else - 1)"

text \<open>The loop over the \<open>out_len\<close> output bytes; the caller has checked the length.\<close>

fun key_hex_to_bytes :: "string \<Rightarrow> nat \<Rightarrow> u8 list option" where
  "key_hex_to_bytes hex 0 = Some []"
| "key_hex_to_bytes hex (Suc n) =
     (let h = key_nibble (hex ! 0); l = key_nibble (hex ! 1)
      in if h < 0 \<or> l < 0 then None
         else map_option ((#) (word_of_int (push_bit 4 h OR l))) (key_hex_to_bytes (drop 2 hex) n))"

lemma length_key_hex_to_bytes: "key_hex_to_bytes hex n = Some bs \<Longrightarrow> length bs = n"
  by (induction hex n arbitrary: bs rule: key_hex_to_bytes.induct) (auto simp: Let_def split: if_splits)

text \<open>On the lower-case digits of the wire formats it is the same decoder.\<close>

lemma key_nibble_lower: "is_lower_hex c \<Longrightarrow> key_nibble c = hex_nibble c"
  by (auto simp: key_nibble_def hex_nibble_def is_lower_hex_def)

lemma key_hex_lower:
  "list_all is_lower_hex hex \<Longrightarrow> length hex = 2 * n \<Longrightarrow> key_hex_to_bytes hex n = hex_loop hex"
proof (induction hex arbitrary: n rule: hex_loop.induct)
  case (1 h l hex)
  then show ?case by (cases n) (auto simp: key_nibble_lower Let_def)
qed auto


section \<open>Collecting a body\<close>

text \<open>The static buffer as the bytes written so far, and its length counter.\<close>

type_synonym body_buf = "string \<times> nat"

definition body_event :: "nat \<Rightarrow> body_buf \<Rightarrow> string \<Rightarrow> body_buf" where
  "body_event body_max buf data =
     (let (s_body, s_body_len) = buf
      in if s_body_len + length data > body_max then (s_body, body_max + 1)
         else (take s_body_len s_body @ data, s_body_len + length data))"

lemma body_poisoned:
  "n > m \<Longrightarrow> foldl (body_event m) (b, n) ds = (b, if ds = [] then n else m + 1)"
  by (induction ds arbitrary: n) (auto simp: body_event_def)

text \<open>The buffer never overruns: it holds the whole body, or the counter says it did not fit.\<close>

lemma body_collected:
  assumes "length b \<le> m"
  shows "foldl (body_event m) (b, length b) ds =
    (if length b + length (concat ds) \<le> m then (b @ concat ds, length b + length (concat ds))
     else (fst (foldl (body_event m) (b, length b) ds), m + 1))"
  using assms
proof (induction ds arbitrary: b)
  case (Cons d ds)
  show ?case
  proof (cases "length b + length d \<le> m")
    case True
    then have e: "foldl (body_event m) (b, length b) (d # ds) =
        foldl (body_event m) (b @ d, length (b @ d)) ds"
      by (simp add: body_event_def)
    show ?thesis unfolding e by (subst Cons.IH) (use True in \<open>simp_all add: add.assoc\<close>)
  next
    case False
    then have e: "foldl (body_event m) (b, length b) (d # ds) = foldl (body_event m) (b, m + 1) ds"
      by (simp add: body_event_def)
    then show ?thesis using False unfolding e body_poisoned [OF less_add_one] by simp
  qed
qed simp

end
