(* ===== verification/Sync_Client.thy ===== *)
theory Sync_Client
  imports Sync_Parse Client_Io
begin

text \<open>
  \<^verbatim>\<open>components/code_sync/sync_client.c\<close>: the task that fetches, authenticates and
  applies the code set.  The record holds the statics of the file and the
  \<open>sync_ctx_t\<close> it works on; the table is passed along.  The lock is held around
  each call into \<open>sync_logic\<close>, so those calls are atomic steps; logging and the
  stack report are left out.
\<close>

section \<open>State\<close>

record sync_client_config =
  cfg_url :: "string option"
  cfg_gate_id :: "string option"
  cfg_delivery_key :: "string option"
  cfg_lock :: bool       \<comment> \<open>\<open>cfg->lock != NULL\<close>, and so on\<close>
  cfg_unlock :: bool
  cfg_online :: bool
  cfg_now_ms :: bool

record 'n sync_client =
  url :: string
  gate_id :: string
  s_key :: "u8 list"
  s_key_ok :: bool
  s_generation :: u64
  sync_task :: bool      \<comment> \<open>\<open>s_task != NULL\<close>\<close>
  sctx :: sync_ctx
  sync_nvs :: 'n

abbreviation SYNC_NVS_NS :: string where "SYNC_NVS_NS \<equiv> ''gate_sync''"
abbreviation NVS_KEY_GEN :: string where "NVS_KEY_GEN \<equiv> ''gen''"


section \<open>Operations\<close>

definition sync_compute_mac :: "hmac_fn \<Rightarrow> 'n sync_client \<Rightarrow> mac_fn" where
  "sync_compute_mac hmac c region =
     (if \<not> s_key_ok c then None
      else map_option (\<lambda>digest. hex_text digest @ [NUL]) (hmac (s_key c) region))"

definition save_generation :: "'n nvs_ops \<Rightarrow> 'n sync_client \<Rightarrow> u64 \<Rightarrow> 'n sync_client" where
  "save_generation N c gen = c\<lparr>sync_nvs := nvs_put N (sync_nvs c) SYNC_NVS_NS NVS_KEY_GEN gen\<rparr>"

definition sync_client_init ::
  "'n nvs_ops \<Rightarrow> sync_client_config \<Rightarrow> 'n sync_client \<Rightarrow> 'n sync_client \<times> esp_err" where
  "sync_client_init N cfg c =
     (case (cfg_url cfg, cfg_gate_id cfg, cfg_delivery_key cfg) of
        (Some u, Some g, Some key) \<Rightarrow>
          if \<not> cfg_lock cfg \<or> \<not> cfg_unlock cfg \<or> \<not> cfg_online cfg \<or> \<not> cfg_now_ms cfg
          then (c, ESP_ERR_INVALID_ARG)
          else
            (let c = c\<lparr>url := u, gate_id := g\<rparr>
             in case (if length (cstr key) \<noteq> 64 then None else key_hex_to_bytes (cstr key) 32) of
                  None \<Rightarrow> (c\<lparr>s_key_ok := False\<rparr>, ESP_ERR_INVALID_ARG)
                | Some k \<Rightarrow>
                    (let stored = (case nvs_get N (sync_nvs c) SYNC_NVS_NS NVS_KEY_GEN of
                                     None \<Rightarrow> 0 | Some g \<Rightarrow> g)
                     in (c\<lparr>s_key := k, s_key_ok := True, s_generation := stored,
                          sctx := sync_init stored 0\<rparr>, ESP_OK)))
      | _ \<Rightarrow> (c, ESP_ERR_INVALID_ARG))"

text \<open>The response body, or the reason there is none.\<close>

definition sync_fetch :: "http_fn \<Rightarrow> 'n sync_client \<Rightarrow> esp_err + string" where
  "sync_fetch http c =
     (let reply = http (url c)
      in if \<not> client_made reply then Inl ESP_FAIL
         else
           (let (s_body, s_body_len) = foldl (body_event SYNC_BODY_MAX) ([], 0) (data_events reply)
            in if perform_err reply \<noteq> ESP_OK then Inl (perform_err reply)
               else if http_status reply \<noteq> 200 then Inl ESP_FAIL
               else if s_body_len = 0 then Inl ESP_FAIL
               else if s_body_len > SYNC_BODY_MAX then Inl ESP_ERR_INVALID_SIZE
               else Inr (s_body @ [NUL])))"

definition note_failure :: "'n sync_client \<Rightarrow> u32 \<Rightarrow> 'n sync_client" where
  "note_failure c at_ms = c\<lparr>sctx := sync_failed (sctx c) at_ms\<rparr>"

definition do_sync ::
  "hmac_fn \<Rightarrow> 'n nvs_ops \<Rightarrow> http_fn \<Rightarrow> 'n sync_client \<Rightarrow> ac_ctx \<Rightarrow> u32 \<Rightarrow> 'n sync_client \<times> ac_ctx \<times> bool" where
  "do_sync hmac N http c table at_ms =
     (if \<not> s_key_ok c then (c, table, False)
      else
        (case sync_fetch http c of
           Inl _ \<Rightarrow> (note_failure c at_ms, table, False)
         | Inr body \<Rightarrow>
             (let (pr, st) = sync_parse (Some body) (Some (gate_id c)) (sync_compute_mac hmac c) zero_set
              in if pr \<noteq> SYNC_PARSE_OK then (note_failure c at_ms, table, False)
                 else
                   (let (ctx, table, ar) = sync_apply (sctx c) table (Some st) at_ms;
                        c = c\<lparr>sctx := ctx\<rparr>;
                        gen = generation ctx
                    in case ar of
                         SYNC_APPLIED \<Rightarrow> (save_generation N (c\<lparr>s_generation := gen\<rparr>) gen, table, True)
                       | SYNC_OVERFLOWED \<Rightarrow> (save_generation N (c\<lparr>s_generation := gen\<rparr>) gen, table, True)
                       | SYNC_UNCHANGED \<Rightarrow> (c, table, False)
                       | SYNC_STALE \<Rightarrow> (c, table, False)
                       | SYNC_BAD_ENTRY \<Rightarrow> (c, table, False)))))"

definition poll_is_due :: "'n sync_client \<Rightarrow> u32 \<Rightarrow> bool" where
  "poll_is_due c at_ms = sync_due (sctx c) at_ms"

text \<open>One turn of the endless loop of the task.\<close>

definition sync_task_turn ::
  "hmac_fn \<Rightarrow> 'n nvs_ops \<Rightarrow> http_fn \<Rightarrow> bool \<Rightarrow> u32 \<Rightarrow> 'n sync_client \<Rightarrow> ac_ctx \<Rightarrow> 'n sync_client \<times> ac_ctx" where
  "sync_task_turn hmac N http online at_ms c table =
     (if online \<and> poll_is_due c at_ms
      then (let (c, table, _) = do_sync hmac N http c table at_ms in (c, table))
      else (c, table))"

text \<open>Starting the task; \<open>created\<close> is whether \<open>xTaskCreate\<close> succeeded.\<close>

definition sync_client_start :: "'n sync_client \<Rightarrow> bool \<Rightarrow> 'n sync_client \<times> esp_err" where
  "sync_client_start c created =
     (if \<not> s_key_ok c then (c, ESP_ERR_INVALID_STATE)
      else if sync_task c then (c, ESP_OK)
      else if \<not> created then (c\<lparr>sync_task := False\<rparr>, ESP_ERR_NO_MEM)
      else (c\<lparr>sync_task := True\<rparr>, ESP_OK))"

definition sync_client_poll_now ::
  "hmac_fn \<Rightarrow> 'n nvs_ops \<Rightarrow> http_fn \<Rightarrow> 'n sync_client \<Rightarrow> ac_ctx \<Rightarrow> u32 \<Rightarrow> 'n sync_client \<times> ac_ctx \<times> esp_err" where
  "sync_client_poll_now hmac N http c table now =
     (let (c, table, ok) = do_sync hmac N http c table now
      in (c, table, if ok then ESP_OK else ESP_FAIL))"

definition sync_client_generation :: "'n sync_client \<Rightarrow> u64" where
  "sync_client_generation c = s_generation c"


section \<open>Lemmas\<close>

lemma sync_mac_fills: "hmac_sized hmac \<Longrightarrow> mac_fills (sync_compute_mac hmac c)"
  by (auto simp: mac_fills_def sync_compute_mac_def hmac_sized_def split: if_splits)

lemma fetch_collects:
  assumes "client_made (http (url c))" "perform_err (http (url c)) = ESP_OK" "http_status (http (url c)) = 200"
    "concat (data_events (http (url c))) = body" "body \<noteq> []" "length body \<le> SYNC_BODY_MAX"
  shows "sync_fetch http c = Inr (body @ [NUL])"
  using assms body_collected [of "[]" SYNC_BODY_MAX "data_events (http (url c))"]
  by (simp add: sync_fetch_def Let_def)

lemma do_sync_applied:
  assumes "s_key_ok c" "sync_fetch http c = Inr body"
    "sync_parse (Some body) (Some (gate_id c)) (sync_compute_mac hmac c) zero_set = (SYNC_PARSE_OK, st)"
    "set_acceptable (sctx c) st"
  shows "do_sync hmac N http c table t =
    (save_generation N (c\<lparr>sctx := accepted_ctx (sctx c) st t, s_generation := set_generation st\<rparr>)
       (set_generation st), fst (snd (sync_apply (sctx c) table (Some st) t)), True)"
  by (simp add: do_sync_def assms sync_apply_accepted [OF assms(4)] Let_def accepted_ctx_def)

text \<open>A poll changes the table only through an accepted, authenticated set.\<close>

lemma do_sync_cases:
  obtains (kept) "fst (snd (do_sync hmac N http c table t)) = table"
      "generation (sctx (fst (do_sync hmac N http c table t))) = generation (sctx c)"
      "sync_nvs (fst (do_sync hmac N http c table t)) = sync_nvs c"
      "snd (snd (do_sync hmac N http c table t)) = False"
    | (applied) body st where "s_key_ok c" "sync_fetch http c = Inr body"
      "sync_parse (Some body) (Some (gate_id c)) (sync_compute_mac hmac c) zero_set = (SYNC_PARSE_OK, st)"
      "set_acceptable (sctx c) st"
      "sctx (fst (do_sync hmac N http c table t)) = fst (sync_apply (sctx c) table (Some st) t)"
      "fst (snd (do_sync hmac N http c table t)) = fst (snd (sync_apply (sctx c) table (Some st) t))"
      "sync_nvs (fst (do_sync hmac N http c table t)) =
         nvs_put N (sync_nvs c) SYNC_NVS_NS NVS_KEY_GEN (set_generation st)"
      "snd (snd (do_sync hmac N http c table t)) = True"
proof (cases "\<exists>body st. s_key_ok c \<and> sync_fetch http c = Inr body \<and>
    sync_parse (Some body) (Some (gate_id c)) (sync_compute_mac hmac c) zero_set = (SYNC_PARSE_OK, st)")
  case False
  then have "do_sync hmac N http c table t = (c, table, False) \<or>
      do_sync hmac N http c table t = (note_failure c t, table, False)"
    unfolding do_sync_def by (auto simp: split_def Let_def split: sum.splits) (metis prod.collapse)
  then show thesis
    by (intro kept) (auto simp: note_failure_def sync_failed_def schedule_next_def)
next
  case True
  then obtain body st where h: "s_key_ok c" "sync_fetch http c = Inr body"
    "sync_parse (Some body) (Some (gate_id c)) (sync_compute_mac hmac c) zero_set = (SYNC_PARSE_OK, st)"
    by blast
  show thesis
  proof (cases "set_acceptable (sctx c) st")
    case acc: True
    show thesis
      by (rule applied [OF h acc])
        (simp_all add: do_sync_applied [OF h acc] sync_apply_accepted [OF acc] save_generation_def)
  next
    case False
    show thesis
    proof (rule sync_apply_refused [OF False, of table t])
      fix r assume r: "r \<in> {SYNC_UNCHANGED, SYNC_STALE, SYNC_BAD_ENTRY}"
        "sync_apply (sctx c) table (Some st) t =
          (if r = SYNC_UNCHANGED then sync_unchanged (sctx c) t else sctx c, table, r)"
      then show thesis
        by (intro kept) (auto simp: do_sync_def h sync_unchanged_def schedule_next_def)
    qed
  qed
qed



text \<open>A published set, from the pieces of the answer to the table and the store.\<close>

lemma turn_installs:
  assumes "nvs_works N" "s_key_ok c" "poll_is_due c t" "ac_inv table"
    "list_all renderable es" "length es \<le> SYNC_MAX_ENTRIES" "uint g \<le> INT64_MAX"
    "LF \<notin> set (gate_id c)" "NUL \<notin> set (gate_id c)"
    "hmac (s_key c) (set_region (gate_id c) g es) = Some digest" "length digest = 32"
    "length (set_region (gate_id c) g es) + 69 \<le> SYNC_BODY_MAX"
    "client_made (http (url c))" "perform_err (http (url c)) = ESP_OK" "http_status (http (url c)) = 200"
    "concat (data_events (http (url c))) = set_region (gate_id c) g es @ ''mac '' @ hex_text digest @ [LF]"
    "generation (sctx c) < g" "distinct (map (cstr \<circ> entry_id) es)"
    "\<forall>e\<in>set es. transients (ac_table table) (cstr (entry_id e)) = None"
    "sync_task_turn hmac N http True t c table = (c', table')"
  shows "ac_table table' = transients (ac_table table) ++
      map_of (take (AC_MAX_SLOTS - card (dom (transients (ac_table table)))) (map binding (filter holdable es))) \<and>
    generation (sctx c') = g \<and> nvs_get N (sync_nvs c') SYNC_NVS_NS NVS_KEY_GEN = Some g"
proof -
  let ?body = "set_region (gate_id c) g es @ ''mac '' @ hex_text digest @ [LF]"
  have len: "length ?body \<le> SYNC_BODY_MAX" using assms(11,12) by simp
  have fetch: "sync_fetch http c = Inr (?body @ [NUL])"
    using len by (intro fetch_collects assms(13-16)) simp
  have mac: "sync_compute_mac hmac c (set_region (gate_id c) g es) = Some (hex_text digest @ [NUL])"
    by (simp add: sync_compute_mac_def assms(2,10))
  have plain: "sync_parse (Some ?body) (Some (gate_id c)) (sync_compute_mac hmac c) zero_set =
      (SYNC_PARSE_OK, set_of g es)"
    using assms(11) set_hex_text by (intro parse_rendered assms(5-9,12) mac) simp_all
  have nul: "NUL \<notin> set ?body"
  proof -
    have "NUL \<notin> set (lines_text (set_lines (gate_id c) g es))"
      using set_lines_plain(2) [OF assms(5,8,9)] by (auto simp: lines_text_def)
    moreover have "NUL \<notin> set hex_chars" by (simp add: hex_chars_def)
    ultimately show ?thesis using set_hex_text [of digest] by (auto simp: set_region_def)
  qed
  have parse: "sync_parse (Some (?body @ [NUL])) (Some (gate_id c)) (sync_compute_mac hmac c) zero_set =
      (SYNC_PARSE_OK, set_of g es)"
    unfolding sync_parse_NUL [OF nul len] by (rule plain)
  have used: "set_used (set_of g es) = es" using assms(6) by (simp add: set_used_def set_of_def)
  have sound: "set_sound (set_of g es)"
    using parse_region_sound [OF parse_region_render [OF assms(5-9)]] .
  have acc: "set_acceptable (sctx c) (set_of g es)"
    using sound assms(17) by (auto simp: set_acceptable_def set_sound_def set_of_def)
  have "do_sync hmac N http c table t = (c', table', True)"
    using assms(3,20) do_sync_applied [OF assms(2) fetch parse acc, of N table t]
    by (simp add: sync_task_turn_def)
  then have c': "c' = save_generation N (c\<lparr>sctx := accepted_ctx (sctx c) (set_of g es) t,
      s_generation := g\<rparr>) g" "table' = fst (snd (sync_apply (sctx c) table (Some (set_of g es)) t))"
    using do_sync_applied [OF assms(2) fetch parse acc, of N table t] by (simp_all add: set_of_def)
  obtain ctx2 table2 r where ap: "sync_apply (sctx c) table (Some (set_of g es)) t = (ctx2, table2, r)"
    by (rule prod_cases3)
  have "ac_table table2 = transients (ac_table table) ++
      map_of (take (AC_MAX_SLOTS - card (dom (transients (ac_table table)))) (map binding (filter holdable es)))"
    using sync_apply_table [OF assms(4) _ acc _ _ ap] sound assms(18,19) by (simp add: used set_sound_def)
  moreover have "table' = table2" using c'(2) ap by simp
  moreover have "set_generation (set_of g es) = g" by (simp add: set_of_def)
  ultimately show ?thesis using assms(1)
    by (simp add: c'(1) save_generation_def nvs_works_def accepted_ctx_def)
qed

text \<open>A gate, a key, a store and a server.\<close>

definition map_nvs :: "(string \<times> string \<Rightarrow> u64 option) nvs_ops" where
  "map_nvs = \<lparr>nvs_get = (\<lambda>n ns k. n (ns, k)), nvs_put = (\<lambda>n ns k v. n((ns, k) \<mapsto> v))\<rparr>"

definition demo_hmac :: hmac_fn where
  "demo_hmac k region = Some (replicate 32 171)"

definition demo_client :: "(string \<times> string \<Rightarrow> u64 option) sync_client" where
  "demo_client = \<lparr>url = ''https://gate'', gate_id = ''g'', s_key = replicate 32 1, s_key_ok = True,
     s_generation = 2, sync_task = True, sctx = sync_init 2 0, sync_nvs = Map.empty\<rparr>"

definition demo_body :: string where
  "demo_body = set_region ''g'' 3 [demo_entry ''000000b7'' 9 500 600] @ ''mac '' @
     hex_text (replicate 32 171) @ [LF]"

definition demo_http :: http_fn where
  "demo_http u = \<lparr>client_made = True, perform_err = ESP_OK, http_status = 200,
     data_events = [take 50 demo_body, drop 50 demo_body]\<rparr>"

lemma map_nvs_works: "nvs_works map_nvs"
  by (auto simp: nvs_works_def map_nvs_def)

lemma demo_http_simps:
  "client_made (demo_http u)" "perform_err (demo_http u) = ESP_OK" "http_status (demo_http u) = 200"
  "concat (data_events (demo_http u)) = demo_body"
  by (simp_all add: demo_http_def)

lemma demo_client_fields:
  "s_key_ok demo_client" "poll_is_due demo_client 5" "gate_id demo_client = ''g''"
  "generation (sctx demo_client) = 2" "demo_hmac k r = Some (replicate 32 171)"
  by (simp_all add: demo_client_def poll_is_due_def sync_due_def sync_init_def demo_hmac_def)

lemma demo_body_fits: "length (set_region ''g'' 3 [demo_entry ''000000b7'' 9 500 600]) + 69 \<le> SYNC_BODY_MAX"
  by (simp add: length_set_region code_line_def demo_entry_def int_text_def nat_text.simps)

lemma demo_entry_fresh:
  "\<forall>e\<in>set [demo_entry ''000000b7'' 9 500 600]. transients (ac_table guest_table) (cstr (entry_id e)) = None"
  by (simp add: guest_table_transients) (simp add: demo_entry_def)

lemma demo_entry_plain: "LF \<notin> set (gate_id demo_client)" "NUL \<notin> set (gate_id demo_client)"
  "distinct (map (cstr \<circ> entry_id) [demo_entry ''000000b7'' 9 500 600])"
  "length [demo_entry ''000000b7'' 9 500 600] \<le> SYNC_MAX_ENTRIES" "uint (3 :: u64) \<le> INT64_MAX"
  "generation (sctx demo_client) < 3" "length (replicate 32 (171 :: u8)) = 32"
  by (simp_all add: demo_client_fields)

lemmas demo_turn_facts = map_nvs_works demo_client_fields(1,2) guest_table_inv demo_renderable demo_entry_plain(4,5,1,2)
  demo_client_fields(5) demo_entry_plain(7) demo_body_fits [folded demo_client_fields(3)] demo_http_simps(1-3)
  demo_http_simps(4) [unfolded demo_body_def, folded demo_client_fields(3)] demo_entry_plain(6,3) demo_entry_fresh


section \<open>Properties\<close>

text \<open>C13: whatever the network answers, the codes change only by the backend's word.  If a poll
  changes the table or the generation, the fetched text is a region, the word \<open>mac\<close> and the
  HMAC of that region under the delivery key, in hexadecimal, followed by line ends only; the set
  applied is the one that region spells out, and it is not older than the one held.\<close>

theorem only_signed_sets_apply:
  assumes "hmac_sized hmac" "do_sync hmac N http c table t = (c', table', r)"
    "table' \<noteq> table \<or> generation (sctx c') \<noteq> generation (sctx c)"
  shows "\<exists>body region tail digest st. sync_fetch http c = Inr body \<and>
    cstr body = region @ ''mac '' @ hex_text digest @ tail \<and> set tail \<subseteq> {LF, CR} \<and>
    hmac (s_key c) region = Some digest \<and>
    parse_region region (gate_id c) zero_set = (SYNC_PARSE_OK, st) \<and>
    generation (sctx c) \<le> set_generation st \<and> generation (sctx c') = set_generation st \<and>
    table' = fst (snd (sync_apply (sctx c) table (Some st) t))"
proof (rule do_sync_cases [of hmac N http c table t])
  assume "fst (snd (do_sync hmac N http c table t)) = table"
    "generation (sctx (fst (do_sync hmac N http c table t))) = generation (sctx c)"
  with assms(2,3) show ?thesis by simp
next
  fix body st assume a: "s_key_ok c" "sync_fetch http c = Inr body"
    "sync_parse (Some body) (Some (gate_id c)) (sync_compute_mac hmac c) zero_set = (SYNC_PARSE_OK, st)"
    "set_acceptable (sctx c) st"
    "sctx (fst (do_sync hmac N http c table t)) = fst (sync_apply (sctx c) table (Some st) t)"
    "fst (snd (do_sync hmac N http c table t)) = fst (snd (sync_apply (sctx c) table (Some st) t))"
  from sync_parse_signed [OF sync_mac_fills [OF assms(1)] a(3)] obtain region tail e where
    p: "cstr body = region @ ''mac '' @ take 64 e @ tail" "set tail \<subseteq> {LF, CR}"
    "sync_compute_mac hmac c region = Some e" "parse_region region (gate_id c) zero_set = (SYNC_PARSE_OK, st)"
    by metis
  then obtain digest where d: "hmac (s_key c) region = Some digest" "e = hex_text digest @ [NUL]"
    by (auto simp: sync_compute_mac_def a(1))
  then have "take 64 e = hex_text digest" using assms(1) by (simp add: hmac_sized_def)
  moreover have "generation (sctx c') = set_generation st" "generation (sctx c) \<le> set_generation st"
    using a(4,5) assms(2) by (simp_all add: sync_apply_generation set_acceptable_def)
  moreover have "table' = fst (snd (sync_apply (sctx c) table (Some st) t))" using a(6) assms(2) by simp
  ultimately show ?thesis
    using a(2) p(1,2,4) d(1) by (intro exI [of _ body] exI [of _ region] exI [of _ tail] exI [of _ digest]
        exI [of _ st]) simp
qed

theorem only_signed_sets_apply_witness:
  "\<exists>body region tail digest. sync_fetch demo_http demo_client = Inr body \<and>
     cstr body = region @ ''mac '' @ hex_text digest @ tail \<and> demo_hmac (s_key demo_client) region = Some digest"
proof -
  obtain c t r where d: "do_sync demo_hmac map_nvs demo_http demo_client guest_table 5 = (c, t, r)"
    by (rule prod_cases3)
  then have "sync_task_turn demo_hmac map_nvs demo_http True 5 demo_client guest_table = (c, t)"
    by (simp add: sync_task_turn_def demo_client_fields)
  from turn_installs [OF demo_turn_facts this]
  have "t \<noteq> guest_table \<or> generation (sctx c) \<noteq> generation (sctx demo_client)" by (simp add: demo_client_fields)
  with only_signed_sets_apply [OF _ d] show ?thesis by (auto simp: hmac_sized_def demo_hmac_def)
qed

text \<open>C20: a published set reaches the gate.  When the poll is due and the link is up, the set the
  backend published for this gate, signed with the shared key and delivered in any number of
  pieces, replaces the guest codes: the table is the transient codes and the entries that fit, in
  order, the generation is the published one and it is in the store, where the next start of the
  client finds it.\<close>

theorem published_set_is_held:
  assumes "nvs_works N" "s_key_ok c" "poll_is_due c t" "ac_inv table"
    "list_all renderable es" "length es \<le> SYNC_MAX_ENTRIES" "uint g \<le> INT64_MAX"
    "LF \<notin> set (gate_id c)" "NUL \<notin> set (gate_id c)"
    "hmac (s_key c) (set_region (gate_id c) g es) = Some digest" "length digest = 32"
    "length (set_region (gate_id c) g es) + 69 \<le> SYNC_BODY_MAX"
    "client_made (http (url c))" "perform_err (http (url c)) = ESP_OK" "http_status (http (url c)) = 200"
    "concat (data_events (http (url c))) = set_region (gate_id c) g es @ ''mac '' @ hex_text digest @ [LF]"
    "generation (sctx c) < g" "distinct (map (cstr \<circ> entry_id) es)"
    "\<forall>e\<in>set es. transients (ac_table table) (cstr (entry_id e)) = None"
    "sync_task_turn hmac N http True t c table = (c', table')"
  shows "ac_table table' = transients (ac_table table) ++
      map_of (take (AC_MAX_SLOTS - card (dom (transients (ac_table table)))) (map binding (filter holdable es))) \<and>
    generation (sctx c') = g \<and> nvs_get N (sync_nvs c') SYNC_NVS_NS NVS_KEY_GEN = Some g"
  using assms by (rule turn_installs)

theorem published_set_is_held_witness:
  "ac_table (snd (sync_task_turn demo_hmac map_nvs demo_http True 5 demo_client guest_table)) =
     [''dev1'' \<mapsto> (replicate 32 8, 100, 200, True), ''000000b7'' \<mapsto> (replicate 32 9, 500, 600, False)]"
proof -
  obtain c t where turn: "sync_task_turn demo_hmac map_nvs demo_http True 5 demo_client guest_table = (c, t)"
    by (rule prod.exhaust)
  from published_set_is_held [OF demo_turn_facts turn] show ?thesis
    by (simp add: turn guest_table_transients demo_entry_def binding_def holdable_def map_add_def fun_eq_iff)
qed

end
