(* ===== verification/Tg_Proto.thy ===== *)
theory Tg_Proto
  imports Wire_Text
begin

text \<open>
  \<^verbatim>\<open>components/tg_client/tg_proto.c\<close>: one signed line that adds or revokes a code,
  as it arrives over Telegram.  The MAC is a parameter, as in the sync format.
  The verdict is an error or the message; what an error leaves in \<open>*out\<close> is
  not modelled, the only caller reads it after \<open>TG_OK\<close> alone.
\<close>

section \<open>Data\<close>

abbreviation TG_LINE_MAX :: nat where "TG_LINE_MAX \<equiv> 256"
abbreviation TG_MAC_HEX_LEN :: nat where "TG_MAC_HEX_LEN \<equiv> 64"
abbreviation FIELD_COUNT :: nat where "FIELD_COUNT \<equiv> 8"
abbreviation TG_INT64_MAX :: u64 where "TG_INT64_MAX \<equiv> 9223372036854775807"

datatype tg_result =
    TG_OK
  | TG_ERR_FORMAT
  | TG_ERR_VERSION
  | TG_ERR_MAC
  | TG_ERR_REPLAY
  | TG_ERR_ID
  | TG_ERR_HASH
  | TG_ERR_WINDOW
  | TG_ERR_OP

datatype tg_op = TG_OP_ADD | TG_OP_REVOKE

record tg_msg =
  msg_counter :: u64
  msg_op :: tg_op
  msg_id :: string
  msg_hash :: "u8 list"
  msg_from :: i64
  msg_until :: i64


section \<open>Operations\<close>

text \<open>The digits are read modulo \<open>2^64\<close>; the only overflow test is \<open>next < v\<close>.\<close>

fun u64_loop :: "string \<Rightarrow> u64 \<Rightarrow> u64 option" where
  "u64_loop [] v = Some v"
| "u64_loop (c # s) v =
     (if c < CHR ''0'' \<or> c > CHR ''9'' then None
      else
        (let nxt = v * 10 + word_of_int (digit_value c)
         in if nxt < v then None else u64_loop s nxt))"

definition tg_parse_u64 :: "string \<Rightarrow> u64 option" where
  "tg_parse_u64 s = (if length s = 0 \<or> length s > 20 then None else u64_loop s 0)"

definition tg_parse_i64 :: "string \<Rightarrow> i64 option" where
  "tg_parse_i64 s =
     (let negative = (length s > 0 \<and> s ! 0 = CHR ''-'')
      in case tg_parse_u64 (if negative then drop 1 s else s) of
           None \<Rightarrow> None
         | Some magnitude \<Rightarrow>
             if magnitude > TG_INT64_MAX then None
             else Some (if negative then - uint magnitude else uint magnitude))"

definition tg_parse :: "string option \<Rightarrow> u64 \<Rightarrow> (string \<Rightarrow> string option) \<Rightarrow> tg_result + tg_msg" where
  "tg_parse line_ptr last_counter mac =
     (case line_ptr of
        None \<Rightarrow> Inl TG_ERR_FORMAT
      | Some buf \<Rightarrow>
          (let len = bounded_len TG_LINE_MAX buf; line = take len buf
           in if len = 0 \<or> len > TG_LINE_MAX then Inl TG_ERR_FORMAT
              else
                (case split_loop CHR ''|'' FIELD_COUNT line [] [] of
                   None \<Rightarrow> Inl TG_ERR_FORMAT
                 | Some field \<Rightarrow>
                     if length field \<noteq> FIELD_COUNT then Inl TG_ERR_FORMAT
                     else if field ! 0 \<noteq> ''v1'' then Inl TG_ERR_VERSION
                     else
                       (let signed_len = len - length (field ! 7) - 1
                        in case mac (take signed_len line) of
                             None \<Rightarrow> Inl TG_ERR_MAC
                           | Some expected \<Rightarrow>
                               if length (field ! 7) \<noteq> TG_MAC_HEX_LEN \<or>
                                  \<not> ct_equal_text (field ! 7) expected TG_MAC_HEX_LEN
                               then Inl TG_ERR_MAC
                               else
                                 (case tg_parse_u64 (field ! 1) of
                                    None \<Rightarrow> Inl TG_ERR_FORMAT
                                  | Some counter \<Rightarrow>
                                      if counter \<le> last_counter then Inl TG_ERR_REPLAY
                                      else if field ! 2 \<noteq> ''add'' \<and> field ! 2 \<noteq> ''rev''
                                      then Inl TG_ERR_OP
                                      else if length (field ! 3) \<noteq> AC_ID_LEN - 1 then Inl TG_ERR_ID
                                      else if list_ex (\<lambda>c. hex_nibble c < 0) (field ! 3)
                                      then Inl TG_ERR_ID
                                      else if field ! 2 = ''add''
                                      then
                                        (case hex_to_bytes (field ! 4) AC_HASH_LEN of
                                           None \<Rightarrow> Inl TG_ERR_HASH
                                         | Some h \<Rightarrow>
                                             (case tg_parse_i64 (field ! 5) of
                                                None \<Rightarrow> Inl TG_ERR_FORMAT
                                              | Some valid_from \<Rightarrow>
                                                  (case tg_parse_i64 (field ! 6) of
                                                     None \<Rightarrow> Inl TG_ERR_FORMAT
                                                   | Some valid_until \<Rightarrow>
                                                       if valid_until < valid_from then Inl TG_ERR_WINDOW
                                                       else Inr \<lparr>msg_counter = counter, msg_op = TG_OP_ADD,
                                                              msg_id = field ! 3 @ [NUL], msg_hash = h,
                                                              msg_from = valid_from,
                                                              msg_until = valid_until\<rparr>)))
                                      else Inr \<lparr>msg_counter = counter, msg_op = TG_OP_REVOKE,
                                             msg_id = field ! 3 @ [NUL],
                                             msg_hash = replicate AC_HASH_LEN 0,
                                             msg_from = 0, msg_until = 0\<rparr>)))))"

definition tg_result_text :: "tg_result \<Rightarrow> string" where
  "tg_result_text r = (case r of
     TG_OK \<Rightarrow> ''ok''
   | TG_ERR_FORMAT \<Rightarrow> ''malformed''
   | TG_ERR_VERSION \<Rightarrow> ''unsupported version''
   | TG_ERR_MAC \<Rightarrow> ''signature does not verify''
   | TG_ERR_REPLAY \<Rightarrow> ''replayed or out of order''
   | TG_ERR_ID \<Rightarrow> ''not a backend id''
   | TG_ERR_HASH \<Rightarrow> ''bad hash''
   | TG_ERR_WINDOW \<Rightarrow> ''inverted validity window''
   | TG_ERR_OP \<Rightarrow> ''unknown operation'')"


section \<open>Numbers\<close>

lemma u64_loop_append:
  "u64_loop (s @ t) v = (case u64_loop s v of None \<Rightarrow> None | Some w \<Rightarrow> u64_loop t w)"
  by (induction s arbitrary: v) (auto simp: Let_def)

lemma u64_loop_digit:
  assumes "d < 10" "10 * q + d < 2 ^ 64"
  shows "u64_loop [digit_char d] (of_nat q) = Some (of_nat (10 * q + d))"
proof -
  have u: "unat (of_nat (10 * q + d) :: u64) = 10 * q + d" "unat (of_nat q :: u64) = q"
    using assms(2) by (simp_all only: unat_of_nat) (simp_all add: take_bit_nat_eq_self)
  have "(of_nat q * 10 + word_of_int (int d) :: u64) = of_nat (10 * q + d)" by simp
  moreover have "\<not> (of_nat (10 * q + d) :: u64) < of_nat q"
    unfolding word_less_nat_alt u by simp
  ultimately show ?thesis
    using digit_char [OF assms(1)] not_digit [of "digit_char d"] by (simp only: u64_loop.simps Let_def) simp
qed

lemma u64_loop_text: "n < 2 ^ 64 \<Longrightarrow> u64_loop (nat_text n) 0 = Some (of_nat n)"
proof (induction n rule: nat_text.induct)
  case (1 n)
  show ?case
  proof (cases "n < 10")
    case True
    then show ?thesis using u64_loop_digit [of n 0] 1(2) by (subst nat_text.simps) simp
  next
    case False
    have "n div 10 < 2 ^ 64" using 1(2) by (rule le_less_trans [OF div_le_dividend])
    then have "u64_loop (nat_text (n div 10)) 0 = Some (of_nat (n div 10))" using 1(1) False by blast
    moreover have "u64_loop [digit_char (n mod 10)] (of_nat (n div 10)) = Some (of_nat (10 * (n div 10) + n mod 10))"
      using 1(2) by (intro u64_loop_digit) simp_all
    ultimately show ?thesis
      using False by (subst nat_text.simps) (simp only: if_False u64_loop_append option.case mult_div_mod_eq)
  qed
qed

lemma tg_parse_u64_text:
  assumes "n < 2 ^ 64"
  shows "tg_parse_u64 (nat_text n) = Some (of_nat n)" "length (nat_text n) \<le> 20"
proof -
  have "n < 10 ^ 20" using assms by simp
  from length_nat_text [OF this] show l: "length (nat_text n) \<le> 20" by simp
  then show "tg_parse_u64 (nat_text n) = Some (of_nat n)"
    using u64_loop_text [OF assms] by (simp add: tg_parse_u64_def not_less)
qed

lemma tg_parse_i64_text:
  assumes "- (2 ^ 63) < v" "v < 2 ^ 63"
  shows "tg_parse_i64 (int_text v) = Some v" "length (int_text v) \<le> 21"
proof -
  define n where "n = nat \<bar>v\<bar>"
  have n: "n < 2 ^ 63" using assms by (simp add: n_def)
  then have "n < 2 ^ 64" by simp
  note p = tg_parse_u64_text [OF this]
  have u: "unat (of_nat n :: u64) = n"
    using n by (simp only: unat_of_nat) (simp add: take_bit_nat_eq_self)
  have small: "\<not> (of_nat n :: u64) > TG_INT64_MAX"
    unfolding word_less_nat_alt u using n by simp
  have ui: "uint (of_nat n :: u64) = int n" unfolding uint_nat u ..
  have "hd (nat_text n) \<in> set ''0123456789''"
    using set_nat_text [of n] hd_in_set [OF nat_text_ne] by blast
  then have h: "nat_text n ! 0 \<noteq> CHR ''-''" by (auto simp: hd_conv_nth [symmetric])
  have v: "v < 0 \<Longrightarrow> v = - int n" "\<not> v < 0 \<Longrightarrow> v = int n" by (simp_all add: n_def)
  have it: "int_text v = (if v < 0 then CHR ''-'' # nat_text n else nat_text n)"
    by (simp add: int_text_def n_def)
  have "tg_parse_i64 (int_text v) = Some v \<and> length (int_text v) \<le> 21"
  proof (cases "v < 0")
    case True
    then have "int_text v = CHR ''-'' # nat_text n" using it by simp
    moreover have "tg_parse_i64 (CHR ''-'' # nat_text n) = Some (- int n)"
      using p(1) small by (simp add: tg_parse_i64_def Let_def ui)
    ultimately show ?thesis using p(2) v(1) [OF True] by simp
  next
    case False
    then have "int_text v = nat_text n" using it by simp
    moreover have "tg_parse_i64 (nat_text n) = Some (int n)"
      using p(1) small h by (simp add: tg_parse_i64_def Let_def ui)
    ultimately show ?thesis using p(2) v(2) [OF False] by simp
  qed
  then show "tg_parse_i64 (int_text v) = Some v" "length (int_text v) \<le> 21" by simp_all
qed


section \<open>Lines\<close>

lemma join_snoc: "fs \<noteq> [] \<Longrightarrow> join sep (fs @ [f]) = join sep fs @ sep # f"
  by (induction sep fs rule: join.induct) auto

text \<open>The signed region of a line is everything before its last separator.\<close>

lemma signed_prefix:
  assumes "split_on sep line = fs @ [f]" "fs \<noteq> []"
  shows "take (length line - length f - 1) line = join sep fs" "line = join sep fs @ sep # f"
proof -
  show l: "line = join sep fs @ sep # f" using join_split_on [of sep line] assms by (simp add: join_snoc)
  show "take (length line - length f - 1) line = join sep fs" by (subst (1 2) l) simp
qed

text \<open>A message as the backend writes it.\<close>

definition op_text :: "tg_op \<Rightarrow> string" where
  "op_text op = (case op of TG_OP_ADD \<Rightarrow> ''add'' | TG_OP_REVOKE \<Rightarrow> ''rev'')"

definition msg_fields :: "tg_msg \<Rightarrow> string list" where
  "msg_fields m = [''v1'', nat_text (unat (msg_counter m)), op_text (msg_op m), cstr (msg_id m),
     hex_text (msg_hash m), int_text (msg_from m), int_text (msg_until m)]"

definition msg_region :: "tg_msg \<Rightarrow> string" where
  "msg_region m = join CHR ''|'' (msg_fields m)"

definition msg_sound :: "u64 \<Rightarrow> tg_msg \<Rightarrow> bool" where
  "msg_sound seen m \<longleftrightarrow> seen < msg_counter m \<and>
     length (cstr (msg_id m)) = AC_ID_LEN - 1 \<and> list_all is_lower_hex (cstr (msg_id m)) \<and>
     length (msg_hash m) = AC_HASH_LEN \<and> msg_from m \<le> msg_until m"

text \<open>
  What a region says, read field by field: its seven fields are the version, the counter, the
  operation, the id, the hash and the window of the message.  A revocation says nothing by its
  last three fields and leaves them zero.
\<close>

definition region_says :: "string \<Rightarrow> tg_msg \<Rightarrow> bool" where
  "region_says region m \<longleftrightarrow> (\<exists>ctr h f u.
     split_on CHR ''|'' region = [''v1'', ctr, op_text (msg_op m), cstr (msg_id m), h, f, u] \<and>
     tg_parse_u64 ctr = Some (msg_counter m) \<and>
     (if msg_op m = TG_OP_ADD
      then h = hex_text (msg_hash m) \<and> tg_parse_i64 f = Some (msg_from m) \<and> tg_parse_i64 u = Some (msg_until m)
      else msg_hash m = replicate AC_HASH_LEN 0 \<and> msg_from m = 0 \<and> msg_until m = 0))"

lemma seven_fields:
  "length xs = 7 \<Longrightarrow> xs = [xs ! 0, xs ! 1, xs ! 2, xs ! 3, xs ! 4, xs ! 5, xs ! 6]"
  by (simp add: list_eq_iff_nth_eq less_Suc_eq numeral_eq_Suc)

lemma tg_parse_sound:
  assumes "tg_parse (Some buf) seen mac = Inr m" "\<forall>s e. mac s = Some e \<longrightarrow> length e = TG_MAC_HEX_LEN + 1"
  obtains region e where "cstr buf = region @ CHR ''|'' # take TG_MAC_HEX_LEN e" "mac region = Some e"
    "msg_sound seen m" "region_says region m"
proof -
  from assms(1) have len: "bounded_len TG_LINE_MAX buf \<le> TG_LINE_MAX"
    by (auto simp: tg_parse_def Let_def split: if_splits)
  note b = bounded_text [OF len]
  define line where "line = cstr buf"
  note u = assms(1) [unfolded tg_parse_def option.case Let_def, unfolded b(1), unfolded b(2), folded line_def]
  from u obtain field where f: "split_loop CHR ''|'' FIELD_COUNT line [] [] = Some field"
    "length field = FIELD_COUNT"
    by (auto split: if_splits option.splits)
  have sp: "split_on CHR ''|'' line = field"
    using f by (simp add: split_loop_Nil split: if_splits)
  from u obtain e where e: "mac (take (length line - length (field ! 7) - 1) line) = Some e"
    "length (field ! 7) = TG_MAC_HEX_LEN" "ct_equal_text (field ! 7) e TG_MAC_HEX_LEN"
    "tg_parse_u64 (field ! 1) = Some (msg_counter m)"
    and c: "seen < msg_counter m" and i: "length (field ! 3) = AC_ID_LEN - 1"
    "list_all is_lower_hex (field ! 3)" "msg_id m = field ! 3 @ [NUL]"
    and h: "length (msg_hash m) = AC_HASH_LEN" "msg_from m \<le> msg_until m" and v: "field ! 0 = ''v1''"
    and op: "field ! 2 = op_text (msg_op m)" "if msg_op m = TG_OP_ADD
      then field ! 4 = hex_text (msg_hash m) \<and> tg_parse_i64 (field ! 5) = Some (msg_from m) \<and>
        tg_parse_i64 (field ! 6) = Some (msg_until m)
      else msg_hash m = replicate AC_HASH_LEN 0 \<and> msg_from m = 0 \<and> msg_until m = 0"
    by (auto simp: f hex_nibble_neg list_ex_iff list_all_iff hex_to_bytes_Some not_le op_text_def
        split: if_splits option.splits)
  have sn: "split_on CHR ''|'' line = take 7 field @ [field ! 7]"
    unfolding sp using f(2) take_Suc_conv_app_nth [of 7 field] by simp
  define region where "region = join CHR ''|'' (take 7 field)"
  have ne: "take 7 field \<noteq> []" using f(2) by auto
  have r: "take (length line - length (field ! 7) - 1) line = region" "line = region @ CHR ''|'' # field ! 7"
    using signed_prefix [OF sn ne] by (simp_all add: region_def)
  have "field ! 7 = take TG_MAC_HEX_LEN e"
    using e assms(2) by (auto simp: ct_equal_text_iff)
  moreover have "region_says region m"
  proof -
    have "split_on CHR ''|'' region = take 7 field"
      unfolding region_def using ne split_on_no_sep sp by (intro split_on_join) (auto dest: in_set_takeD)
    also have "\<dots> = [''v1'', field ! 1, op_text (msg_op m), cstr (msg_id m), field ! 4, field ! 5, field ! 6]"
      using seven_fields [of "take 7 field"] f(2) v op(1) i(3) cstr_backend_id [OF i(2)] by simp
    finally show ?thesis using e(4) op(2) unfolding region_says_def by blast
  qed
  ultimately show ?thesis
    using that [of region e] r e(1) c i h cstr_backend_id [OF i(2)]
    by (simp add: msg_sound_def line_def)
qed

text \<open>A message that can be written on one line.\<close>

definition writable :: "tg_msg \<Rightarrow> bool" where
  "writable m \<longleftrightarrow> msg_id m = cstr (msg_id m) @ [NUL] \<and> length (cstr (msg_id m)) = AC_ID_LEN - 1 \<and>
     list_all is_lower_hex (cstr (msg_id m)) \<and> length (msg_hash m) = AC_HASH_LEN \<and>
     - (2 ^ 63) < msg_from m \<and> msg_from m \<le> msg_until m \<and> msg_until m < 2 ^ 63 \<and>
     (msg_op m = TG_OP_REVOKE \<longrightarrow> msg_hash m = replicate AC_HASH_LEN 0 \<and> msg_from m = 0 \<and> msg_until m = 0)"

definition line_chars :: string where "line_chars = ''v1addrev'' @ decimal_chars @ hex_chars"

lemma tg_parse_render:
  assumes "writable m" "seen < msg_counter m" "mac (msg_region m) = Some (hex @ [NUL])"
    "length hex = TG_MAC_HEX_LEN" "set hex \<subseteq> set hex_chars"
  shows "tg_parse (Some (msg_region m @ CHR ''|'' # hex)) seen mac = Inr m"
proof -
  let ?line = "msg_region m @ CHR ''|'' # hex"
  have w: "msg_id m = cstr (msg_id m) @ [NUL]" "length (cstr (msg_id m)) = AC_ID_LEN - 1"
    "list_all is_lower_hex (cstr (msg_id m))" "length (msg_hash m) = AC_HASH_LEN"
    "- (2 ^ 63) < msg_from m" "msg_from m \<le> msg_until m" "msg_until m < 2 ^ 63"
    and rev: "msg_op m = TG_OP_REVOKE \<Longrightarrow>
      msg_hash m = replicate AC_HASH_LEN 0 \<and> msg_from m = 0 \<and> msg_until m = 0"
    using assms(1) by (auto simp: writable_def)
  have n: "unat (msg_counter m) < 2 ^ 64" using unsigned_less [of "msg_counter m", where 'a = nat] by simp
  note c = tg_parse_u64_text [OF n]
  note f = tg_parse_i64_text [of "msg_from m"] and u = tg_parse_i64_text [of "msg_until m"]
  have fu: "tg_parse_i64 (int_text (msg_from m)) = Some (msg_from m)" "length (int_text (msg_from m)) \<le> 21"
    "tg_parse_i64 (int_text (msg_until m)) = Some (msg_until m)" "length (int_text (msg_until m)) \<le> 21"
    using f u w(5-7) by simp_all
  define fs where "fs = msg_fields m"
  define field where "field = fs @ [hex]"
  have nth: "fs ! 0 = ''v1''" "fs ! 1 = nat_text (unat (msg_counter m))" "fs ! 2 = op_text (msg_op m)"
    "fs ! 3 = cstr (msg_id m)" "fs ! 4 = hex_text (msg_hash m)" "fs ! 5 = int_text (msg_from m)"
    "fs ! 6 = int_text (msg_until m)" "length fs = 7"
    by (simp_all add: fs_def msg_fields_def)
  have at: "field ! 0 = ''v1''" "field ! 1 = nat_text (unat (msg_counter m))" "field ! 2 = op_text (msg_op m)"
    "field ! 3 = cstr (msg_id m)" "field ! 4 = hex_text (msg_hash m)" "field ! 5 = int_text (msg_from m)"
    "field ! 6 = int_text (msg_until m)" "field ! 7 = hex" "length field = FIELD_COUNT"
    using nth by (simp_all add: field_def nth_append)
  have ne: "fs \<noteq> []" using nth(8) by auto
  have line: "?line = join CHR ''|'' field" 
    by (simp add: field_def join_snoc [OF ne] msg_region_def fs_def [symmetric])
  have chars: "\<forall>g\<in>set field. set g \<subseteq> set line_chars"
  proof -
    have "set (nat_text k) \<subseteq> set line_chars" for k
      using set_nat_text [of k] by (rule order.trans) (simp add: line_chars_def decimal_chars_def)
    moreover have "set (op_text (msg_op m)) \<subseteq> set line_chars" "set ''v1'' \<subseteq> set line_chars"
      by (simp_all add: op_text_def line_chars_def split: tg_op.split)
    moreover have "set (cstr (msg_id m)) \<subseteq> set line_chars"
      using w(3) by (auto simp: list_all_iff lower_hex_chars line_chars_def)
    moreover have "set (hex_text (msg_hash m)) \<subseteq> set line_chars" "set hex \<subseteq> set line_chars"
      using set_hex_text [of "msg_hash m"] assms(5) by (auto simp: line_chars_def)
    moreover have "set (int_text v) \<subseteq> set line_chars" for v
      using set_int_text [of v] by (auto simp: line_chars_def)
    ultimately show ?thesis
      unfolding field_def fs_def msg_fields_def append_Cons append_Nil list_all_iff [symmetric]
      by (simp only: list.pred_inject simp_thms)
  qed
  have plain: "CHR ''|'' \<notin> set line_chars" "NUL \<notin> set line_chars"
    by (simp_all add: line_chars_def decimal_chars_def hex_chars_def)
  have "split_on CHR ''|'' ?line = field"
    unfolding line using chars plain(1) at(9) by (intro split_on_join) (auto simp del: set_append)
  then have split: "split_loop CHR ''|'' FIELD_COUNT ?line [] [] = Some field"
    using at(9) by (simp add: split_loop_Nil)
  have len: "length ?line \<le> TG_LINE_MAX"
  proof -
    have "length (op_text (msg_op m)) = 3" by (simp add: op_text_def split: tg_op.split)
    then show ?thesis
      using c(2) fu(2,4) w(2,4) assms(4) by (simp add: msg_region_def msg_fields_def)
  qed
  have "NUL \<notin> set (join CHR ''|'' gs)" if "\<forall>g\<in>set gs. NUL \<notin> set g" for gs
    using that by (induction "CHR ''|''" gs rule: join.induct) auto
  then have nul: "NUL \<notin> set ?line"
    unfolding line using chars plain(2) by blast
  have bl: "bounded_len TG_LINE_MAX ?line = length ?line" by (rule bounded_len_plain [OF nul len])
  have sl: "length ?line - TG_MAC_HEX_LEN - 1 = length (msg_region m)" using assms(4) by simp
  have tk: "take (length (msg_region m)) ?line = msg_region m" by simp
  have eq: "ct_equal_text hex (hex @ [NUL]) TG_MAC_HEX_LEN"
    using assms(4) by (subst ct_equal_text_iff) simp_all
  have gd: "\<not> (length ?line = 0 \<or> TG_LINE_MAX < length ?line)" using len by simp
  have hx: "\<not> list_ex (\<lambda>c. hex_nibble c < 0) (cstr (msg_id m))"
    using w(3) by (auto simp: hex_nibble_neg list_ex_iff list_all_iff)
  have hb: "hex_to_bytes (hex_text (msg_hash m)) AC_HASH_LEN = Some (msg_hash m)"
    by (rule hex_to_bytes_text [OF w(4)])
  have cn: "(of_nat (unat (msg_counter m)) :: u64) = msg_counter m" by simp
  have guards: "\<not> msg_counter m \<le> seen" "\<not> msg_until m < msg_from m" using assms(2) w(6) by simp_all
  note steps = bl gd take_all [OF order.refl] split at(1-7,9) sl tk assms(3) at(8) assms(4) eq c(1) cn guards
    hx w(2) hb fu(1,3)
  show ?thesis
  proof (cases "msg_op m")
    case TG_OP_ADD
    have op: "op_text (msg_op m) = ''add''" by (simp add: TG_OP_ADD op_text_def)
    have "m = \<lparr>msg_counter = msg_counter m, msg_op = TG_OP_ADD, msg_id = cstr (msg_id m) @ [NUL],
        msg_hash = msg_hash m, msg_from = msg_from m, msg_until = msg_until m\<rparr>"
      using TG_OP_ADD w(1) by (cases m) simp
    then show ?thesis
      unfolding tg_parse_def option.case Let_def
      by (simp only: steps op if_False option.case simp_thms if_True)
  next
    case TG_OP_REVOKE
    have op: "op_text (msg_op m) = ''rev''" "''rev'' \<noteq> ''add''" by (simp_all add: TG_OP_REVOKE op_text_def)
    have "m = \<lparr>msg_counter = msg_counter m, msg_op = TG_OP_REVOKE, msg_id = cstr (msg_id m) @ [NUL],
        msg_hash = replicate AC_HASH_LEN 0, msg_from = 0, msg_until = 0\<rparr>"
      using TG_OP_REVOKE w(1) rev by (cases m) simp
    then show ?thesis
      unfolding tg_parse_def option.case Let_def
      by (simp only: steps op if_False option.case simp_thms if_True)
  qed
qed


section \<open>Properties\<close>

definition line_mac :: "string \<Rightarrow> string option" where
  "line_mac region = Some (replicate 64 CHR ''a'' @ [NUL])"

definition demo_msg :: tg_msg where
  "demo_msg = \<lparr>msg_counter = 12, msg_op = TG_OP_ADD, msg_id = ''000000b7'' @ [NUL],
     msg_hash = replicate 32 9, msg_from = 500, msg_until = 600\<rparr>"

lemma demo_writable: "writable demo_msg"
  by (simp add: writable_def demo_msg_def is_lower_hex_def less_eq_char_def)

lemma demo_line_parses:
  "tg_parse (Some (msg_region demo_msg @ CHR ''|'' # replicate 64 CHR ''a'')) 11 line_mac = Inr demo_msg"
  by (rule tg_parse_render [OF demo_writable]) (simp_all add: demo_msg_def line_mac_def hex_chars_def)

text \<open>Only signed lines are obeyed, and only new ones.  An accepted line is a region, a
  separator and the very digits the MAC gives for that region; the message is what the fields of
  that region say, its counter is above the last one accepted, its id is a backend id, and what it adds has a hash of 32 bytes and a window that is
  not inverted.\<close>

theorem accepted_line_is_signed:
  assumes "tg_parse (Some buf) seen mac = Inr m" "\<forall>s e. mac s = Some e \<longrightarrow> length e = TG_MAC_HEX_LEN + 1"
  shows "(\<exists>region e. cstr buf = region @ CHR ''|'' # take TG_MAC_HEX_LEN e \<and> mac region = Some e \<and>
      region_says region m) \<and>
    seen < msg_counter m \<and> \<not> ac_id_is_dev (Some (msg_id m)) \<and>
    length (msg_hash m) = AC_HASH_LEN \<and> msg_from m \<le> msg_until m"
proof -
  have "\<not> id_is_dev_loop f n" if "list_all is_lower_hex f" "n + length f = 8" for f n
    using that by (induction f n rule: id_is_dev_loop.induct) auto
  then have "\<not> ac_id_is_dev (Some (msg_id m))" if "msg_sound seen m"
    using that by (auto simp: ac_id_is_dev_def msg_sound_def)
  with tg_parse_sound [OF assms] show ?thesis
    unfolding msg_sound_def by (metis (no_types, lifting))
qed

theorem accepted_line_is_signed_witness:
  "11 < msg_counter demo_msg \<and> \<not> ac_id_is_dev (Some (msg_id demo_msg))"
  using accepted_line_is_signed [OF demo_line_parses] by (simp add: line_mac_def)

text \<open>The backend's line is read back exactly.  Every message the format can carry, with any
  64-bit counter and any window of 64-bit times, written as a line and signed, is parsed into the
  same message by a gate that has seen a smaller counter.\<close>

theorem written_line_parses:
  assumes "writable m" "seen < msg_counter m" "mac (msg_region m) = Some (hex @ [NUL])"
    "length hex = TG_MAC_HEX_LEN" "set hex \<subseteq> set hex_chars"
  shows "tg_parse (Some (msg_region m @ CHR ''|'' # hex)) seen mac = Inr m"
  using assms by (rule tg_parse_render)

theorem written_line_parses_witness:
  "tg_parse (Some (msg_region demo_msg @ CHR ''|'' # replicate 64 CHR ''f'')) 3
     (\<lambda>region. Some (replicate 64 CHR ''f'' @ [NUL])) = Inr demo_msg"
  by (rule written_line_parses [OF demo_writable]) (simp_all add: demo_msg_def hex_chars_def)

text \<open>The overflow test of the decimal parser does not detect every overflow.  A number of
  twenty digits can wrap to a value that is not below the value before it, and is then accepted
  as a different number.\<close>

theorem overflowing_counter_accepted:
  "tg_parse_u64 ''30000000000000000000'' = Some 11553255926290448384"
  by (simp add: tg_parse_u64_def Let_def digit_value_def less_char_def)

end
