(* ===== verification/Tg_Poll.thy ===== *)
theory Tg_Poll
  imports Gate_Prelude
begin

text \<open>
  \<^verbatim>\<open>components/tg_client/tg_poll.c\<close>: when to ask Telegram for updates, how to
  back off when it fails, and which updates are new.
\<close>

section \<open>Data and operations\<close>

abbreviation TG_BACKOFF_MIN_MS :: u32 where "TG_BACKOFF_MIN_MS \<equiv> 5000"
abbreviation TG_BACKOFF_MAX_MS :: u32 where "TG_BACKOFF_MAX_MS \<equiv> 300000"
abbreviation TG_LONGPOLL_S :: nat where "TG_LONGPOLL_S \<equiv> 50"
abbreviation TG_MIN_GAP_MS :: u32 where "TG_MIN_GAP_MS \<equiv> 1000"

record tg_poll_ctx =
  offset :: u64
  poll_due_ms :: u32
  backoff_ms :: u32
  consecutive_failures :: u32
  offset_dirty :: bool
  started :: bool
  fatal :: bool

definition reached :: "u32 \<Rightarrow> u32 \<Rightarrow> bool" where
  "reached now_ms deadline_ms \<longleftrightarrow> 0 \<le> sint (now_ms - deadline_ms)"

definition tg_poll_init :: "u64 \<Rightarrow> u32 \<Rightarrow> tg_poll_ctx" where
  "tg_poll_init stored_offset now_ms = \<lparr>offset = stored_offset, poll_due_ms = now_ms, backoff_ms = 0,
     consecutive_failures = 0, offset_dirty = False, started = True, fatal = False\<rparr>"

definition tg_poll_due :: "tg_poll_ctx \<Rightarrow> u32 \<Rightarrow> bool \<Rightarrow> bool" where
  "tg_poll_due ctx now_ms online \<longleftrightarrow>
     (if \<not> started ctx \<or> fatal ctx \<or> \<not> online then False
      else reached now_ms (poll_due_ms ctx))"

definition tg_poll_next_offset :: "tg_poll_ctx \<Rightarrow> u64" where
  "tg_poll_next_offset ctx = (if offset ctx = 0 then 0 else offset ctx + 1)"

definition tg_poll_ok :: "tg_poll_ctx \<Rightarrow> u32 \<Rightarrow> tg_poll_ctx" where
  "tg_poll_ok ctx now_ms = ctx\<lparr>backoff_ms := 0, consecutive_failures := 0,
     poll_due_ms := now_ms + TG_MIN_GAP_MS\<rparr>"

definition tg_poll_fatal :: "tg_poll_ctx \<Rightarrow> tg_poll_ctx" where
  "tg_poll_fatal ctx = ctx\<lparr>fatal := True\<rparr>"

definition tg_poll_is_fatal :: "tg_poll_ctx \<Rightarrow> bool" where
  "tg_poll_is_fatal ctx \<longleftrightarrow> fatal ctx"

text \<open>The interval \<open>tg_poll_failed\<close> arms.\<close>

definition next_backoff :: "tg_poll_ctx \<Rightarrow> u32" where
  "next_backoff ctx =
     (if backoff_ms ctx = 0 then TG_BACKOFF_MIN_MS
      else if backoff_ms ctx > TG_BACKOFF_MAX_MS div 2 then TG_BACKOFF_MAX_MS
      else backoff_ms ctx * 2)"

definition tg_poll_failed :: "tg_poll_ctx \<Rightarrow> u32 \<Rightarrow> tg_poll_ctx" where
  "tg_poll_failed ctx now_ms =
     (let ctx = (if consecutive_failures ctx < - 1
                 then ctx\<lparr>consecutive_failures := consecutive_failures ctx + 1\<rparr> else ctx);
          nxt = next_backoff ctx
      in ctx\<lparr>backoff_ms := nxt, poll_due_ms := now_ms + nxt\<rparr>)"

definition tg_poll_consume :: "tg_poll_ctx \<Rightarrow> u64 \<Rightarrow> tg_poll_ctx \<times> bool" where
  "tg_poll_consume ctx update_id =
     (if update_id \<le> offset ctx then (ctx, False)
      else (ctx\<lparr>offset := update_id, offset_dirty := True\<rparr>, True))"

definition tg_poll_should_persist :: "tg_poll_ctx \<Rightarrow> bool" where
  "tg_poll_should_persist ctx \<longleftrightarrow> offset_dirty ctx"

definition tg_poll_persisted :: "tg_poll_ctx \<Rightarrow> tg_poll_ctx" where
  "tg_poll_persisted ctx = ctx\<lparr>offset_dirty := False\<rparr>"


section \<open>Pacing\<close>

text \<open>A poller that runs, with an interval from its ladder.\<close>

definition poll_ready :: "tg_poll_ctx \<Rightarrow> bool" where
  "poll_ready ctx \<longleftrightarrow> started ctx \<and> \<not> fatal ctx \<and>
     (backoff_ms ctx = 0 \<or> TG_BACKOFF_MIN_MS \<le> backoff_ms ctx \<and> backoff_ms ctx \<le> TG_BACKOFF_MAX_MS)"

lemma next_backoff_bounds:
  assumes "poll_ready ctx"
  shows "TG_BACKOFF_MIN_MS \<le> next_backoff ctx \<and> next_backoff ctx \<le> TG_BACKOFF_MAX_MS"
proof (cases "backoff_ms ctx = 0 \<or> backoff_ms ctx > TG_BACKOFF_MAX_MS div 2")
  case True
  then show ?thesis by (auto simp: next_backoff_def)
next
  case False
  then have b: "unat (backoff_ms ctx) \<le> 150000" by (simp add: word_le_nat_alt not_less)
  then have dbl: "unat (backoff_ms ctx * 2) = 2 * unat (backoff_ms ctx)"
    by (subst unat_mult_lem [THEN iffD1]) auto
  from False assms have "5000 \<le> unat (backoff_ms ctx)" by (simp add: poll_ready_def word_le_nat_alt)
  with False b show ?thesis by (simp add: next_backoff_def word_le_nat_alt dbl)
qed

text \<open>The outcome of a request, as the client reports it.\<close>

fun poll_outcome :: "tg_poll_ctx \<Rightarrow> bool \<Rightarrow> u32 \<Rightarrow> tg_poll_ctx" where
  "poll_outcome ctx True t = tg_poll_ok ctx t"
| "poll_outcome ctx False t = tg_poll_failed ctx t"

fun poll_wait :: "tg_poll_ctx \<Rightarrow> bool \<Rightarrow> u32" where
  "poll_wait ctx True = TG_MIN_GAP_MS"
| "poll_wait ctx False = next_backoff ctx"

lemma next_backoff_failures [simp]: "next_backoff (ctx\<lparr>consecutive_failures := n\<rparr>) = next_backoff ctx"
  by (simp add: next_backoff_def)

lemma outcome_simps [simp]:
  "started (poll_outcome ctx r t) = started ctx" "fatal (poll_outcome ctx r t) = fatal ctx"
  "poll_due_ms (poll_outcome ctx r t) = t + poll_wait ctx r"
  "backoff_ms (poll_outcome ctx r t) = (if r then 0 else next_backoff ctx)"
  by (cases r; simp add: tg_poll_ok_def tg_poll_failed_def Let_def)+

interpretation poll: retry_timer "\<lambda>ctx t. tg_poll_due ctx t True" poll_outcome poll_wait poll_ready 1000
proof unfold_locales
  fix s r t t'
  assume ok: "poll_ready s"
  note b = next_backoff_bounds [OF ok]
  show "tg_poll_due (poll_outcome s r t) t' True \<longleftrightarrow> 0 \<le> sint (t' - (t + poll_wait s r))"
    using ok by (simp add: tg_poll_due_def reached_def poll_ready_def)
  show "poll_ready (poll_outcome s r t)" using ok b by (simp add: poll_ready_def)
  show "1000 \<le> unat (poll_wait s r)" "unat (poll_wait s r) < 2 ^ 31"
    using b by (cases r; simp add: word_le_nat_alt)+
qed


section \<open>Consuming updates\<close>

text \<open>The updates of a run in the order they are offered, with the ids of those that
  \<open>tg_poll_consume\<close> said are new.\<close>

fun consume_all :: "tg_poll_ctx \<Rightarrow> u64 list \<Rightarrow> tg_poll_ctx \<times> u64 list" where
  "consume_all ctx [] = (ctx, [])"
| "consume_all ctx (u # us) =
     (let (ctx1, new) = tg_poll_consume ctx u; (ctx2, acc) = consume_all ctx1 us
      in (ctx2, if new then u # acc else acc))"

lemma consume_all_mono: "offset ctx \<le> offset (fst (consume_all ctx us))"
proof (induction us arbitrary: ctx)
  case (Cons u us)
  have "offset ctx \<le> offset (fst (tg_poll_consume ctx u))" by (simp add: tg_poll_consume_def not_le less_imp_le)
  also have "\<dots> \<le> offset (fst (consume_all (fst (tg_poll_consume ctx u)) us))" by (rule Cons.IH)
  finally show ?case by (simp add: split_def Let_def)
qed simp

lemma consume_all_increasing:
  "(offset_dirty (fst (consume_all ctx us)) \<longleftrightarrow> offset_dirty ctx \<or> snd (consume_all ctx us) \<noteq> []) \<and>
   sorted_wrt (<) (offset ctx # snd (consume_all ctx us)) \<and>
   offset (fst (consume_all ctx us)) = last (offset ctx # snd (consume_all ctx us)) \<and>
   (\<forall>u\<in>set us. u \<le> offset (fst (consume_all ctx us)))"
proof (induction us arbitrary: ctx)
  case (Cons u us)
  show ?case
  proof (cases "u \<le> offset ctx")
    case True
    then show ?thesis using Cons.IH [of ctx] consume_all_mono [of ctx us]
      by (auto simp: tg_poll_consume_def split_def Let_def)
  next
    case False
    let ?c = "ctx\<lparr>offset := u, offset_dirty := True\<rparr>"
    show ?thesis using False Cons.IH [of ?c] consume_all_mono [of ?c us]
      by (auto simp: tg_poll_consume_def split_def Let_def not_le intro: less_trans)
  qed
qed simp


section \<open>Properties\<close>

text \<open>C35: the channel never spins.  Whatever the outcomes of the requests, in any mixture of
  successes and failures, \<open>n\<close> further requests that were each due take at least \<open>n\<close> seconds
  of real time; and a request that fails is not due again before five seconds, and is after at
  most five minutes, across the wrap-around of the counter.\<close>

theorem polls_are_paced:
  assumes "poll_ready ctx" "d < 2 ^ 31"
    "poll.attempts (poll_outcome ctx r (of_nat t0)) t0 ts"
  shows "t0 + length ts * 1000 \<le> last (t0 # map fst ts) \<and>
    (tg_poll_due (tg_poll_failed ctx (of_nat t0)) (of_nat (t0 + d)) True \<longrightarrow> 5000 \<le> d) \<and>
    (300000 \<le> d \<longrightarrow> tg_poll_due (tg_poll_failed ctx (of_nat t0)) (of_nat (t0 + d)) True)"
proof -
  have b: "5000 \<le> unat (next_backoff ctx)" "unat (next_backoff ctx) \<le> 300000"
    using next_backoff_bounds [OF assms(1)] by (simp_all add: word_le_nat_alt)
  have "tg_poll_due (tg_poll_failed ctx (of_nat t0)) (of_nat (t0 + d)) True \<longleftrightarrow> unat (next_backoff ctx) \<le> d"
    using poll.due_iff_waited [OF assms(1), of d False t0] assms(2) by simp
  then show ?thesis using b poll.attempts_spaced [OF assms(1,3)] by simp
qed

theorem polls_are_paced_witness:
  "1000 + length [(7000 :: nat, True), (9000, False)] * 1000 \<le> (9000 :: nat) \<and>
   tg_poll_due (tg_poll_failed (tg_poll_init 41 0) (of_nat (1000 :: nat))) (of_nat (1000 + 300000 :: nat)) True"
proof -
  have "poll_ready (tg_poll_init 41 0)" by (simp add: poll_ready_def tg_poll_init_def)
  moreover have "poll.attempts (poll_outcome (tg_poll_init 41 0) False (of_nat 1000)) 1000
      [(7000, True), (9000, False)]"
    unfolding poll.attempts.simps
    by (simp add: tg_poll_due_def reached_def tg_poll_init_def next_backoff_def del: poll_outcome.simps)
  ultimately show ?thesis
    using polls_are_paced [of "tg_poll_init 41 0" 300000 False 1000 "[(7000, True), (9000, False)]"]
    by simp
qed

text \<open>Every update is handled at most once.  However the server orders, repeats or mixes the
  updates it delivers, the ids that count as new are strictly increasing from the stored offset,
  the offset ends at the last of them with nothing delivered above it, and it is marked for
  storing exactly when it moved.\<close>

theorem updates_handled_once:
  "(offset_dirty (fst (consume_all ctx us)) \<longleftrightarrow> offset_dirty ctx \<or> snd (consume_all ctx us) \<noteq> []) \<and>
   sorted_wrt (<) (offset ctx # snd (consume_all ctx us)) \<and>
   offset (fst (consume_all ctx us)) = last (offset ctx # snd (consume_all ctx us)) \<and>
   (\<forall>u\<in>set us. u \<le> offset (fst (consume_all ctx us)))"
  by (rule consume_all_increasing)

end
