(* ===== verification/Cred_Check.thy ===== *)
theory Cred_Check
  imports Wire_Text
begin

text \<open>
  \<^verbatim>\<open>components/cred_check\<close>: which credentials a device may run with.  A \<open>const char *\<close>
  that may be \<open>NULL\<close> is an optional string; \<open>strlen\<close>, \<open>strcmp\<close> and \<open>strchr\<close> read it
  up to its terminator.
\<close>

section \<open>Data\<close>

abbreviation CRED_ADMIN_MIN_LEN :: nat where "CRED_ADMIN_MIN_LEN \<equiv> 12"
abbreviation CRED_AP_MIN_LEN :: nat where "CRED_AP_MIN_LEN \<equiv> 8"
abbreviation CRED_AP_MAX_LEN :: nat where "CRED_AP_MAX_LEN \<equiv> 63"
abbreviation CRED_SALT_MIN_LEN :: nat where "CRED_SALT_MIN_LEN \<equiv> 16"
abbreviation CRED_KEY_HEX_LEN :: nat where "CRED_KEY_HEX_LEN \<equiv> 64"
abbreviation CRED_TG_ID_MIN_DIGITS :: nat where "CRED_TG_ID_MIN_DIGITS \<equiv> 5"
abbreviation CRED_TG_ID_MAX_DIGITS :: nat where "CRED_TG_ID_MAX_DIGITS \<equiv> 16"
abbreviation CRED_TG_SECRET_MIN_LEN :: nat where "CRED_TG_SECRET_MIN_LEN \<equiv> 30"
abbreviation CRED_TG_SECRET_MAX_LEN :: nat where "CRED_TG_SECRET_MAX_LEN \<equiv> 64"

datatype cred_result =
    CRED_OK
  | CRED_MISSING
  | CRED_TOO_SHORT
  | CRED_TOO_LONG
  | CRED_PLACEHOLDER
  | CRED_WEAK
  | CRED_NOT_HEX
  | CRED_NOT_RANDOM
  | CRED_BAD_SHAPE

definition PLACEHOLDERS :: "string list" where
  "PLACEHOLDERS =
     [''admin123'', ''changeme'', ''CHANGE_ME'', ''please-change-me'', ''portao-01-placeholder'',
      ''0000000000000000000000000000000000000000000000000000000000000000'',
      ''DEV_SALT'', ''dev-salt'', ''https://example.com/gate.txt'',
      ''000000000:CHANGE_ME_CHANGE_ME_CHANGE_ME_CHANG'']"

definition WEAK :: "string list" where
  "WEAK =
     [''password'', ''senha123'', ''12345678'', ''123456789'', ''qwerty123'',
      ''admin'', ''administra'', ''portao'', ''portao123'', ''abc12345'']"


section \<open>Operations\<close>

definition in_list :: "string \<Rightarrow> string list \<Rightarrow> bool" where
  "in_list s xs \<longleftrightarrow> list_ex (\<lambda>x. cstr s = x) xs"

definition len_of :: "string option \<Rightarrow> nat" where
  "len_of s = (case s of None \<Rightarrow> 0 | Some s \<Rightarrow> length (cstr s))"

definition all_same_char :: "string option \<Rightarrow> bool" where
  "all_same_char s =
     (case s of
        None \<Rightarrow> True
      | Some s \<Rightarrow> (case cstr s of [] \<Rightarrow> True | c # cs \<Rightarrow> list_all (\<lambda>d. d = c) cs))"

definition common_checks :: "string option \<Rightarrow> cred_result" where
  "common_checks s =
     (if len_of s = 0 then CRED_MISSING
      else if in_list (the s) PLACEHOLDERS then CRED_PLACEHOLDER
      else if in_list (the s) WEAK then CRED_WEAK
      else CRED_OK)"

definition cred_check_admin_password :: "string option \<Rightarrow> cred_result" where
  "cred_check_admin_password password =
     (let r = common_checks password
      in if r \<noteq> CRED_OK then r
         else if len_of password < CRED_ADMIN_MIN_LEN then CRED_TOO_SHORT
         else if all_same_char password then CRED_NOT_RANDOM
         else CRED_OK)"

definition cred_check_ap_password :: "string option \<Rightarrow> cred_result" where
  "cred_check_ap_password password =
     (let r = common_checks password
      in if r \<noteq> CRED_OK then r
         else
           (let n = len_of password
            in if n < CRED_AP_MIN_LEN then CRED_TOO_SHORT
               else if n > CRED_AP_MAX_LEN then CRED_TOO_LONG
               else if all_same_char password then CRED_NOT_RANDOM
               else CRED_OK))"

definition cred_check_delivery_key :: "string option \<Rightarrow> cred_result" where
  "cred_check_delivery_key hex =
     (let r = common_checks hex
      in if r \<noteq> CRED_OK then r
         else if len_of hex \<noteq> CRED_KEY_HEX_LEN then CRED_NOT_HEX
         else if \<not> list_all is_lower_hex (cstr (the hex)) then CRED_NOT_HEX
         else if all_same_char hex then CRED_NOT_RANDOM
         else CRED_OK)"

definition cred_check_device_salt :: "string option \<Rightarrow> cred_result" where
  "cred_check_device_salt salt =
     (let r = common_checks salt
      in if r \<noteq> CRED_OK then r
         else if len_of salt < CRED_SALT_MIN_LEN then CRED_TOO_SHORT
         else if all_same_char salt then CRED_NOT_RANDOM
         else CRED_OK)"

definition token_char :: "char \<Rightarrow> bool" where
  "token_char c \<longleftrightarrow> CHR ''A'' \<le> c \<and> c \<le> CHR ''Z'' \<or> CHR ''a'' \<le> c \<and> c \<le> CHR ''z'' \<or>
     CHR ''0'' \<le> c \<and> c \<le> CHR ''9'' \<or> c = CHR ''_'' \<or> c = CHR ''-''"

definition cred_check_bot_token :: "string option \<Rightarrow> cred_result" where
  "cred_check_bot_token token_ptr =
     (let r = common_checks token_ptr
      in if r \<noteq> CRED_OK then r
         else
           (let token = cstr (the token_ptr)
            in case first_index (\<lambda>c. c = CHR '':'') token of
                 None \<Rightarrow> CRED_BAD_SHAPE
               | Some colon \<Rightarrow>
                   if colon = 0 \<or> first_index (\<lambda>c. c = CHR '':'') (drop (colon + 1) token) \<noteq> None
                   then CRED_BAD_SHAPE
                   else if colon < CRED_TG_ID_MIN_DIGITS \<or> colon > CRED_TG_ID_MAX_DIGITS
                   then CRED_BAD_SHAPE
                   else if list_ex (\<lambda>c. c < CHR ''0'' \<or> c > CHR ''9'') (take colon token)
                   then CRED_BAD_SHAPE
                   else
                     (let secret = drop (colon + 1) token; n = len_of (Some secret)
                      in if n < CRED_TG_SECRET_MIN_LEN then CRED_TOO_SHORT
                         else if n > CRED_TG_SECRET_MAX_LEN then CRED_TOO_LONG
                         else if \<not> list_all token_char secret then CRED_BAD_SHAPE
                         else if all_same_char (Some secret) then CRED_NOT_RANDOM
                         else CRED_OK)))"

definition cred_check_identity :: "string option \<Rightarrow> string option \<Rightarrow> cred_result" where
  "cred_check_identity gate_id url =
     (if len_of gate_id = 0 \<or> len_of url = 0 then CRED_MISSING
      else if in_list (the gate_id) PLACEHOLDERS \<or> in_list (the url) PLACEHOLDERS
      then CRED_PLACEHOLDER
      else if \<not> strncmp_eq (the url) ''https://'' 8 then CRED_WEAK
      else CRED_OK)"

definition cred_result_text :: "cred_result \<Rightarrow> string" where
  "cred_result_text r = (case r of
     CRED_OK \<Rightarrow> ''ok''
   | CRED_MISSING \<Rightarrow> ''not set''
   | CRED_TOO_SHORT \<Rightarrow> ''too short''
   | CRED_TOO_LONG \<Rightarrow> ''too long''
   | CRED_PLACEHOLDER \<Rightarrow> ''still the example value from the repository''
   | CRED_WEAK \<Rightarrow> ''on every password list ever compiled''
   | CRED_NOT_HEX \<Rightarrow> ''not 64 lowercase hex characters''
   | CRED_NOT_RANDOM \<Rightarrow> ''all one character''
   | CRED_BAD_SHAPE \<Rightarrow> ''not the shape this credential has to be'')"


section \<open>What an accepted credential is\<close>

lemma len_of_Some [simp]: "len_of (Some s) = length (cstr s)"
  by (simp add: len_of_def)

lemma common_checks_OK:
  "common_checks s = CRED_OK \<longleftrightarrow>
     (\<exists>t. s = Some t \<and> cstr t \<noteq> [] \<and> cstr t \<notin> set PLACEHOLDERS \<and> cstr t \<notin> set WEAK)"
  by (cases s) (auto simp: common_checks_def len_of_def in_list_def list_ex_iff split: if_splits)

lemma all_same_iff: "all_same_char (Some s) \<longleftrightarrow> (\<exists>c n. cstr s = replicate n c)"
proof (cases "cstr s")
  case Nil
  then show ?thesis by (simp add: all_same_char_def)
next
  case (Cons c cs)
  have "list_all (\<lambda>d. d = c) cs \<longleftrightarrow> (\<exists>d n. c # cs = replicate n d)"
  proof
    assume "list_all (\<lambda>d. d = c) cs"
    then have "c # cs = replicate (Suc (length cs)) c"
      by (simp add: list_all_iff replicate_eqI [symmetric])
    then show "\<exists>d n. c # cs = replicate n d" by blast
  next
    assume "\<exists>d n. c # cs = replicate n d"
    then obtain d n where "c # cs = replicate n d" by blast
    then show "list_all (\<lambda>d. d = c) cs" by (cases n) (auto simp: list_all_iff)
  qed
  then show ?thesis by (simp add: all_same_char_def Cons)
qed

text \<open>The check of a result as a chain of guards.\<close>

lemma guard_OK: "(let r = x in if r \<noteq> CRED_OK then r else y) = CRED_OK \<longleftrightarrow> x = CRED_OK \<and> y = CRED_OK"
  by (simp add: Let_def)

lemma delivery_key_OK:
  "cred_check_delivery_key (Some k) = CRED_OK \<longleftrightarrow>
     common_checks (Some k) = CRED_OK \<and> length (cstr k) = CRED_KEY_HEX_LEN \<and>
     list_all is_lower_hex (cstr k) \<and> (\<nexists>c n. cstr k = replicate n c)"
  by (auto simp: cred_check_delivery_key_def guard_OK all_same_iff)

lemma bot_token_OK:
  assumes "cred_check_bot_token (Some tok) = CRED_OK"
  obtains num secret where "cstr tok = num @ CHR '':'' # secret" "list_all is_digit num"
    "CRED_TG_ID_MIN_DIGITS \<le> length num" "length num \<le> CRED_TG_ID_MAX_DIGITS"
    "list_all token_char secret" "CRED_TG_SECRET_MIN_LEN \<le> length secret" "length secret \<le> CRED_TG_SECRET_MAX_LEN"
proof -
  let ?t = "cstr tok"
  from assms obtain k where k: "first_index (\<lambda>c. c = CHR '':'') ?t = Some k"
    and b: "CRED_TG_ID_MIN_DIGITS \<le> k" "k \<le> CRED_TG_ID_MAX_DIGITS"
    "\<not> list_ex (\<lambda>c. c < CHR ''0'' \<or> c > CHR ''9'') (take k ?t)"
    "CRED_TG_SECRET_MIN_LEN \<le> length (cstr (drop (k + 1) ?t))"
    "length (cstr (drop (k + 1) ?t)) \<le> CRED_TG_SECRET_MAX_LEN" "list_all token_char (drop (k + 1) ?t)"
    unfolding cred_check_bot_token_def guard_OK by (auto simp: Let_def not_less split: option.splits if_splits)
  have i: "k < length ?t" "?t ! k = CHR '':''" using first_index_SomeD [OF k] by simp_all
  have "NUL \<notin> set (drop (k + 1) ?t)" using cstr_no_NUL [of tok] by (blast dest: in_set_dropD)
  then have c: "cstr (drop (k + 1) ?t) = drop (k + 1) ?t" by (rule cstr_id)
  show ?thesis
  proof (rule that [of "take k ?t" "drop (k + 1) ?t"])
    show "?t = take k ?t @ CHR '':'' # drop (k + 1) ?t"
      using id_take_nth_drop [OF i(1)] i(2) by simp
    show "list_all is_digit (take k ?t)"
      using b(3) by (auto simp: list_ex_iff list_all_iff is_digit_def not_less)
  qed (use b c i(1) in simp_all)
qed

end
