(* ===== verification/Tg_Client.thy ===== *)
theory Tg_Client
  imports Tg_Proto Tg_Poll Client_Io Cred_Check "HOL-Library.Sublist"
begin

text \<open>
  \<^verbatim>\<open>components/tg_client/tg_client.c\<close>: the courier task, which asks Telegram for
  updates, authenticates their lines and edits the table.  The JSON parser, with
  the accessors the code applies to its result, is a parameter that yields the
  parts of the reply the code looks at.  The lock is held around the one table
  call of each message, which is an atomic step; logging is left out.
\<close>

section \<open>State\<close>

text \<open>A message or channel post, an update and a reply, as the cJSON accessors show them:
  \<open>text\<close> is \<open>None\<close> when the item is no string, \<open>update_id\<close> when it is no number.\<close>

record json_update =
  update_id :: "u64 option"
  json_message :: "string option option"       \<comment> \<open>the \<open>text\<close> of \<open>"message"\<close>, if there is one\<close>
  json_channel_post :: "string option option"

record json_reply =
  reply_ok :: bool
  reply_result :: "json_update list option"    \<comment> \<open>\<open>None\<close>: not an array\<close>

type_synonym json_fn = "string \<Rightarrow> json_reply option"

record tg_client_config =
  cfg_bot_token :: "string option"
  tg_cfg_key :: "string option"
  tg_cfg_lock :: bool
  tg_cfg_unlock :: bool
  tg_cfg_online :: bool
  tg_cfg_now_ms :: bool

record 'n tg_client =
  bot_token :: string
  tg_key :: "u8 list"
  tg_enabled :: bool
  tg_state :: string
  poll :: tg_poll_ctx
  tg_task :: bool
  tg_counter :: u64
  tg_nvs :: 'n

abbreviation TG_NVS_NS :: string where "TG_NVS_NS \<equiv> ''gate_tg''"
abbreviation NVS_KEY_OFFSET :: string where "NVS_KEY_OFFSET \<equiv> ''offset''"
abbreviation NVS_KEY_COUNTER :: string where "NVS_KEY_COUNTER \<equiv> ''counter''"
abbreviation BATCH_LIMIT :: nat where "BATCH_LIMIT \<equiv> 5"
abbreviation BODY_MAX :: nat where "BODY_MAX \<equiv> 6144"

text \<open>\<open>sizeof(s_url)\<close>\<close>

abbreviation TG_URL_SIZE :: nat where "TG_URL_SIZE \<equiv> 320"


section \<open>Operations\<close>

definition tg_compute_mac :: "hmac_fn \<Rightarrow> 'n tg_client \<Rightarrow> string \<Rightarrow> string option" where
  "tg_compute_mac hmac c region =
     map_option (\<lambda>digest. hex_text digest @ [NUL]) (hmac (tg_key c) region)"

definition save_u64 :: "'n nvs_ops \<Rightarrow> 'n tg_client \<Rightarrow> string \<Rightarrow> u64 \<Rightarrow> 'n tg_client" where
  "save_u64 N c key v = c\<lparr>tg_nvs := nvs_put N (tg_nvs c) TG_NVS_NS key v\<rparr>"

definition load_u64 :: "'n nvs_ops \<Rightarrow> 'n tg_client \<Rightarrow> string \<Rightarrow> u64" where
  "load_u64 N c key = (case nvs_get N (tg_nvs c) TG_NVS_NS key of None \<Rightarrow> 0 | Some v \<Rightarrow> v)"

text \<open>What \<open>snprintf\<close> writes for the request.\<close>

definition request_url :: "string \<Rightarrow> u64 \<Rightarrow> string" where
  "request_url token off = ''https://api.telegram.org/bot'' @ cstr token @ ''/getUpdates'' @
     ''?offset='' @ nat_text (unat off) @ ''&timeout='' @ nat_text TG_LONGPOLL_S @
     ''&limit='' @ nat_text BATCH_LIMIT"

definition fetch_updates :: "http_fn \<Rightarrow> 'n tg_client \<Rightarrow> u64 \<Rightarrow> (esp_err + string) \<times> int" where
  "fetch_updates http c off =
     (let s_url = request_url (bot_token c) off
      in if length s_url \<ge> TG_URL_SIZE then (Inl ESP_ERR_INVALID_SIZE, 0)
         else
           (let reply = http s_url
            in if \<not> client_made reply then (Inl ESP_FAIL, 0)
               else
                 (let (s_body, s_body_len) = foldl (body_event BODY_MAX) ([], 0) (data_events reply);
                      out_status = http_status reply
                  in if perform_err reply \<noteq> ESP_OK then (Inl (perform_err reply), out_status)
                     else if s_body_len > BODY_MAX then (Inl ESP_ERR_INVALID_SIZE, out_status)
                     else (Inr (s_body @ [NUL]), out_status))))"

definition tg_apply :: "ac_ctx \<Rightarrow> tg_msg \<Rightarrow> ac_ctx" where
  "tg_apply table m =
     (if msg_op m = TG_OP_ADD
      then fst (ac_upsert table (Some (msg_id m)) (Some (msg_hash m)) (msg_from m) (msg_until m))
      else fst (ac_revoke table (Some (msg_id m))))"

text \<open>The text of an update: of its message, or else of its channel post.\<close>

definition update_text :: "json_update \<Rightarrow> string option" where
  "update_text upd =
     (case json_message upd of
        Some t \<Rightarrow> t
      | None \<Rightarrow> (case json_channel_post upd of Some t \<Rightarrow> t | None \<Rightarrow> None))"

text \<open>The body of the loop over the updates; the counter is of the updates consumed.\<close>

definition handle_update ::
  "hmac_fn \<Rightarrow> 'n nvs_ops \<Rightarrow> json_update \<Rightarrow> 'n tg_client \<times> ac_ctx \<times> nat \<Rightarrow> 'n tg_client \<times> ac_ctx \<times> nat" where
  "handle_update hmac N upd st =
     (let (c, table, consumed) = st
      in case update_id upd of
           None \<Rightarrow> (c, table, consumed)
         | Some uid \<Rightarrow>
             (let c = c\<lparr>poll := fst (tg_poll_consume (poll c) uid)\<rparr>;
                  consumed = consumed + 1
              in case update_text upd of
                   None \<Rightarrow> (c, table, consumed)
                 | Some t \<Rightarrow>
                     if length (cstr t) \<ge> TG_LINE_MAX then (c, table, consumed)
                     else
                       (case tg_parse (Some t) (tg_counter c) (tg_compute_mac hmac c) of
                          Inl _ \<Rightarrow> (c, table, consumed)
                        | Inr m \<Rightarrow>
                            (let table = tg_apply table m;
                                 c = c\<lparr>tg_counter := msg_counter m\<rparr>;
                                 c = save_u64 N c NVS_KEY_COUNTER (tg_counter c)
                             in (c, table, consumed)))))"

definition handle_body ::
  "hmac_fn \<Rightarrow> json_fn \<Rightarrow> 'n nvs_ops \<Rightarrow> string \<Rightarrow> 'n tg_client \<Rightarrow> ac_ctx \<Rightarrow> 'n tg_client \<times> ac_ctx \<times> nat option" where
  "handle_body hmac cjson N s_body c table =
     (case cjson s_body of
        None \<Rightarrow> (c, table, None)
      | Some root \<Rightarrow>
          if \<not> reply_ok root then (c, table, None)
          else
            (case reply_result root of
               None \<Rightarrow> (c, table, Some 0)
             | Some upds \<Rightarrow>
                 (let (c, table, consumed) = fold (handle_update hmac N) upds (c, table, 0)
                  in (c, table, Some consumed))))"

definition poll_once ::
  "hmac_fn \<Rightarrow> json_fn \<Rightarrow> 'n nvs_ops \<Rightarrow> http_fn \<Rightarrow> u32 \<Rightarrow> 'n tg_client \<Rightarrow> ac_ctx \<Rightarrow> 'n tg_client \<times> ac_ctx" where
  "poll_once hmac cjson N http now c table =
     (let (err, status) = fetch_updates http c (tg_poll_next_offset (poll c))
      in if status = 401 \<or> status = 404
         then (c\<lparr>poll := tg_poll_fatal (poll c), tg_state := ''stopped: the bot token was refused''\<rparr>, table)
         else
           (case err of
              Inl _ \<Rightarrow> (c\<lparr>poll := tg_poll_failed (poll c) now, tg_state := ''retrying''\<rparr>, table)
            | Inr s_body \<Rightarrow>
                if status \<noteq> 200
                then (c\<lparr>poll := tg_poll_failed (poll c) now, tg_state := ''retrying''\<rparr>, table)
                else
                  (let (c, table, consumed) = handle_body hmac cjson N s_body c table
                   in if consumed = None
                      then (c\<lparr>poll := tg_poll_failed (poll c) now, tg_state := ''retrying''\<rparr>, table)
                      else
                        (let c = c\<lparr>poll := tg_poll_ok (poll c) now, tg_state := ''listening''\<rparr>
                         in if tg_poll_should_persist (poll c)
                            then (let c = save_u64 N c NVS_KEY_OFFSET (offset (poll c))
                                  in (c\<lparr>poll := tg_poll_persisted (poll c)\<rparr>, table))
                            else (c, table)))))"

text \<open>One turn of the endless loop of the task; \<open>done\<close> is the clock when the request is over.\<close>

definition tg_task_turn ::
  "hmac_fn \<Rightarrow> json_fn \<Rightarrow> 'n nvs_ops \<Rightarrow> http_fn \<Rightarrow> bool \<Rightarrow> u32 \<Rightarrow> u32 \<Rightarrow> 'n tg_client \<Rightarrow> ac_ctx \<Rightarrow> 'n tg_client \<times> ac_ctx" where
  "tg_task_turn hmac cjson N http online now done_ms c table =
     (if tg_poll_is_fatal (poll c) then (c, table)
      else if tg_poll_due (poll c) now online then poll_once hmac cjson N http done_ms c table
      else (c, table))"

definition tg_client_init ::
  "'n nvs_ops \<Rightarrow> tg_client_config \<Rightarrow> u32 \<Rightarrow> 'n tg_client \<Rightarrow> 'n tg_client \<times> esp_err" where
  "tg_client_init N cfg now c =
     (case (cfg_bot_token cfg, tg_cfg_key cfg) of
        (Some tok, Some key) \<Rightarrow>
          if \<not> tg_cfg_lock cfg \<or> \<not> tg_cfg_unlock cfg \<or> \<not> tg_cfg_online cfg \<or> \<not> tg_cfg_now_ms cfg
          then (c, ESP_ERR_INVALID_ARG)
          else
            (let c = c\<lparr>bot_token := tok, tg_enabled := False\<rparr>
             in if cred_check_bot_token (Some tok) \<noteq> CRED_OK
                then (c\<lparr>tg_state := ''off: no usable bot token''\<rparr>, ESP_ERR_INVALID_ARG)
                else
                  (case (if length (cstr key) \<noteq> 64 then None else key_hex_to_bytes (cstr key) 32) of
                     None \<Rightarrow> (c\<lparr>tg_state := ''off: no usable delivery key''\<rparr>, ESP_ERR_INVALID_ARG)
                   | Some k \<Rightarrow>
                       (c\<lparr>tg_key := k, tg_counter := load_u64 N c NVS_KEY_COUNTER,
                          poll := tg_poll_init (load_u64 N c NVS_KEY_OFFSET) now,
                          tg_enabled := True, tg_state := ''ready''\<rparr>, ESP_OK)))
      | _ \<Rightarrow> (c, ESP_ERR_INVALID_ARG))"

definition tg_client_start :: "'n tg_client \<Rightarrow> bool \<Rightarrow> 'n tg_client \<times> esp_err" where
  "tg_client_start c created =
     (if \<not> tg_enabled c then (c, ESP_ERR_INVALID_STATE)
      else if tg_task c then (c, ESP_OK)
      else if \<not> created then (c\<lparr>tg_task := False, tg_state := ''off: no task''\<rparr>, ESP_ERR_NO_MEM)
      else (c\<lparr>tg_task := True\<rparr>, ESP_OK))"

definition tg_client_enabled :: "'n tg_client \<Rightarrow> bool" where
  "tg_client_enabled c \<longleftrightarrow> tg_enabled c \<and> \<not> tg_poll_is_fatal (poll c)"

definition tg_client_offset :: "'n tg_client \<Rightarrow> u64" where
  "tg_client_offset c = offset (poll c)"

definition tg_client_counter :: "'n tg_client \<Rightarrow> u64" where
  "tg_client_counter c = tg_counter c"

definition tg_client_state_text :: "'n tg_client \<Rightarrow> string" where
  "tg_client_state_text c = tg_state c"


section \<open>The request\<close>

lemma request_url_fits:
  assumes "cred_check_bot_token (Some tok) = CRED_OK"
  shows "length (request_url tok off) < TG_URL_SIZE"
proof -
  obtain num secret where "cstr tok = num @ CHR '':'' # secret"
    "length num \<le> CRED_TG_ID_MAX_DIGITS" "length secret \<le> CRED_TG_SECRET_MAX_LEN"
    using bot_token_OK [OF assms] by metis
  moreover have "unat off < 2 ^ 64" using unsigned_less [of off, where 'a = nat] by simp
  from tg_parse_u64_text(2) [OF this] have "length (nat_text (unat off)) \<le> 20" .
  moreover have "length (nat_text TG_LONGPOLL_S) = 2" "length (nat_text BATCH_LIMIT) = 1"
    by (simp_all add: nat_text.simps)
  ultimately show ?thesis by (simp add: request_url_def)
qed


lemma nvs_works_get: "nvs_works N \<Longrightarrow> nvs_get N (nvs_put N n ns k v) ns' k' =
    (if ns' = ns \<and> k' = k then Some v else nvs_get N n ns' k')"
  by (simp add: nvs_works_def)


section \<open>What the courier obeys\<close>

text \<open>A text that carries a message: signed under the key, and saying every field of the message.\<close>

definition signed_for :: "hmac_fn \<Rightarrow> u8 list \<Rightarrow> string \<Rightarrow> tg_msg \<Rightarrow> bool" where
  "signed_for hmac key t m \<longleftrightarrow> (\<exists>region digest. cstr t = region @ CHR ''|'' # hex_text digest \<and>
     hmac key region = Some digest \<and> region_says region m)"

text \<open>The texts that the reply to the next request carries, in their order.\<close>

definition reply_texts :: "json_fn \<Rightarrow> http_fn \<Rightarrow> 'n tg_client \<Rightarrow> string list" where
  "reply_texts cjson http c =
     (case fetch_updates http c (tg_poll_next_offset (poll c)) of
        (Inl _, _) \<Rightarrow> []
      | (Inr body, status) \<Rightarrow>
          (case cjson body of
             None \<Rightarrow> []
           | Some root \<Rightarrow>
               (case reply_result root of
                  None \<Rightarrow> []
                | Some us \<Rightarrow> if status = 200 \<and> reply_ok root then List.map_filter update_text us else [])))"

lemma tg_mac_sized: "hmac_sized hmac \<Longrightarrow> tg_compute_mac hmac c s = Some e \<Longrightarrow> length e = TG_MAC_HEX_LEN + 1"
  by (auto simp: hmac_sized_def tg_compute_mac_def)

lemma tg_parse_signed:
  assumes "hmac_sized hmac" "tg_parse (Some t) seen (tg_compute_mac hmac c) = Inr m"
  shows "signed_for hmac (tg_key c) t m" "msg_sound seen m"
proof -
  have "signed_for hmac (tg_key c) t m \<and> msg_sound seen m"
  proof (rule tg_parse_sound [OF assms(2)])
    show "\<forall>s e. tg_compute_mac hmac c s = Some e \<longrightarrow> length e = TG_MAC_HEX_LEN + 1"
      using tg_mac_sized [OF assms(1)] by blast
  next
    fix region e assume r: "cstr t = region @ CHR ''|'' # take TG_MAC_HEX_LEN e"
      "tg_compute_mac hmac c region = Some e" "msg_sound seen m" "region_says region m"
    then obtain digest where d: "hmac (tg_key c) region = Some digest" "e = hex_text digest @ [NUL]"
      by (auto simp: tg_compute_mac_def)
    then have "take TG_MAC_HEX_LEN e = hex_text digest" using assms(1) by (simp add: hmac_sized_def)
    with r d(1) show ?thesis by (auto simp: signed_for_def)
  qed
  then show "signed_for hmac (tg_key c) t m" "msg_sound seen m" by simp_all
qed

text \<open>One update: nothing but the receipt, or one obeyed message.\<close>

lemma handle_update_cases:
  assumes "hmac_sized hmac"
  obtains (ignored) n' p where "handle_update hmac N u (c, table, n) = (c\<lparr>poll := p\<rparr>, table, n')"
    | (obeyed) p m t where "update_text u = Some t" "signed_for hmac (tg_key c) t m"
      "msg_sound (tg_counter c) m"
      "handle_update hmac N u (c, table, n) =
        (c\<lparr>poll := p, tg_counter := msg_counter m,
           tg_nvs := nvs_put N (tg_nvs c) TG_NVS_NS NVS_KEY_COUNTER (msg_counter m)\<rparr>, tg_apply table m, n + 1)"
proof (cases "update_id u")
  case None
  then have "handle_update hmac N u (c, table, n) = (c\<lparr>poll := poll c\<rparr>, table, n)"
    by (simp add: handle_update_def)
  then show thesis by (rule ignored)
next
  case (Some uid)
  let ?c = "c\<lparr>poll := fst (tg_poll_consume (poll c) uid)\<rparr>"
  show thesis
  proof (cases "\<exists>t m. update_text u = Some t \<and> length (cstr t) < TG_LINE_MAX \<and>
      tg_parse (Some t) (tg_counter ?c) (tg_compute_mac hmac ?c) = Inr m")
    case True
    then obtain t m where m: "update_text u = Some t" "length (cstr t) < TG_LINE_MAX"
      "tg_parse (Some t) (tg_counter ?c) (tg_compute_mac hmac ?c) = Inr m" by blast
    from tg_parse_signed [OF assms m(3)]
    have s: "signed_for hmac (tg_key c) t m" "msg_sound (tg_counter c) m" by simp_all
    show thesis
      by (rule obeyed [OF m(1) s]) (use Some m in \<open>simp add: handle_update_def save_u64_def\<close>)
  next
    case False
    then have "handle_update hmac N u (c, table, n) = (?c, table, n + 1)"
      using Some by (auto simp: handle_update_def Let_def not_le split: option.split sum.split)
    then show thesis by (rule ignored)
  qed
qed

text \<open>
  What a courier may do with a list of updates, whatever their number and contents:
  pass one over, or obey one message, signed under the key and newer than every
  message obeyed before.
\<close>

inductive obeys :: "hmac_fn \<Rightarrow> u8 list \<Rightarrow> u64 \<Rightarrow> json_update list \<Rightarrow> tg_msg list \<Rightarrow> u64 \<Rightarrow> bool"
  for hmac :: hmac_fn and key :: "u8 list" where
  obeys_none: "obeys hmac key seen [] [] seen"
| obeys_skip: "obeys hmac key seen us ms seen' \<Longrightarrow> obeys hmac key seen (u # us) ms seen'"
| obeys_one: "update_text u = Some t \<Longrightarrow> signed_for hmac key t m \<Longrightarrow> msg_sound seen m \<Longrightarrow>
    obeys hmac key (msg_counter m) us ms seen' \<Longrightarrow> obeys hmac key seen (u # us) (m # ms) seen'"

lemma obeys_increasing:
  "obeys hmac key seen us ms seen' \<Longrightarrow>
     sorted_wrt (<) (seen # map msg_counter ms) \<and> seen' = last (seen # map msg_counter ms)"
proof (induction rule: obeys.induct)
  case (obeys_one u t m seen us ms seen')
  then have "seen < msg_counter m" by (simp add: msg_sound_def)
  with obeys_one.IH show ?case by (auto intro: less_trans)
qed simp_all

text \<open>Each message has a text of its own among those of the updates, and they come in that order.\<close>

lemma obeys_texts:
  "obeys hmac key seen us ms seen' \<Longrightarrow>
     \<exists>ts. subseq ts (List.map_filter update_text us) \<and> list_all2 (signed_for hmac key) ts ms"
proof (induction rule: obeys.induct)
  case (obeys_skip seen us ms seen' u)
  then obtain ts where "subseq ts (List.map_filter update_text us)" "list_all2 (signed_for hmac key) ts ms" by blast
  moreover from this(1) have "subseq ts (List.map_filter update_text (u # us))"
    by (cases "update_text u") auto
  ultimately show ?case by blast
next
  case (obeys_one u t m seen us ms seen')
  then obtain ts where "subseq ts (List.map_filter update_text us)" "list_all2 (signed_for hmac key) ts ms" by blast
  with obeys_one.hyps(1,2) have "subseq (t # ts) (List.map_filter update_text (u # us))"
    "list_all2 (signed_for hmac key) (t # ts) (m # ms)" by simp_all
  then show ?case by blast
qed auto

lemma obeys_sound: "obeys hmac key seen us ms seen' \<Longrightarrow> m \<in> set ms \<Longrightarrow> \<exists>k. msg_sound k m"
  by (induction rule: obeys.induct) auto

text \<open>The code stays within it, and keeps the replay boundary in the store.\<close>

definition counter_stored :: "'n nvs_ops \<Rightarrow> 'n tg_client \<Rightarrow> bool" where
  "counter_stored N c \<longleftrightarrow> nvs_get N (tg_nvs c) TG_NVS_NS NVS_KEY_COUNTER = Some (tg_counter c)"

lemma handle_updates:
  assumes "hmac_sized hmac" "fold (handle_update hmac N) us (c, table, n) = (c', table', n')"
  shows "(\<exists>ms. obeys hmac (tg_key c) (tg_counter c) us ms (tg_counter c') \<and> table' = foldl tg_apply table ms) \<and>
    tg_key c' = tg_key c \<and> (nvs_works N \<longrightarrow> counter_stored N c \<longrightarrow> counter_stored N c')"
  using assms(2)
proof (induction us arbitrary: c table n)
  case Nil
  then show ?case by (auto intro: obeys_none exI [of _ "[]"])
next
  case (Cons u us)
  from assms(1) show ?case
  proof (cases rule: handle_update_cases [where N = N and u = u and c = c and table = table and n = n])
    case (ignored n1 p)
    with Cons.prems have "fold (handle_update hmac N) us (c\<lparr>poll := p\<rparr>, table, n1) = (c', table', n')" by simp
    from Cons.IH [OF this] show ?thesis by (auto simp: counter_stored_def intro: obeys_skip)
  next
    case (obeyed p m t)
    let ?c = "c\<lparr>poll := p, tg_counter := msg_counter m,
      tg_nvs := nvs_put N (tg_nvs c) TG_NVS_NS NVS_KEY_COUNTER (msg_counter m)\<rparr>"
    from obeyed(4) Cons.prems
    have "fold (handle_update hmac N) us (?c, tg_apply table m, n + 1) = (c', table', n')" by simp
    note I = Cons.IH [OF this]
    from I obtain ms where ms: "obeys hmac (tg_key c) (msg_counter m) us ms (tg_counter c')"
      "table' = foldl tg_apply (tg_apply table m) ms" by auto
    have "obeys hmac (tg_key c) (tg_counter c) (u # us) (m # ms) (tg_counter c')"
      by (rule obeys_one [OF obeyed(1-3) ms(1)])
    moreover have "table' = foldl tg_apply table (m # ms)" using ms(2) by simp
    moreover have "nvs_works N \<Longrightarrow> counter_stored N ?c" by (simp add: counter_stored_def nvs_works_def)
    ultimately show ?thesis using I by auto
  qed
qed

text \<open>Obeying keeps the table well formed.\<close>

lemma tg_apply_inv:
  assumes "ac_inv table" "msg_sound seen m"
  shows "ac_inv (tg_apply table m)"
proof (cases "msg_op m = TG_OP_ADD")
  case True
  have f: "id_fits (msg_id m)" "length (msg_hash m) = AC_HASH_LEN"
    using assms(2) by (auto simp: msg_sound_def id_fits_def)
  show ?thesis
  proof (cases "msg_until m \<le> msg_from m \<or> ac_table table (cstr (msg_id m)) = None \<and> ac_count table = AC_MAX_SLOTS")
    case r: True
    then have "upsert table (Some (msg_id m)) (Some (msg_hash m)) (msg_from m) (msg_until m) False = (table, None)"
      by (intro upsert_refused [OF assms(1)]) blast
    then show ?thesis using True assms(1) by (simp add: tg_apply_def ac_upsert_def)
  next
    case r: False
    then have "msg_from m < msg_until m"
      "ac_table table (cstr (msg_id m)) \<noteq> None \<or> ac_count table < AC_MAX_SLOTS"
      using ac_count_le [OF assms(1)] by auto
    from upsert_held [OF assms(1) f this] True show ?thesis
      by (simp add: tg_apply_def ac_upsert_def)
  qed
next
  case False
  then show ?thesis using revoke_inv [OF assms(1)] by (simp add: tg_apply_def)
qed

lemma tg_apply_all_inv:
  "ac_inv table \<Longrightarrow> \<forall>m\<in>set ms. \<exists>k. msg_sound k m \<Longrightarrow> ac_inv (foldl tg_apply table ms)"
  by (induction ms arbitrary: table) (auto intro: tg_apply_inv)

lemma handle_body_obeys:
  assumes "hmac_sized hmac" "handle_body hmac cjson N s_body c table = (c', table', r)"
  shows "(\<exists>us ms. obeys hmac (tg_key c) (tg_counter c) us ms (tg_counter c') \<and> table' = foldl tg_apply table ms \<and>
      (us = [] \<or> (\<exists>root. cjson s_body = Some root \<and> reply_ok root \<and> reply_result root = Some us))) \<and>
    tg_key c' = tg_key c \<and> (nvs_works N \<longrightarrow> counter_stored N c \<longrightarrow> counter_stored N c')"
proof -
  have none: ?thesis if "c' = c" "table' = table"
    using that by (auto intro!: exI [of _ "[]"] obeys_none)
  show ?thesis
  proof (cases "\<exists>root us. cjson s_body = Some root \<and> reply_ok root \<and> reply_result root = Some us")
    case True
    then obtain root us where j: "cjson s_body = Some root" "reply_ok root" "reply_result root = Some us" by blast
    obtain n where "fold (handle_update hmac N) us (c, table, 0) = (c', table', n)"
      using assms(2) j by (auto simp: handle_body_def Let_def split: prod.splits)
    from handle_updates [OF assms(1) this] j show ?thesis by auto
  next
    case False
    then show ?thesis using assms(2) by (intro none) (auto simp: handle_body_def split: option.splits if_splits)
  qed
qed

lemma poll_once_obeys:
  assumes "hmac_sized hmac" "poll_once hmac cjson N http now c table = (c', table')"
  shows "(\<exists>us ms. obeys hmac (tg_key c) (tg_counter c) us ms (tg_counter c') \<and> table' = foldl tg_apply table ms \<and>
      (us = [] \<or> reply_texts cjson http c = List.map_filter update_text us)) \<and>
    tg_key c' = tg_key c \<and> (nvs_works N \<longrightarrow> counter_stored N c \<longrightarrow> counter_stored N c')"
proof (cases "\<exists>s. fst (fetch_updates http c (tg_poll_next_offset (poll c))) = Inr s \<and>
    snd (fetch_updates http c (tg_poll_next_offset (poll c))) = 200")
  case False
  then have "tg_key c' = tg_key c \<and> tg_counter c' = tg_counter c \<and> tg_nvs c' = tg_nvs c \<and> table' = table"
    using assms(2) by (auto simp: poll_once_def split_def Let_def split: if_splits sum.splits)
  then show ?thesis by (auto simp: counter_stored_def intro!: exI [of _ "[]"] obeys_none)
next
  case True
  then obtain s where f: "fetch_updates http c (tg_poll_next_offset (poll c)) = (Inr s, 200)"
    by (metis prod.collapse)
  obtain c1 t1 r where b: "handle_body hmac cjson N s c table = (c1, t1, r)" by (rule prod_cases3)
  note H = handle_body_obeys [OF assms(1) b]
  have k: "tg_key c' = tg_key c1" "tg_counter c' = tg_counter c1" "table' = t1"
    using assms(2) f b by (auto simp: poll_once_def Let_def save_u64_def split: if_splits)
  have "nvs_works N \<Longrightarrow> counter_stored N c1 \<Longrightarrow> counter_stored N c'"
    using assms(2) f b by (auto simp: poll_once_def Let_def save_u64_def counter_stored_def nvs_works_get split: if_splits)
  moreover have "reply_texts cjson http c = List.map_filter update_text us"
    if "cjson s = Some root" "reply_ok root" "reply_result root = Some us" for root us
    using that f by (simp add: reply_texts_def)
  ultimately show ?thesis using H unfolding k by metis
qed



section \<open>Properties\<close>

text \<open>C14: the courier obeys nothing but signed and new messages.  Whatever a poll receives, the
  table it leaves is the old one with a sequence of messages applied.  Each of them has a text of
  its own among the texts of that very reply, in that order: the text is a region, a separator and
  the digits of its MAC under the delivery key, and the operation, the id, the hash, the window
  and the counter of the message are what the fields of the region say.  The counters increase
  strictly from the last one accepted; the new replay boundary is the last of them, and the table
  stays well formed.\<close>

theorem courier_obeys_only_signed:
  assumes "hmac_sized hmac" "ac_inv table" "poll_once hmac cjson N http now c table = (c', table')"
  shows "(\<exists>ts ms. subseq ts (reply_texts cjson http c) \<and> list_all2 (signed_for hmac (tg_key c)) ts ms \<and>
      table' = foldl tg_apply table ms \<and>
      sorted_wrt (<) (tg_counter c # map msg_counter ms) \<and> tg_counter c' = last (tg_counter c # map msg_counter ms)) \<and>
    ac_inv table'"
proof -
  obtain us ms where o: "obeys hmac (tg_key c) (tg_counter c) us ms (tg_counter c')" "table' = foldl tg_apply table ms"
    and us: "us = [] \<or> reply_texts cjson http c = List.map_filter update_text us"
    using poll_once_obeys [OF assms(1,3)] by blast
  obtain ts where ts: "subseq ts (List.map_filter update_text us)" "list_all2 (signed_for hmac (tg_key c)) ts ms"
    using obeys_texts [OF o(1)] by blast
  have "subseq ts (reply_texts cjson http c)" using ts(1) us by (cases ts) auto
  moreover have "ac_inv table'"
    unfolding o(2) using obeys_sound [OF o(1)] by (intro tg_apply_all_inv [OF assms(2)]) blast
  ultimately show ?thesis using obeys_increasing [OF o(1)] ts(2) o(2) by blast
qed

text \<open>A client with one signed update to read.\<close>

definition courier_nvs :: "(string \<times> string \<Rightarrow> u64 option) nvs_ops" where
  "courier_nvs = \<lparr>nvs_get = (\<lambda>n ns k. n (ns, k)), nvs_put = (\<lambda>n ns k v. n((ns, k) \<mapsto> v))\<rparr>"

definition demo_token :: string where
  "demo_token = ''12345:'' @ replicate 30 CHR ''x'' @ ''y''"

definition demo_courier :: "(string \<times> string \<Rightarrow> u64 option) tg_client" where
  "demo_courier = \<lparr>bot_token = demo_token, tg_key = replicate 32 1, tg_enabled = True, tg_state = ''ready'',
     poll = tg_poll_init 40 0, tg_task = True, tg_counter = 11,
     tg_nvs = [(TG_NVS_NS, NVS_KEY_COUNTER) \<mapsto> 11]\<rparr>"

definition courier_hmac :: hmac_fn where
  "courier_hmac key region = Some (replicate 32 170)"

definition demo_update :: json_update where
  "demo_update = \<lparr>update_id = Some 41,
     json_message = Some (Some (msg_region demo_msg @ CHR ''|'' # replicate 64 CHR ''a'')),
     json_channel_post = None\<rparr>"

definition demo_json :: json_fn where
  "demo_json body = Some \<lparr>reply_ok = True, reply_result = Some [demo_update]\<rparr>"

definition courier_http :: http_fn where
  "courier_http u = \<lparr>client_made = True, perform_err = ESP_OK, http_status = 200, data_events = [''x'']\<rparr>"

definition demo_cfg :: tg_client_config where
  "demo_cfg = \<lparr>cfg_bot_token = Some demo_token, tg_cfg_key = Some (replicate 64 CHR ''1''), tg_cfg_lock = True,
     tg_cfg_unlock = True, tg_cfg_online = True, tg_cfg_now_ms = True\<rparr>"

lemma courier_nvs_works: "nvs_works courier_nvs"
  by (auto simp: nvs_works_def courier_nvs_def)

lemma courier_hmac_sized: "hmac_sized courier_hmac"
  by (simp add: hmac_sized_def courier_hmac_def)

lemma demo_token_OK: "cred_check_bot_token (Some demo_token) = CRED_OK"
  by code_simp

lemma demo_reply_texts:
  "reply_texts demo_json courier_http demo_courier = [msg_region demo_msg @ CHR ''|'' # replicate 64 CHR ''a'']"
proof -
  have "length (request_url demo_token 41) < TG_URL_SIZE" by (rule request_url_fits [OF demo_token_OK])
  then have "fetch_updates courier_http demo_courier 41 = (Inr [CHR ''x'', NUL], 200)"
    by (simp add: fetch_updates_def courier_http_def demo_courier_def Let_def body_event_def)
  moreover have "tg_poll_next_offset (poll demo_courier) = 41"
    by (simp add: demo_courier_def tg_poll_next_offset_def tg_poll_init_def)
  ultimately show ?thesis
    by (simp add: reply_texts_def demo_json_def demo_update_def update_text_def)
qed

theorem courier_obeys_only_signed_witness:
  "\<exists>ts ms. subseq ts [msg_region demo_msg @ CHR ''|'' # replicate 64 CHR ''a''] \<and>
     list_all2 (signed_for courier_hmac (replicate 32 1)) ts ms \<and>
     snd (poll_once courier_hmac demo_json courier_nvs courier_http 9 demo_courier (ac_init 3 300)) =
       foldl tg_apply (ac_init 3 300) ms"
proof -
  have "tg_key demo_courier = replicate 32 1" by (simp add: demo_courier_def)
  with courier_obeys_only_signed [OF courier_hmac_sized ac_inv_init prod.collapse [symmetric],
      where cjson = demo_json and N = courier_nvs and http = courier_http and c = demo_courier] demo_reply_texts
  show ?thesis by metis
qed

text \<open>C15: a reboot does not reopen the past.  After a poll, a client started again on the same store
  holds the replay boundary the running client held, so no line with a counter up to it is ever
  accepted again.\<close>

theorem no_replay_after_reboot:
  assumes "hmac_sized hmac" "nvs_works N" "counter_stored N c"
    "poll_once hmac cjson N http now c table = (c', table')" "tg_nvs fresh = tg_nvs c'"
    "tg_client_init N cfg now' fresh = (c1, ESP_OK)"
    "tg_parse (Some t) (tg_counter c1) (tg_compute_mac hmac c1) = Inr m"
  shows "tg_counter c1 = tg_counter c' \<and> tg_counter c \<le> tg_counter c1 \<and> tg_counter c' < msg_counter m"
proof -
  obtain us ms where o: "obeys hmac (tg_key c) (tg_counter c) us ms (tg_counter c')" "counter_stored N c'"
    using poll_once_obeys [OF assms(1,4)] assms(2,3) by blast
  have "tg_counter c \<le> tg_counter c'"
    using obeys_increasing [OF o(1)] by (cases ms rule: rev_cases) auto
  moreover have "tg_counter c1 = tg_counter c'"
    using assms(5,6) o(2) by (auto simp: tg_client_init_def load_u64_def counter_stored_def Let_def
        split: option.splits if_splits)
  moreover have "tg_counter c1 < msg_counter m"
    using tg_parse_signed(2) [OF assms(1,7)] by (simp add: msg_sound_def)
  ultimately show ?thesis by simp
qed

lemma demo_restart:
  "tg_client_init courier_nvs demo_cfg 0 demo_courier =
     (demo_courier\<lparr>tg_key := replicate 32 17, poll := tg_poll_init 0 0\<rparr>, ESP_OK)"
proof -
  have "key_hex_to_bytes (replicate 64 CHR ''1'') 32 = Some (replicate 32 17)" by code_simp
  moreover have "cstr (replicate 64 CHR ''1'') = replicate 64 CHR ''1''" by (intro cstr_id) simp
  ultimately show ?thesis
    by (simp add: tg_client_init_def demo_cfg_def demo_token_OK load_u64_def courier_nvs_def demo_courier_def)
qed

definition offline_http :: http_fn where
  "offline_http u = \<lparr>client_made = False, perform_err = ESP_OK, http_status = 0, data_events = []\<rparr>"

lemma demo_offline_poll:
  "poll_once courier_hmac demo_json courier_nvs offline_http 9 demo_courier table =
     (demo_courier\<lparr>poll := tg_poll_failed (poll demo_courier) 9, tg_state := ''retrying''\<rparr>, table)"
  by (simp add: poll_once_def fetch_updates_def offline_http_def Let_def)

theorem no_replay_after_reboot_witness:
  "11 < msg_counter demo_msg"
proof -
  let ?c1 = "demo_courier\<lparr>tg_key := replicate 32 17, poll := tg_poll_init 0 0\<rparr>"
  have "tg_compute_mac courier_hmac ?c1 (msg_region demo_msg) = Some (replicate 64 CHR ''a'' @ [NUL])"
  proof -
    have "hex_text (replicate 32 170) = replicate 64 CHR ''a''" by code_simp
    then show ?thesis by (simp add: tg_compute_mac_def courier_hmac_def)
  qed
  then have "tg_parse (Some (msg_region demo_msg @ CHR ''|'' # replicate 64 CHR ''a'')) (tg_counter ?c1)
      (tg_compute_mac courier_hmac ?c1) = Inr demo_msg"
    by (intro tg_parse_render demo_writable) (simp_all add: demo_msg_def demo_courier_def hex_chars_def)
  from no_replay_after_reboot [OF courier_hmac_sized courier_nvs_works _ demo_offline_poll _ demo_restart this]
  show ?thesis by (simp add: counter_stored_def courier_nvs_def demo_courier_def)
qed

text \<open>The request fits its buffer.  For every token that the credential check accepts and every
  offset, the URL of a request is shorter than the buffer it is printed to, so the courier is never
  silenced by a token it was told is usable.\<close>

theorem accepted_token_fits_request:
  assumes "cred_check_bot_token (Some tok) = CRED_OK"
  shows "length (request_url tok off) < TG_URL_SIZE"
  using assms by (rule request_url_fits)

theorem accepted_token_fits_request_witness:
  "length (request_url demo_token (- 1)) < TG_URL_SIZE"
  by (rule accepted_token_fits_request [OF demo_token_OK])

end
