(* ===== verification/Prov_Logic.thy ===== *)
theory Prov_Logic
  imports Gate_Prelude
begin

text \<open>
  \<^verbatim>\<open>components/wifi_prov/prov_logic.c\<close>: when the provisioning portal may be
  open, and which network credentials are worth saving.  The only way in is a
  five-second hold of the button; a session lasts at most five minutes and at
  most five wrong logins.
\<close>

section \<open>Data\<close>

abbreviation PROV_HOLD_MS :: u32 where "PROV_HOLD_MS \<equiv> 5000"
abbreviation PROV_SESSION_MS :: u32 where "PROV_SESSION_MS \<equiv> 5 * 60 * 1000"
abbreviation PROV_MAX_LOGIN_FAILURES :: u8 where "PROV_MAX_LOGIN_FAILURES \<equiv> 5"
abbreviation PROV_SSID_MAX :: nat where "PROV_SSID_MAX \<equiv> 32"
abbreviation PROV_PSK_MIN :: nat where "PROV_PSK_MIN \<equiv> 8"
abbreviation PROV_PSK_MAX :: nat where "PROV_PSK_MAX \<equiv> 63"

datatype prov_result =
    PROV_OK
  | PROV_ERR_SSID_EMPTY
  | PROV_ERR_SSID_LONG
  | PROV_ERR_SSID_CONTROL
  | PROV_ERR_PSK_SHORT
  | PROV_ERR_PSK_LONG
  | PROV_ERR_PSK_CONTROL
  | PROV_ERR_AUTH_WEP
  | PROV_ERR_AUTH_UNKNOWN

text \<open>\<open>prov_auth_t\<close> comes from the radio's scan, so it may hold any integer.\<close>

type_synonym prov_auth = int

abbreviation PROV_AUTH_OPEN :: prov_auth where "PROV_AUTH_OPEN \<equiv> 0"
abbreviation PROV_AUTH_WEP :: prov_auth where "PROV_AUTH_WEP \<equiv> 1"
abbreviation PROV_AUTH_WPA_PSK :: prov_auth where "PROV_AUTH_WPA_PSK \<equiv> 2"
abbreviation PROV_AUTH_WPA2_PSK :: prov_auth where "PROV_AUTH_WPA2_PSK \<equiv> 3"
abbreviation PROV_AUTH_WPA_WPA2_PSK :: prov_auth where "PROV_AUTH_WPA_WPA2_PSK \<equiv> 4"
abbreviation PROV_AUTH_WPA3_PSK :: prov_auth where "PROV_AUTH_WPA3_PSK \<equiv> 5"
abbreviation PROV_AUTH_WPA2_WPA3_PSK :: prov_auth where "PROV_AUTH_WPA2_WPA3_PSK \<equiv> 6"

datatype prov_state = PROV_STATE_CLOSED | PROV_STATE_OPEN

datatype prov_action = PROV_ACTION_NONE | PROV_ACTION_OPEN_AP | PROV_ACTION_CLOSE_AP

record prov_ctx =
  state :: prov_state
  button_down :: bool
  button_consumed :: bool
  button_down_ms :: u32
  opened_ms :: u32
  authenticated :: bool
  login_failures :: u8


section \<open>Credentials\<close>

text \<open>The length of a text without control characters, if it is one.\<close>

definition is_printable_ascii :: "string \<Rightarrow> nat option" where
  "is_printable_ascii s =
     (if \<exists>c\<in>set (cstr s). of_char c < (0x20 :: nat) \<or> of_char c = (0x7F :: nat) then None
      else Some (length (cstr s)))"

definition prov_check_ssid :: "string option \<Rightarrow> prov_result" where
  "prov_check_ssid ssid =
     (case ssid of
        None \<Rightarrow> PROV_ERR_SSID_EMPTY
      | Some s \<Rightarrow>
          if cstr s = [] then PROV_ERR_SSID_EMPTY
          else (case is_printable_ascii s of
                  None \<Rightarrow> PROV_ERR_SSID_CONTROL
                | Some n \<Rightarrow> if n > PROV_SSID_MAX then PROV_ERR_SSID_LONG else PROV_OK))"

definition is_hex64 :: "string \<Rightarrow> nat \<Rightarrow> bool" where
  "is_hex64 s n \<longleftrightarrow> n = 64 \<and>
     list_all (\<lambda>c. (CHR ''0'' \<le> c \<and> c \<le> CHR ''9'') \<or> (CHR ''a'' \<le> c \<and> c \<le> CHR ''f'') \<or>
       (CHR ''A'' \<le> c \<and> c \<le> CHR ''F'')) (take n s)"

definition prov_check_psk :: "string option \<Rightarrow> bool \<Rightarrow> prov_result" where
  "prov_check_psk psk open_network =
     (let s = (case psk of None \<Rightarrow> [] | Some s \<Rightarrow> s)
      in case is_printable_ascii s of
           None \<Rightarrow> PROV_ERR_PSK_CONTROL
         | Some n \<Rightarrow>
             if open_network then (if n = 0 then PROV_OK else PROV_ERR_PSK_LONG)
             else if is_hex64 s n then PROV_OK
             else if n < PROV_PSK_MIN then PROV_ERR_PSK_SHORT
             else if n > PROV_PSK_MAX then PROV_ERR_PSK_LONG
             else PROV_OK)"

definition prov_check_auth :: "prov_auth \<Rightarrow> prov_result" where
  "prov_check_auth auth =
     (if auth = PROV_AUTH_WEP then PROV_ERR_AUTH_WEP
      else if auth \<in> {PROV_AUTH_OPEN, PROV_AUTH_WPA_PSK, PROV_AUTH_WPA2_PSK, PROV_AUTH_WPA_WPA2_PSK,
          PROV_AUTH_WPA3_PSK, PROV_AUTH_WPA2_WPA3_PSK} then PROV_OK
      else PROV_ERR_AUTH_UNKNOWN)"

definition prov_auth_is_weak :: "prov_auth \<Rightarrow> bool" where
  "prov_auth_is_weak auth \<longleftrightarrow> auth = PROV_AUTH_OPEN \<or> auth = PROV_AUTH_WPA_PSK"

fun prov_result_text :: "prov_result \<Rightarrow> string" where
  "prov_result_text PROV_OK = ''ok''"
| "prov_result_text PROV_ERR_SSID_EMPTY = ''pick a network, or type a name for a hidden one''"
| "prov_result_text PROV_ERR_SSID_LONG = ''network name is longer than 32 characters''"
| "prov_result_text PROV_ERR_SSID_CONTROL = ''network name contains control characters''"
| "prov_result_text PROV_ERR_PSK_SHORT = ''password is shorter than 8 characters''"
| "prov_result_text PROV_ERR_PSK_LONG = ''password is longer than 63 characters''"
| "prov_result_text PROV_ERR_PSK_CONTROL = ''password contains control characters''"
| "prov_result_text PROV_ERR_AUTH_WEP = ''WEP is not supported: it can be broken in minutes''"
| "prov_result_text PROV_ERR_AUTH_UNKNOWN = ''unsupported security type''"


section \<open>The session\<close>

definition prov_init :: prov_ctx where
  "prov_init = \<lparr>state = PROV_STATE_CLOSED, button_down = False, button_consumed = False,
     button_down_ms = 0, opened_ms = 0, authenticated = False, login_failures = 0\<rparr>"

definition close_session :: "prov_ctx \<Rightarrow> prov_ctx \<times> prov_action" where
  "close_session ctx =
     (if state ctx \<noteq> PROV_STATE_OPEN then (ctx, PROV_ACTION_NONE)
      else (ctx\<lparr>state := PROV_STATE_CLOSED, authenticated := False, login_failures := 0, opened_ms := 0\<rparr>,
        PROV_ACTION_CLOSE_AP))"

definition prov_button :: "prov_ctx \<Rightarrow> bool \<Rightarrow> u32 \<Rightarrow> prov_ctx \<times> prov_action" where
  "prov_button ctx down now_ms =
     (if \<not> down then (ctx\<lparr>button_down := False, button_consumed := False\<rparr>, PROV_ACTION_NONE)
      else if \<not> button_down ctx then (ctx\<lparr>button_down := True, button_down_ms := now_ms\<rparr>, PROV_ACTION_NONE)
      else if button_consumed ctx \<or> state ctx = PROV_STATE_OPEN then (ctx, PROV_ACTION_NONE)
      else if now_ms - button_down_ms ctx < PROV_HOLD_MS then (ctx, PROV_ACTION_NONE)
      else (ctx\<lparr>button_consumed := True, state := PROV_STATE_OPEN, opened_ms := now_ms,
             authenticated := False, login_failures := 0\<rparr>, PROV_ACTION_OPEN_AP))"

definition prov_tick :: "prov_ctx \<Rightarrow> u32 \<Rightarrow> prov_ctx \<times> prov_action" where
  "prov_tick ctx now_ms =
     (if state ctx \<noteq> PROV_STATE_OPEN then (ctx, PROV_ACTION_NONE)
      else if now_ms - opened_ms ctx \<ge> PROV_SESSION_MS then close_session ctx
      else (ctx, PROV_ACTION_NONE))"

definition prov_close :: "prov_ctx \<Rightarrow> prov_ctx \<times> prov_action" where
  "prov_close ctx = close_session ctx"

definition prov_login :: "prov_ctx \<Rightarrow> bool \<Rightarrow> prov_ctx \<times> bool" where
  "prov_login ctx credentials_ok =
     (if state ctx \<noteq> PROV_STATE_OPEN then (ctx, False)
      else if credentials_ok then (ctx\<lparr>authenticated := True, login_failures := 0\<rparr>, True)
      else
        (let ctx = (if login_failures ctx < 255 then ctx\<lparr>login_failures := login_failures ctx + 1\<rparr> else ctx)
         in if login_failures ctx \<ge> PROV_MAX_LOGIN_FAILURES then (fst (close_session ctx), False)
            else (ctx, False)))"

definition prov_is_open :: "prov_ctx \<Rightarrow> bool" where
  "prov_is_open ctx \<longleftrightarrow> state ctx = PROV_STATE_OPEN"

definition prov_is_authenticated :: "prov_ctx \<Rightarrow> bool" where
  "prov_is_authenticated ctx \<longleftrightarrow> state ctx = PROV_STATE_OPEN \<and> authenticated ctx"

definition prov_seconds_left :: "prov_ctx \<Rightarrow> u32 \<Rightarrow> u32" where
  "prov_seconds_left ctx now_ms =
     (if state ctx \<noteq> PROV_STATE_OPEN then 0
      else (let elapsed = now_ms - opened_ms ctx
            in if elapsed \<ge> PROV_SESSION_MS then 0 else (PROV_SESSION_MS - elapsed) div 1000))"


section \<open>Runs\<close>

text \<open>What the firmware does to the session, at real times in milliseconds.\<close>

datatype prov_event =
    Scan_button bool nat
  | Clock nat
  | Close_now
  | Login bool

fun prov_step :: "prov_ctx \<Rightarrow> prov_event \<Rightarrow> prov_ctx" where
  "prov_step ctx (Scan_button down t) = fst (prov_button ctx down (of_nat t))"
| "prov_step ctx (Clock t) = fst (prov_tick ctx (of_nat t))"
| "prov_step ctx Close_now = fst (prov_close ctx)"
| "prov_step ctx (Login good) = fst (prov_login ctx good)"

text \<open>An event that opens the portal.\<close>

fun opens :: "prov_ctx \<Rightarrow> prov_event \<Rightarrow> bool" where
  "opens ctx (Scan_button down t) \<longleftrightarrow> snd (prov_button ctx down (of_nat t)) = PROV_ACTION_OPEN_AP"
| "opens ctx _ \<longleftrightarrow> False"

text \<open>A login whose credentials an open session compared and refused.\<close>

fun guess :: "prov_ctx \<Rightarrow> prov_event \<Rightarrow> bool" where
  "guess ctx (Login good) \<longleftrightarrow> prov_is_open ctx \<and> \<not> good"
| "guess ctx _ \<longleftrightarrow> False"

text \<open>How often a kind of event occurs on a run.\<close>

fun occurrences :: "(prov_ctx \<Rightarrow> prov_event \<Rightarrow> bool) \<Rightarrow> prov_ctx \<Rightarrow> prov_event list \<Rightarrow> nat" where
  "occurrences P ctx [] = 0"
| "occurrences P ctx (e # es) = (if P ctx e then 1 else 0) + occurrences P (prov_step ctx e) es"

lemmas prov_ops = prov_button_def prov_tick_def prov_close_def prov_login_def close_session_def

lemma close_session_fields [simp]:
  "button_down (fst (close_session ctx)) = button_down ctx"
  "button_down_ms (fst (close_session ctx)) = button_down_ms ctx"
  "state (fst (close_session ctx)) = PROV_STATE_CLOSED"
  "login_failures (fst (close_session ctx)) = (if state ctx = PROV_STATE_OPEN then 0 else login_failures ctx)"
  by (cases "state ctx"; simp add: close_session_def)+

lemma opens_iff:
  "opens ctx e \<longleftrightarrow> (\<exists>t. e = Scan_button True t \<and> button_down ctx \<and> \<not> button_consumed ctx \<and>
     state ctx \<noteq> PROV_STATE_OPEN \<and> PROV_HOLD_MS \<le> of_nat t - button_down_ms ctx)"
  by (cases e) (auto simp: prov_button_def not_less)

text \<open>The session opens at an opening event and at no other.\<close>

lemma step_open:
  "state (prov_step ctx e) = PROV_STATE_OPEN \<Longrightarrow> opens ctx e \<or>
     state ctx = PROV_STATE_OPEN \<and> opened_ms (prov_step ctx e) = opened_ms ctx"
  by (cases e) (auto simp: prov_ops Let_def split: if_splits)

lemma opens_step:
  "opens ctx e \<Longrightarrow> \<exists>t. e = Scan_button True t \<and> state (prov_step ctx e) = PROV_STATE_OPEN \<and>
     opened_ms (prov_step ctx e) = of_nat t \<and> login_failures (prov_step ctx e) = 0"
  by (auto simp: opens_iff prov_button_def not_less)


subsection \<open>Guesses\<close>

text \<open>A login with the right credentials, while the portal is open.\<close>

fun admitted :: "prov_ctx \<Rightarrow> prov_event \<Rightarrow> bool" where
  "admitted ctx (Login good) \<longleftrightarrow> prov_is_open ctx \<and> good"
| "admitted ctx _ \<longleftrightarrow> False"

text \<open>An open session has guesses left.\<close>

definition session_inv :: "prov_ctx \<Rightarrow> bool" where
  "session_inv ctx \<longleftrightarrow> (state ctx = PROV_STATE_OPEN \<longrightarrow> login_failures ctx < PROV_MAX_LOGIN_FAILURES)"

definition guesses_left :: "prov_ctx \<Rightarrow> nat" where
  "guesses_left ctx = (if prov_is_open ctx then 5 - unat (login_failures ctx) else 0)"

lemma unat_failures: "(f :: u8) < 5 \<Longrightarrow> unat (f + 1) = Suc (unat f)"
  by (simp add: word_less_nat_alt unat_word_ariths)

text \<open>One step of the budget: an opening or an admitted login refills it, a guess takes one.\<close>

lemma guess_budget:
  assumes "session_inv ctx"
  shows "session_inv (prov_step ctx e)"
    "(if guess ctx e then 1 else 0) + guesses_left (prov_step ctx e) \<le>
       guesses_left ctx + 5 * ((if opens ctx e then 1 else 0) + (if admitted ctx e then 1 else 0))"
proof -
  have "session_inv (prov_step ctx e) \<and> (if guess ctx e then 1 else 0) + guesses_left (prov_step ctx e) \<le>
       guesses_left ctx + 5 * ((if opens ctx e then 1 else 0) + (if admitted ctx e then 1 else 0))"
  proof (cases e)
    case (Login good)
    show ?thesis
    proof (cases "state ctx = PROV_STATE_OPEN \<and> \<not> good")
      case True
      then have f: "login_failures ctx < 5" using assms by (simp add: session_inv_def)
      then have "login_failures ctx < 255" "unat (login_failures ctx) < 5" by (simp_all add: word_less_nat_alt)
      then show ?thesis using True Login unat_failures [OF f]
        by (auto simp: session_inv_def guesses_left_def prov_is_open_def prov_login_def Let_def not_le)
    qed (use assms Login in \<open>auto simp: session_inv_def guesses_left_def prov_is_open_def prov_login_def\<close>)
  qed (use assms in \<open>auto simp: session_inv_def guesses_left_def prov_is_open_def prov_ops\<close>)
  then show "session_inv (prov_step ctx e)"
    "(if guess ctx e then 1 else 0) + guesses_left (prov_step ctx e) \<le>
       guesses_left ctx + 5 * ((if opens ctx e then 1 else 0) + (if admitted ctx e then 1 else 0))" by simp_all
qed

lemma guesses_bounded:
  "session_inv ctx \<Longrightarrow> occurrences guess ctx es \<le>
     guesses_left ctx + 5 * (occurrences opens ctx es + occurrences admitted ctx es)"
proof (induction es arbitrary: ctx)
  case (Cons e es)
  from Cons.IH [OF guess_budget(1) [OF Cons.prems, of e]] guess_budget(2) [OF Cons.prems, of e]
  show ?case by simp
qed simp

interpretation session: machine prov_step session_inv "\<lambda>_. True"
  by unfold_locales (rule guess_budget(1))

lemma session_inv_init [simp]: "session_inv prov_init"
  by (simp add: session_inv_def prov_init_def)


subsection \<open>The button\<close>

abbreviation prov_run :: "prov_event list \<Rightarrow> prov_ctx" where
  "prov_run es \<equiv> foldl prov_step prov_init es"

text \<open>In a stretch of a run no scan saw the button released.\<close>

definition stays_down :: "prov_event list \<Rightarrow> bool" where
  "stays_down es \<longleftrightarrow> list_all (\<lambda>e. case e of Scan_button down t \<Rightarrow> down | _ \<Rightarrow> True) es"

lemma button_down_since:
  "button_down (prov_run es) \<Longrightarrow>
     \<exists>pre t0 post. es = pre @ Scan_button True t0 # post \<and> button_down_ms (prov_run es) = of_nat t0 \<and> stays_down post"
proof (induction es rule: rev_induct)
  case (snoc e es)
  let ?s = "prov_run es"
  show ?case
  proof (cases "\<exists>t. e = Scan_button True t \<and> \<not> button_down ?s")
    case True
    then obtain t where "e = Scan_button True t" "\<not> button_down ?s" by blast
    then show ?thesis
      by (intro exI [of _ es] exI [of _ t] exI [of _ "[]"]) (simp add: prov_button_def stays_down_def)
  next
    case False
    with snoc.prems have k: "button_down ?s" "button_down_ms (prov_step ?s e) = button_down_ms ?s"
      "stays_down [e]"
      by (cases e; auto simp: prov_ops Let_def stays_down_def split: if_splits)+
    from snoc.IH [OF k(1)] obtain pre t0 post where
      "es = pre @ Scan_button True t0 # post" "button_down_ms ?s = of_nat t0" "stays_down post" by blast
    with k(2,3) show ?thesis by (intro exI [of _ pre] exI [of _ t0] exI [of _ "post @ [e]"]) (simp add: stays_down_def)
  qed
qed (simp add: prov_init_def)

lemma open_since:
  "state (prov_run es) = PROV_STATE_OPEN \<Longrightarrow>
     \<exists>pre t1 post. es = pre @ Scan_button True t1 # post \<and> opens (prov_run pre) (Scan_button True t1) \<and>
       opened_ms (prov_run es) = of_nat t1"
proof (induction es rule: rev_induct)
  case (snoc e es)
  from snoc.prems have "state (prov_step (prov_run es) e) = PROV_STATE_OPEN" by simp
  from step_open [OF this] show ?case
  proof
    assume o: "opens (prov_run es) e"
    from opens_step [OF o] obtain t where "e = Scan_button True t" "opened_ms (prov_step (prov_run es) e) = of_nat t" by blast
    with o show ?thesis by (intro exI [of _ es] exI [of _ t] exI [of _ "[]"]) simp
  next
    assume k: "state (prov_run es) = PROV_STATE_OPEN \<and> opened_ms (prov_step (prov_run es) e) = opened_ms (prov_run es)"
    from snoc.IH [OF conjunct1 [OF k]] k show ?thesis
      by (metis append_Cons append_assoc foldl_append foldl_Cons foldl_Nil)
  qed
qed (simp add: prov_init_def)

text \<open>The times of a run.\<close>

fun times :: "prov_event list \<Rightarrow> nat list" where
  "times [] = []"
| "times (Scan_button down t # es) = t # times es"
| "times (Clock t # es) = t # times es"
| "times (_ # es) = times es"

lemma times_append [simp]: "times (a @ b) = times a @ times b"
  by (induction a rule: times.induct) auto

lemma span_u32_le:
  assumes "t0 \<le> t" "w \<le> of_nat t - (of_nat t0 :: u32)"
  shows "unat w \<le> t - t0"
proof -
  have "of_nat t - (of_nat t0 :: u32) = of_nat (t - t0)" using assms(1) by simp
  then have "unat w \<le> unat (of_nat (t - t0) :: u32)" using assms(2) by (simp add: word_le_nat_alt)
  also have "\<dots> \<le> t - t0" by (simp only: unat_of_nat) (simp add: take_bit_eq_mod)
  finally show ?thesis .
qed


section \<open>Properties\<close>

text \<open>C23: the portal is open only after a deliberate hold, and never for long.  If the session is
  open after the clock was looked at, then some scan opened it less than five minutes before (by the
  32-bit clock), and for at least five seconds up to that scan no scan had seen the button
  released.  No other event, failed connections included, opens it.\<close>

theorem open_portal_was_held_open:
  assumes "sorted (times es)" "prov_is_open (prov_run (es @ [Clock t]))"
  shows "\<exists>pre t0 mid t1 post. es = pre @ Scan_button True t0 # mid @ Scan_button True t1 # post \<and>
    stays_down mid \<and> t0 + 5000 \<le> t1 \<and> (of_nat t - of_nat t1 :: u32) < PROV_SESSION_MS"
proof -
  have o: "state (prov_run es) = PROV_STATE_OPEN" "of_nat t - opened_ms (prov_run es) < PROV_SESSION_MS"
    using assms(2) by (auto simp: prov_is_open_def prov_ops split: if_splits)
  from open_since [OF o(1)] obtain pre1 t1 post where b: "es = pre1 @ Scan_button True t1 # post"
    "opens (prov_run pre1) (Scan_button True t1)" "opened_ms (prov_run es) = of_nat t1" by blast
  then have h: "button_down (prov_run pre1)" "PROV_HOLD_MS \<le> of_nat t1 - button_down_ms (prov_run pre1)"
    by (auto simp: opens_iff)
  from button_down_since [OF h(1)] obtain pre t0 mid where
    d: "pre1 = pre @ Scan_button True t0 # mid" "button_down_ms (prov_run pre1) = of_nat t0" "stays_down mid" by blast
  have "t0 \<le> t1" using assms(1) b(1) d(1) by (simp add: sorted_append)
  from span_u32_le [OF this, of PROV_HOLD_MS] h(2) d(2) have "5000 \<le> t1 - t0" by simp
  with \<open>t0 \<le> t1\<close> have "t0 + 5000 \<le> t1" by simp
  with b d(1,3) o(2) show ?thesis by (intro exI [of _ pre] exI [of _ t0] exI [of _ mid] exI [of _ t1] exI [of _ post]) simp
qed

theorem open_portal_was_held_open_witness:
  "prov_is_open (prov_run [Scan_button True 10, Scan_button True 5010, Clock 5011]) \<and>
   (\<exists>pre t0 mid t1 post. [Scan_button True 10, Scan_button True 5010] = pre @ Scan_button True t0 # mid @ Scan_button True t1 # post \<and>
      stays_down mid \<and> t0 + 5000 \<le> t1 \<and> (of_nat 5011 - of_nat t1 :: u32) < PROV_SESSION_MS)"
proof -
  have "prov_is_open (prov_run ([Scan_button True 10, Scan_button True 5010] @ [Clock 5011]))" by code_simp
  with open_portal_was_held_open [OF _ this] show ?thesis by simp
qed

text \<open>A stranger in radio range must come back to the button.  Over any run from the start, the
  wrong logins that an open session compares are at most five per opening of the portal by the
  button and per login with the right credentials.\<close>

theorem guesses_need_the_button:
  "occurrences guess prov_init es \<le> 5 * (occurrences opens prov_init es + occurrences admitted prov_init es)"
  using guesses_bounded [OF session_inv_init, of es] by (simp add: guesses_left_def prov_is_open_def prov_init_def)

end
