(* ===== verification/Prov_Form.thy ===== *)
theory Prov_Form
  imports Wire_Text
begin

text \<open>
  \<^verbatim>\<open>components/wifi_prov/prov_form.c\<close>: what the browser posts.  Percent
  escapes, the search for a field in a form body, and the comparison of
  credentials.  A destination buffer is returned as the characters it holds.
\<close>

section \<open>Operations\<close>

definition hex_val :: "char \<Rightarrow> int" where
  "hex_val c =
     (if CHR ''0'' \<le> c \<and> c \<le> CHR ''9'' then of_char c - of_char CHR ''0''
      else if CHR ''a'' \<le> c \<and> c \<le> CHR ''f'' then of_char c - of_char CHR ''a'' + 10
      else if CHR ''A'' \<le> c \<and> c \<le> CHR ''F'' then of_char c - of_char CHR ''A'' + 10
      else - 1)"

text \<open>The loop of the decoder over what is left of the source; \<open>out\<close> is what was written.
  An escape consumes three characters.\<close>

fun url_loop :: "nat \<Rightarrow> string \<Rightarrow> string \<Rightarrow> string option" where
  "url_loop dst_size out [] = Some out"
| "url_loop dst_size out (c # src) =
     (if c = CHR ''+''
      then (if length out + 1 \<ge> dst_size then None else url_loop dst_size (out @ [CHR '' '']) src)
      else if c = CHR ''%''
      then (case src of
              h # l # rest \<Rightarrow>
                (let hi = hex_val h; lo = hex_val l
                 in if hi < 0 \<or> lo < 0 then None
                    else if length out + 1 \<ge> dst_size then None
                    else url_loop dst_size (out @ [char_of (push_bit 4 hi OR lo)]) rest)
            | _ \<Rightarrow> None)
      else (if length out + 1 \<ge> dst_size then None else url_loop dst_size (out @ [c]) src))"

text \<open>The buffer and the returned length; a buffer that is not there is one of size 0.\<close>

definition prov_url_decode :: "nat \<Rightarrow> string option \<Rightarrow> nat \<Rightarrow> string \<times> int" where
  "prov_url_decode dst_size src src_len =
     (if dst_size = 0 then ([], - 1)
      else (case src of
              None \<Rightarrow> (replicate dst_size NUL, - 1)
            | Some s \<Rightarrow>
                (case url_loop dst_size [] (take src_len s) of
                   None \<Rightarrow> (replicate dst_size NUL, - 1)
                 | Some out \<Rightarrow> (out @ replicate (dst_size - length out) NUL, int (length out)))))"

text \<open>The search: \<open>i\<close> is the index of \<open>p\<close> in the body.\<close>

function form_loop :: "string \<Rightarrow> string \<Rightarrow> nat \<Rightarrow> nat \<Rightarrow> string \<times> bool" where
  "form_loop body name out_size i =
     (if i \<ge> length body then (replicate out_size NUL, False)
      else
        (let p = drop i body;
             name_len = length name;
             at_field_start = (i = 0 \<or> body ! (i - 1) = CHR ''&'')
         in if at_field_start \<and> strncmp_eq p name name_len \<and> name_len < length p \<and> p ! name_len = CHR ''=''
            then
              (let value = drop (name_len + 1) p;
                   len = (case first_index (\<lambda>c. c = CHR ''&'') value of Some e \<Rightarrow> e | None \<Rightarrow> length value);
                   (out, r) = prov_url_decode out_size (Some value) len
               in (out, r \<ge> 0))
            else
              (case first_index (\<lambda>c. c = CHR ''&'') p of
                 None \<Rightarrow> (replicate out_size NUL, False)
               | Some k \<Rightarrow> form_loop body name out_size (i + k + 1))))"
  by pat_completeness auto

termination
  by (relation "measure (\<lambda>(body, name, out_size, i). length body - i)") auto

declare form_loop.simps [simp del]

definition prov_form_field :: "string option \<Rightarrow> string option \<Rightarrow> nat \<Rightarrow> string \<times> bool" where
  "prov_form_field body name out_size =
     (if out_size = 0 then ([], False)
      else (case (body, name) of
              (Some b, Some n) \<Rightarrow>
                if cstr n = [] then (replicate out_size NUL, False)
                else form_loop (cstr b) (cstr n) out_size 0
            | _ \<Rightarrow> (replicate out_size NUL, False)))"

definition prov_ct_str_equal :: "string option \<Rightarrow> string option \<Rightarrow> bool" where
  "prov_ct_str_equal a b =
     (case (a, b) of
        (Some a, Some b) \<Rightarrow>
          (let la = length (cstr a); lb = length (cstr b);
               n = (if la > lb then la else lb);
               diff = (of_nat la XOR of_nat lb :: u32)
           in fold (\<lambda>i diff.
                (let ca = (if i < la then cstr a ! i else NUL);
                     cb = (if i < lb then cstr b ! i else NUL)
                 in diff OR (of_char ca XOR of_char cb))) [0..<n] diff = 0)
      | _ \<Rightarrow> False)"


section \<open>Comparing credentials\<close>

lemma ct_str_equal_iff: "prov_ct_str_equal (Some a) (Some b) \<longleftrightarrow> cstr a = cstr b"
proof -
  let ?a = "cstr a" and ?b = "cstr b"
  let ?n = "if length ?a > length ?b then length ?a else length ?b"
  have "prov_ct_str_equal (Some a) (Some b) \<longleftrightarrow>
      (of_nat (length ?a) :: u32) = of_nat (length ?b) \<and>
      (\<forall>i<?n. (if i < length ?a then ?a ! i else NUL) = (if i < length ?b then ?b ! i else NUL))"
    by (simp add: prov_ct_str_equal_def Let_def fold_or_eq_0 xor_eq_0_iff_word of_char_u32_inj)
  also have "\<dots> \<longleftrightarrow> ?a = ?b"
  proof
    assume e: "(of_nat (length ?a) :: u32) = of_nat (length ?b) \<and>
      (\<forall>i<?n. (if i < length ?a then ?a ! i else NUL) = (if i < length ?b then ?b ! i else NUL))"
    have nz: "i < length (cstr s) \<Longrightarrow> cstr s ! i \<noteq> NUL" for s i by (metis cstr_no_NUL nth_mem)
    have "\<not> length ?a < length ?b" using e nz [of "length ?a" b] by (auto dest!: spec [of _ "length ?a"])
    moreover have "\<not> length ?b < length ?a" using e nz [of "length ?b" a] by (auto dest!: spec [of _ "length ?b"])
    ultimately have l: "length ?a = length ?b" by simp
    with e show "?a = ?b" by (intro nth_equalityI) auto
  qed simp
  finally show ?thesis .
qed

lemma prov_ct_str_equal_iff:
  "prov_ct_str_equal a b \<longleftrightarrow> (\<exists>s t. a = Some s \<and> b = Some t \<and> cstr s = cstr t)"
  by (cases a; cases b) (auto simp: ct_str_equal_iff, simp_all add: prov_ct_str_equal_def)


section \<open>Decoding\<close>

text \<open>The text an escaped text stands for, without a buffer.\<close>

fun url_text :: "string \<Rightarrow> string option" where
  "url_text [] = Some []"
| "url_text (c # src) =
     (if c = CHR ''+'' then map_option (Cons CHR '' '') (url_text src)
      else if c = CHR ''%''
      then (case src of
              h # l # rest \<Rightarrow>
                if hex_val h < 0 \<or> hex_val l < 0 then None
                else map_option (Cons (char_of (push_bit 4 (hex_val h) OR hex_val l))) (url_text rest)
            | _ \<Rightarrow> None)
      else map_option (Cons c) (url_text src))"

lemma url_loop_text:
  "length out < dst_size \<Longrightarrow> url_loop dst_size out src =
     (case url_text src of Some t \<Rightarrow> if length out + length t < dst_size then Some (out @ t) else None | None \<Rightarrow> None)"
proof (induction dst_size out src rule: url_loop.induct)
  case (2 dst_size out c src)
  show ?case
  proof (cases "c = CHR ''%''")
    case True
    show ?thesis
    proof (cases "\<exists>h l rest. src = h # l # rest")
      case T: True
      then obtain h l rest where s: "src = h # l # rest" by blast
      show ?thesis
        using "2.IH"(2) [of h "l # rest" l rest "hex_val h" "hex_val l"] "2.prems" True
        by (auto simp: s Let_def split: option.split)
    next
      case False
      then show ?thesis using True by (auto split: list.split)
    qed
  next
    case False
    then show ?thesis using "2.IH"(1,3) "2.prems" by (auto split: option.split)
  qed
qed simp

lemma url_decode_text:
  assumes "0 < dst_size"
  shows "prov_url_decode dst_size (Some s) n =
    (case url_text (take n s) of
       Some t \<Rightarrow> if length t < dst_size then (t @ replicate (dst_size - length t) NUL, int (length t))
                 else (replicate dst_size NUL, - 1)
     | None \<Rightarrow> (replicate dst_size NUL, - 1))"
  using assms by (simp add: prov_url_decode_def url_loop_text split: option.split)


section \<open>Finding a field\<close>

text \<open>The value of the first field of that name, still escaped.\<close>

definition field_of :: "string \<Rightarrow> string \<Rightarrow> string option" where
  "field_of name body =
     map_option (drop (length name + 1)) (find (\<lambda>f. starts_with f (name @ ''='')) (split_on CHR ''&'' body))"

lemma split_on_first:
  "split_on sep p = (case first_index (\<lambda>c. c = sep) p of None \<Rightarrow> [p] | Some k \<Rightarrow> take k p # split_on sep (drop (Suc k) p))"
  by (induction p) (auto split: option.split)

lemma first_index_takeWhile:
  "take (case first_index (\<lambda>c. c = sep) v of Some e \<Rightarrow> e | None \<Rightarrow> length v) v = takeWhile (\<lambda>c. c \<noteq> sep) v"
  by (induction v) (auto split: option.splits)

lemma hd_split_on: "hd (split_on sep p) = takeWhile (\<lambda>c. c \<noteq> sep) p"
  by (induction p) auto

lemma field_match:
  assumes "NUL \<notin> set p" "NUL \<notin> set name" "sep \<notin> set name" "sep \<noteq> CHR ''=''"
  shows "strncmp_eq p name (length name) \<and> length name < length p \<and> p ! length name = CHR ''='' \<longleftrightarrow>
    starts_with (takeWhile (\<lambda>c. c \<noteq> sep) p) (name @ ''='')"
proof -
  have "strncmp_eq p name (length name) \<longleftrightarrow> take (length name) p = name"
    using assms(1,2) by (simp add: strncmp_eq_take cstr_id)
  moreover have "take (length name) p = name \<and> length name < length p \<and> p ! length name = CHR ''='' \<longleftrightarrow>
      (\<exists>r. p = name @ CHR ''='' # r)"
  proof
    assume l: "take (length name) p = name \<and> length name < length p \<and> p ! length name = CHR ''=''"
    then show "\<exists>r. p = name @ CHR ''='' # r" by (metis id_take_nth_drop)
  qed auto
  moreover have "(\<exists>r. p = name @ CHR ''='' # r) \<longleftrightarrow> starts_with (takeWhile (\<lambda>c. c \<noteq> sep) p) (name @ ''='')"
  proof
    assume "\<exists>r. p = name @ CHR ''='' # r"
    then obtain r where "p = name @ CHR ''='' # r" by blast
    then have "takeWhile (\<lambda>c. c \<noteq> sep) p = (name @ ''='') @ takeWhile (\<lambda>c. c \<noteq> sep) r"
      using assms(3,4) by (auto simp: takeWhile_append)
    then show "starts_with (takeWhile (\<lambda>c. c \<noteq> sep) p) (name @ ''='')" by (auto simp: starts_with_iff)
  next
    assume "starts_with (takeWhile (\<lambda>c. c \<noteq> sep) p) (name @ ''='')"
    then obtain r where "takeWhile (\<lambda>c. c \<noteq> sep) p = name @ CHR ''='' # r" by (auto simp: starts_with_iff)
    then have "p = name @ CHR ''='' # r @ dropWhile (\<lambda>c. c \<noteq> sep) p"
      using takeWhile_dropWhile_id [of "\<lambda>c. c \<noteq> sep" p] by simp
    then show "\<exists>r. p = name @ CHR ''='' # r" by blast
  qed
  ultimately show ?thesis by blast
qed

lemma form_loop_field:
  assumes "NUL \<notin> set body" "NUL \<notin> set name" "CHR ''&'' \<notin> set name"
    "i = 0 \<or> body ! (i - 1) = CHR ''&''"
  shows "form_loop body name n i =
    (case field_of name (drop i body) of
       None \<Rightarrow> (replicate n NUL, False)
     | Some v \<Rightarrow> (case prov_url_decode n (Some v) (length v) of (out, r) \<Rightarrow> (out, r \<ge> 0)))"
  using assms(4)
proof (induction "length body - i" arbitrary: i rule: less_induct)
  case less
  show ?case
  proof (cases "i \<ge> length body")
    case True
    then show ?thesis by (simp add: form_loop.simps [of body] field_of_def starts_with_def)
  next
    case False
    define p where "p = drop i body"
    have p: "p \<noteq> []" "NUL \<notin> set p" using False assms(1) by (auto simp: p_def dest: in_set_dropD)
    note m = field_match [OF p(2) assms(2,3)]
    show ?thesis
    proof (cases "starts_with (takeWhile (\<lambda>c. c \<noteq> CHR ''&'') p) (name @ ''='')")
      case True
      then obtain r where r: "takeWhile (\<lambda>c. c \<noteq> CHR ''&'') p = name @ CHR ''='' # r"
        by (auto simp: starts_with_iff)
      let ?v = "drop (Suc (length name)) p"
      define len where "len = (case first_index (\<lambda>c. c = CHR ''&'') ?v of Some e \<Rightarrow> e | None \<Rightarrow> length ?v)"
      have p2: "p = name @ CHR ''='' # r @ dropWhile (\<lambda>c. c \<noteq> CHR ''&'') p"
        using r takeWhile_dropWhile_id [of "\<lambda>c. c \<noteq> CHR ''&''" p] by simp
      then have "?v = r @ dropWhile (\<lambda>c. c \<noteq> CHR ''&'') p" by (metis append_Cons append_Nil append_assoc
            append_eq_conv_conj length_append_singleton)
      moreover have "CHR ''&'' \<notin> set r"
        using r set_takeWhileD [of "CHR ''&''" "\<lambda>c. c \<noteq> CHR ''&''" p] by auto
      ultimately have tv: "take len ?v = r"
        unfolding len_def first_index_takeWhile
        by (cases "dropWhile (\<lambda>c. c \<noteq> CHR ''&'') p") (auto simp: takeWhile_append dest!: dropWhile_eq_Cons_conv [THEN iffD1])
      have "prov_url_decode n (Some ?v) len = prov_url_decode n (Some r) (length r)"
        by (simp add: prov_url_decode_def tv)
      moreover have "field_of name p = Some r"
      proof -
        obtain fs where "split_on CHR ''&'' p = (name @ CHR ''='' # r) # fs"
          by (metis hd_split_on list.collapse r split_on_ne)
        then show ?thesis using True by (simp add: field_of_def r)
      qed
      ultimately show ?thesis
        using True False less.prems m by (simp add: form_loop.simps [of body name n i] p_def [symmetric] Let_def len_def)
    next
      case F: False
      then have nm: "\<not> (strncmp_eq p name (length name) \<and> length name < length p \<and> p ! length name = CHR ''='')"
        using m by blast
      have step: "form_loop body name n i = (case first_index (\<lambda>c. c = CHR ''&'') p of
          None \<Rightarrow> (replicate n NUL, False) | Some k \<Rightarrow> form_loop body name n (i + k + 1))"
        using False nm by (subst form_loop.simps) (simp only: Let_def p_def [symmetric] if_False simp_thms)
      show ?thesis
      proof (cases "first_index (\<lambda>c. c = CHR ''&'') p")
        case None
        then have "split_on CHR ''&'' p = [p]" by (subst split_on_first) simp
        moreover have "takeWhile (\<lambda>c. c \<noteq> CHR ''&'') p = p"
          using None by (auto simp: first_index_None)
        with F have "\<not> starts_with p (name @ ''='')" by (simp only: not_False_eq_True)
        ultimately have "field_of name p = None" by (simp add: field_of_def)
        then show ?thesis by (simp add: step None p_def [symmetric])
      next
        case (Some k)
        from first_index_SomeD [OF Some] have k: "k < length p" "p ! k = CHR ''&''" .
        have "split_on CHR ''&'' p = take k p # split_on CHR ''&'' (drop (Suc k) p)"
          by (subst split_on_first) (simp add: Some)
        moreover have "takeWhile (\<lambda>c. c \<noteq> CHR ''&'') p = take k p"
          using first_index_takeWhile [where sep = "CHR ''&''" and v = p] Some by simp
        ultimately have f: "field_of name p = field_of name (drop (Suc k) p)" using F by (simp add: field_of_def)
        have "form_loop body name n (i + k + 1) = (case field_of name (drop (i + k + 1) body) of
            None \<Rightarrow> (replicate n NUL, False)
          | Some v \<Rightarrow> (case prov_url_decode n (Some v) (length v) of (out, r) \<Rightarrow> (out, r \<ge> 0)))"
          using k False by (intro less.hyps) (auto simp: p_def)
        moreover have "drop (i + k + 1) body = drop (Suc k) p" by (simp add: p_def add.commute)
        ultimately show ?thesis by (simp add: step Some f p_def [symmetric])
      qed
    qed
  qed
qed


text \<open>What the search returns, in terms of the fields and of the decoded text.\<close>

lemma form_field_value:
  assumes "0 < n" "name \<noteq> []" "NUL \<notin> set body" "NUL \<notin> set name" "CHR ''&'' \<notin> set name"
  shows "prov_form_field (Some body) (Some name) n =
    (case Option.bind (field_of name body) url_text of
       None \<Rightarrow> (replicate n NUL, False)
     | Some t \<Rightarrow> if length t < n then (t @ replicate (n - length t) NUL, True) else (replicate n NUL, False))"
proof -
  have "prov_form_field (Some body) (Some name) n = form_loop body name n 0"
    using assms by (simp add: prov_form_field_def cstr_id)
  also note form_loop_field [OF assms(3,4,5), of 0 n]
  finally show ?thesis
    by (auto simp: url_decode_text [OF assms(1)] Option.bind_eq_None_conv split: option.split)
qed


section \<open>What a browser posts\<close>

definition plain_chars :: string where
  "plain_chars = ''ABCDEFGHIJKLMNOPQRSTUVWXYZabcdefghijklmnopqrstuvwxyz0123456789*-._''"

definition url_escape :: "char \<Rightarrow> string" where
  "url_escape c =
     (if c \<in> set plain_chars then [c]
      else if c = CHR '' '' then ''+''
      else [CHR ''%'', upper_hex (of_char c div 16), upper_hex (of_char c mod 16)])"

definition form_body :: "(string \<times> string) list \<Rightarrow> string" where
  "form_body kvs = join CHR ''&'' (map (\<lambda>(k, v). k @ CHR ''='' # concat (map url_escape v)) kvs)"

lemma upper_hex_val: "n < 16 \<Longrightarrow> hex_val (upper_hex n) = int n \<and> upper_hex n \<noteq> NUL \<and> upper_hex n \<noteq> CHR ''&''"
  by (drule less_16_cases, elim insertE emptyE)
    (simp_all add: upper_hex_def hex_val_def less_eq_char_def)

lemma plain_chars_plain:
  "list_all (\<lambda>c. c \<noteq> CHR ''+'' \<and> c \<noteq> CHR ''%'' \<and> c \<noteq> CHR ''&'' \<and> c \<noteq> NUL) plain_chars"
  by code_simp

lemma plain_char: "c \<in> set plain_chars \<Longrightarrow> c \<noteq> CHR ''+'' \<and> c \<noteq> CHR ''%'' \<and> c \<noteq> CHR ''&'' \<and> c \<noteq> NUL"
  using plain_chars_plain by (auto simp: list_all_iff)

lemma char_nibbles: "of_char c div 16 < (16 :: nat)" "of_char c mod 16 < (16 :: nat)"
  using nat_of_char_less_256 [of c] by (simp_all add: div_less_iff_less_mult)

lemma url_text_escape: "url_text (url_escape c @ src) = map_option (Cons c) (url_text src)"
proof -
  note h = char_nibbles [of c]
  have "16 * (of_char c div 16) + of_char c mod 16 = (of_char c :: nat)" by simp
  then have "char_of (push_bit 4 (int (of_char c div 16)) OR int (of_char c mod 16)) = (char_of (int (of_char c)) :: char)"
    by (simp only: nibbles_int [OF h(2)])
  also have "\<dots> = c" by (simp add: of_nat_of_char)
  finally show ?thesis
    using upper_hex_val [OF h(1)] upper_hex_val [OF h(2)] plain_char [of c]
    by (auto simp: url_escape_def)
qed

lemma url_text_escaped: "url_text (concat (map url_escape t)) = Some t"
  by (induction t) (simp_all add: url_text_escape)

lemma url_escape_chars: "NUL \<notin> set (url_escape c)" "CHR ''&'' \<notin> set (url_escape c)"
proof -
  note h = char_nibbles [of c]
  have "NUL \<notin> set (url_escape c) \<and> CHR ''&'' \<notin> set (url_escape c)"
    using upper_hex_val [OF h(1)] upper_hex_val [OF h(2)] plain_char [of c] by (auto simp: url_escape_def)
  then show "NUL \<notin> set (url_escape c)" "CHR ''&'' \<notin> set (url_escape c)" by simp_all
qed

definition field_name :: "string \<Rightarrow> bool" where
  "field_name k \<longleftrightarrow> k \<noteq> [] \<and> NUL \<notin> set k \<and> CHR ''&'' \<notin> set k \<and> CHR ''='' \<notin> set k"

lemma takeWhile_before: "x \<notin> set k \<Longrightarrow> takeWhile (\<lambda>c. c \<noteq> x) (k @ x # v) = k"
  by (induction k) auto

lemma starts_with_name:
  assumes "CHR ''='' \<notin> set name" "CHR ''='' \<notin> set k"
  shows "starts_with (k @ CHR ''='' # v) (name @ ''='') \<longleftrightarrow> k = name"
proof
  assume "starts_with (k @ CHR ''='' # v) (name @ ''='')"
  then obtain r where "k @ CHR ''='' # v = name @ CHR ''='' # r" by (auto simp: starts_with_iff)
  then have "takeWhile (\<lambda>c. c \<noteq> CHR ''='') (k @ CHR ''='' # v) = takeWhile (\<lambda>c. c \<noteq> CHR ''='') (name @ CHR ''='' # r)"
    by simp
  then show "k = name" by (simp only: takeWhile_before [OF assms(1)] takeWhile_before [OF assms(2)])
qed (auto simp: starts_with_iff)

lemma field_of_form_body:
  assumes "field_name name" "\<forall>k\<in>fst ` set kvs. field_name k"
  shows "field_of name (form_body kvs) = map_option (\<lambda>v. concat (map url_escape v)) (map_of kvs name)"
proof (cases "kvs = []")
  case True
  then show ?thesis by (simp add: field_of_def form_body_def starts_with_def)
next
  case False
  let ?f = "\<lambda>(k, v). k @ CHR ''='' # concat (map url_escape v)"
  have "\<forall>f\<in>set (map ?f kvs). CHR ''&'' \<notin> set f"
    using assms(2) url_escape_chars(2) by (fastforce simp: field_name_def)
  then have "split_on CHR ''&'' (form_body kvs) = map ?f kvs"
    unfolding form_body_def using False by (intro split_on_join) auto
  then have "field_of name (form_body kvs) =
      map_option (drop (length name + 1)) (find (\<lambda>f. starts_with f (name @ ''='')) (map ?f kvs))"
    by (simp add: field_of_def)
  also have "\<dots> = map_option (\<lambda>v. concat (map url_escape v)) (map_of kvs name)"
    using assms(2)
  proof (induction kvs)
    case (Cons kv kvs)
    obtain k v where kv: "kv = (k, v)" by (cases kv)
    have "starts_with (k @ CHR ''='' # concat (map url_escape v)) (name @ ''='') \<longleftrightarrow> k = name"
      using Cons.prems assms(1) by (intro starts_with_name) (auto simp: kv field_name_def)
    then show ?case using Cons by (simp add: kv)
  qed simp
  finally show ?thesis .
qed

lemma NUL_notin_form_body: "\<forall>k\<in>fst ` set kvs. field_name k \<Longrightarrow> NUL \<notin> set (form_body kvs)"
proof -
  have "\<forall>f\<in>set fs. NUL \<notin> set f \<Longrightarrow> NUL \<notin> set (join CHR ''&'' fs)" for fs
    by (induction "CHR ''&''" fs rule: join.induct) auto
  moreover assume "\<forall>k\<in>fst ` set kvs. field_name k"
  then have "\<forall>f\<in>set (map (\<lambda>(k, v). k @ CHR ''='' # concat (map url_escape v)) kvs). NUL \<notin> set f"
    using url_escape_chars(1) by (fastforce simp: field_name_def)
  ultimately show "NUL \<notin> set (form_body kvs)" unfolding form_body_def .
qed


lemma field_lookup:
  assumes "0 < n" "field_name name" "\<forall>k\<in>fst ` set kvs. field_name k"
  shows "prov_form_field (Some (form_body kvs)) (Some name) n =
    (case map_of kvs name of
       None \<Rightarrow> (replicate n NUL, False)
     | Some v \<Rightarrow> if length v < n then (v @ replicate (n - length v) NUL, True) else (replicate n NUL, False))"
proof -
  have "name \<noteq> []" "NUL \<notin> set name" "CHR ''&'' \<notin> set name" using assms(2) by (simp_all add: field_name_def)
  from form_field_value [OF assms(1) this(1) NUL_notin_form_body [OF assms(3)] this(2,3)]
  show ?thesis by (simp add: field_of_form_body [OF assms(2,3)] url_text_escaped split: option.split)
qed


section \<open>Properties\<close>

text \<open>C32: the portal reads what the browser posts.  Whatever values a form carries, escaped the way
  browsers escape them, the search for a field yields the value of the first field of exactly that
  name, whole, or an empty buffer and failure when there is none or when it does not fit: nothing
  is truncated, and a name never matches a part of another.\<close>

theorem posted_field_is_read:
  assumes "0 < n" "field_name name" "\<forall>k\<in>fst ` set kvs. field_name k"
  shows "prov_form_field (Some (form_body kvs)) (Some name) n =
    (case map_of kvs name of
       None \<Rightarrow> (replicate n NUL, False)
     | Some v \<Rightarrow> if length v < n then (v @ replicate (n - length v) NUL, True) else (replicate n NUL, False))"
  using assms by (rule field_lookup)

definition demo_form :: "(string \<times> string) list" where
  "demo_form = [(''ssid2'', ''no''), (''ssid'', ''my net&co''), (''psk'', ''a+b=c%'')]"

lemma demo_form_facts:
  "map_of demo_form ''ssid'' = Some ''my net&co''"
  "field_name ''ssid''"
  "list_all field_name (map fst demo_form)"
  subgoal by code_simp
  subgoal by code_simp
  subgoal by code_simp
  done

theorem posted_field_is_read_witness:
  "prov_form_field (Some (form_body demo_form)) (Some ''ssid'') 12 = (''my net&co'' @ replicate 3 NUL, True)"
proof -
  have "\<forall>k\<in>fst ` set demo_form. field_name k" using demo_form_facts(3) by (simp only: list_all_iff set_map)
  from posted_field_is_read [OF _ demo_form_facts(2) this, of 12]
  show ?thesis by (simp add: demo_form_facts(1))
qed

end
