(* ===== verification/Net_Retry.thy ===== *)
theory Net_Retry
  imports Gate_Prelude
begin

text \<open>
  \<^verbatim>\<open>components/net_link/net_retry.c\<close>: when to try the Wi-Fi link again.
  A backoff that doubles from one second to a minute, and starts over at the
  first connection or loss of it.
\<close>

section \<open>Data and operations\<close>

abbreviation NET_RETRY_FIRST_MS :: u32 where "NET_RETRY_FIRST_MS \<equiv> 1000"
abbreviation NET_RETRY_MAX_MS :: u32 where "NET_RETRY_MAX_MS \<equiv> 60000"
abbreviation NET_RETRY_QUIET_AFTER :: u8 where "NET_RETRY_QUIET_AFTER \<equiv> 5"

record net_retry =
  connected :: bool
  failures :: u8
  delay_ms :: u32
  next_try_ms :: u32

definition net_retry_init :: "u32 \<Rightarrow> net_retry" where
  "net_retry_init now_ms = \<lparr>connected = False, failures = 0, delay_ms = NET_RETRY_FIRST_MS,
     next_try_ms = now_ms\<rparr>"

definition net_retry_due :: "net_retry \<Rightarrow> u32 \<Rightarrow> bool" where
  "net_retry_due r now_ms \<longleftrightarrow>
     (if connected r then False else 0 \<le> sint (now_ms - next_try_ms r))"

definition net_retry_failed :: "net_retry \<Rightarrow> u32 \<Rightarrow> net_retry" where
  "net_retry_failed r now_ms =
     (let r = r\<lparr>connected := False\<rparr>;
          r = (if failures r < 255 then r\<lparr>failures := failures r + 1\<rparr> else r);
          r = r\<lparr>next_try_ms := now_ms + delay_ms r\<rparr>;
          nxt = delay_ms r * 2
      in r\<lparr>delay_ms := (if nxt > NET_RETRY_MAX_MS \<or> nxt < delay_ms r then NET_RETRY_MAX_MS else nxt)\<rparr>)"

definition net_retry_connected :: "net_retry \<Rightarrow> net_retry" where
  "net_retry_connected r = r\<lparr>connected := True, failures := 0, delay_ms := NET_RETRY_FIRST_MS\<rparr>"

definition net_retry_disconnected :: "net_retry \<Rightarrow> u32 \<Rightarrow> net_retry" where
  "net_retry_disconnected r now_ms = r\<lparr>connected := False, failures := 0,
     delay_ms := NET_RETRY_FIRST_MS, next_try_ms := now_ms\<rparr>"

definition net_retry_should_log :: "net_retry \<Rightarrow> bool" where
  "net_retry_should_log r \<longleftrightarrow> failures r \<le> NET_RETRY_QUIET_AFTER \<or> delay_ms r \<ge> NET_RETRY_MAX_MS"

definition net_retry_delay_ms :: "net_retry \<Rightarrow> u32" where
  "net_retry_delay_ms r = delay_ms r"


section \<open>The backoff\<close>

definition backoff_ok :: "net_retry \<Rightarrow> bool" where
  "backoff_ok r \<longleftrightarrow> NET_RETRY_FIRST_MS \<le> delay_ms r \<and> delay_ms r \<le> NET_RETRY_MAX_MS"

text \<open>The doubling never wraps, so the ladder is the one over the integers.\<close>

lemma failed_delay:
  assumes "delay_ms r \<le> NET_RETRY_MAX_MS"
  shows "unat (delay_ms (net_retry_failed r t)) = min (2 * unat (delay_ms r)) 60000"
proof -
  have d: "unat (delay_ms r) \<le> 60000" using assms by (simp add: word_le_nat_alt)
  then have dbl: "unat (delay_ms r * 2) = 2 * unat (delay_ms r)"
    by (subst unat_mult_lem [THEN iffD1]) auto
  show ?thesis
    using d by (simp add: net_retry_failed_def Let_def word_less_nat_alt dbl)
qed

lemma failed_backoff_ok: "backoff_ok r \<Longrightarrow> backoff_ok (net_retry_failed r t)"
  using failed_delay [of r t] by (simp add: backoff_ok_def word_le_nat_alt)

lemma failed_keeps [simp]:
  "connected (net_retry_failed r t) = False"
  "next_try_ms (net_retry_failed r t) = t + delay_ms r"
  by (simp_all add: net_retry_failed_def Let_def)

lemma backoff_ok_fresh [simp]:
  "backoff_ok (net_retry_init t)" "backoff_ok (net_retry_connected r)"
  "backoff_ok (net_retry_disconnected r t)"
  by (simp_all add: backoff_ok_def net_retry_init_def net_retry_connected_def net_retry_disconnected_def)

interpretation nr: retry_timer net_retry_due "\<lambda>r (_ :: unit). net_retry_failed r"
  "\<lambda>r _. delay_ms r" backoff_ok 1000
  by unfold_locales
    (auto simp: net_retry_due_def failed_backoff_ok, auto simp: backoff_ok_def word_le_nat_alt)

lemma failed_ladder:
  assumes "delay_ms r \<le> NET_RETRY_MAX_MS"
  shows "unat (delay_ms (foldl net_retry_failed r ts)) = min (2 ^ length ts * unat (delay_ms r)) 60000"
proof (induction ts rule: rev_induct)
  case Nil
  show ?case using assms by (simp add: word_le_nat_alt)
next
  case (snoc t ts)
  then have "unat (delay_ms (foldl net_retry_failed r ts)) \<le> 60000" by simp
  then have "delay_ms (foldl net_retry_failed r ts) \<le> NET_RETRY_MAX_MS" by (simp add: word_le_nat_alt)
  moreover have "min (2 * min x 60000) 60000 = min (2 * x) 60000" for x :: nat by simp
  ultimately show ?case using failed_delay [of "foldl net_retry_failed r ts" t]
    by (simp add: snoc.IH mult.assoc)
qed


section \<open>Properties\<close>

text \<open>The ladder of the Wi-Fi retries.  When the link is lost and \<open>n\<close> attempts then fail,
  at whatever times, the last one a real time \<open>t\<close>, the next attempt is due exactly one interval
  later and not before, across the wrap-around of the counter; the interval is a second doubled
  with each failure, up to a minute, and it never overflows.\<close>

theorem link_backoff_ladder:
  assumes "d < 2 ^ 31"
  shows "net_retry_due (foldl net_retry_failed (net_retry_disconnected r t0) (ts @ [of_nat t])) (of_nat (t + d))
    \<longleftrightarrow> min (2 ^ length ts * 1000) 60000 \<le> d"
proof -
  let ?r = "foldl net_retry_failed (net_retry_disconnected r t0) ts"
  have w: "unat (delay_ms ?r) = min (2 ^ length ts * 1000) 60000"
    by (subst failed_ladder) (simp_all add: net_retry_disconnected_def)
  have ok: "backoff_ok ?r"
    by (induction ts rule: rev_induct) (simp_all add: failed_backoff_ok)
  show ?thesis using nr.due_iff_waited [OF ok, of d t] assms w by simp
qed

theorem link_backoff_ladder_witness:
  "net_retry_due (foldl net_retry_failed (net_retry_disconnected (net_retry_init 0) 0)
     ([5, 4000000000] @ [of_nat 4294967000])) (of_nat (4294967000 + 4000))"
  by (subst link_backoff_ladder) simp_all

end
