(* ===== verification/Net_Link.thy ===== *)
theory Net_Link
  imports Net_Retry Wire_Text Esp_Err Prov_Logic
begin

text \<open>
  \<^verbatim>\<open>components/net_link/net_link.c\<close> and \<^verbatim>\<open>prov_nvs.c\<close>: the one owner of the
  radio, and the credentials of the station.  The Wi-Fi driver and the string store of NVS
  are parameters, given by their functions on a state of their own; the handlers of the
  driver's events are operations of their own, at the times the driver calls them.  Logging
  is left out.
\<close>

section \<open>The outside\<close>

datatype wifi_mode = WIFI_MODE_STA | WIFI_MODE_AP | WIFI_MODE_APSTA

datatype wifi_auth_mode =
    WIFI_AUTH_OPEN
  | WIFI_AUTH_WEP
  | WIFI_AUTH_WPA_PSK
  | WIFI_AUTH_WPA2_PSK
  | WIFI_AUTH_WPA_WPA2_PSK
  | WIFI_AUTH_WPA3_PSK
  | WIFI_AUTH_WPA2_WPA3_PSK
  | WIFI_AUTH_OTHER int

text \<open>The structures of \<^verbatim>\<open>esp_wifi_types.h\<close>, as far as the code fills them in or reads them.\<close>

record sta_config =
  sta_ssid :: string
  sta_password :: string
  sta_threshold :: wifi_auth_mode

record ap_config =
  ap_ssid :: string
  ap_ssid_len :: u8
  ap_channel :: nat
  ap_max_connection :: nat
  ap_authmode :: wifi_auth_mode
  ap_password :: string

record ap_record =
  rec_ssid :: string
  rec_authmode :: wifi_auth_mode
  rec_rssi :: int

abbreviation STA_SSID_SIZE :: nat where "STA_SSID_SIZE \<equiv> 32"
abbreviation STA_PASSWORD_SIZE :: nat where "STA_PASSWORD_SIZE \<equiv> 64"

record 'w wifi_ops =
  wifi_netifs :: "'w \<Rightarrow> 'w \<times> bool"
  wifi_init :: "'w \<Rightarrow> 'w \<times> esp_err"
  wifi_set_mode :: "'w \<Rightarrow> wifi_mode \<Rightarrow> 'w \<times> esp_err"
  wifi_start :: "'w \<Rightarrow> 'w \<times> esp_err"
  wifi_stop :: "'w \<Rightarrow> 'w \<times> esp_err"
  wifi_set_sta :: "'w \<Rightarrow> sta_config \<Rightarrow> 'w \<times> esp_err"
  wifi_set_ap :: "'w \<Rightarrow> ap_config \<Rightarrow> 'w \<times> esp_err"
  wifi_connect :: "'w \<Rightarrow> 'w \<times> esp_err"
  wifi_disconnect :: "'w \<Rightarrow> 'w"
  wifi_scan_start :: "'w \<Rightarrow> 'w \<times> esp_err"
  wifi_get_records :: "'w \<Rightarrow> nat \<Rightarrow> 'w \<times> (esp_err + ap_record list)"
  softap_mac :: "'w \<Rightarrow> u8 list"

text \<open>Strings in a namespace of NVS: \<open>str_get\<close> yields the value under a key when it fits
  a buffer of the given size with its terminator.\<close>

record 's str_ops =
  str_open :: "'s \<Rightarrow> string \<Rightarrow> esp_err"
  str_set :: "'s \<Rightarrow> string \<Rightarrow> string \<Rightarrow> string \<Rightarrow> 's \<times> esp_err"
  str_commit :: "'s \<Rightarrow> 's \<times> esp_err"
  str_get :: "'s \<Rightarrow> string \<Rightarrow> string \<Rightarrow> nat \<Rightarrow> string option"
  str_erase_all :: "'s \<Rightarrow> string \<Rightarrow> 's"


section \<open>Stored credentials\<close>

abbreviation PROV_NVS_SSID_MAX :: nat where "PROV_NVS_SSID_MAX \<equiv> 32"
abbreviation PROV_NVS_PSK_MAX :: nat where "PROV_NVS_PSK_MAX \<equiv> 64"

abbreviation CREDS_NS :: string where "CREDS_NS \<equiv> ''gate_wifi''"
abbreviation KEY_SSID :: string where "KEY_SSID \<equiv> ''ssid''"
abbreviation KEY_PSK :: string where "KEY_PSK \<equiv> ''psk''"

record prov_creds =
  ssid :: string
  psk :: string

text \<open>A string of the store in a zeroed buffer.\<close>

definition in_buffer :: "nat \<Rightarrow> string \<Rightarrow> string" where
  "in_buffer n v = v @ replicate (n - length v) NUL"

text \<open>What \<open>snprintf(buf, n, "%s", s)\<close> leaves in a zeroed buffer.\<close>

definition printed :: "nat \<Rightarrow> string \<Rightarrow> string" where
  "printed n s = strncpy_bytes (n - 1) s @ [NUL]"

definition prov_nvs_save :: "'s str_ops \<Rightarrow> 's \<Rightarrow> prov_creds option \<Rightarrow> 's \<times> esp_err" where
  "prov_nvs_save N st c =
     (case c of
        None \<Rightarrow> (st, ESP_ERR_INVALID_ARG)
      | Some c \<Rightarrow>
          (let err = str_open N st CREDS_NS
           in if err \<noteq> ESP_OK then (st, err)
              else
                (let (st, err) = str_set N st CREDS_NS KEY_SSID (cstr (ssid c));
                     (st, err) = (if err = ESP_OK then str_set N st CREDS_NS KEY_PSK (cstr (psk c)) else (st, err))
                 in if err = ESP_OK then str_commit N st else (st, err))))"

text \<open>The buffers of the structure and the result.\<close>

definition prov_nvs_load :: "'s str_ops \<Rightarrow> 's \<Rightarrow> prov_creds \<times> bool" where
  "prov_nvs_load N st =
     (let zero = \<lparr>ssid = replicate (PROV_NVS_SSID_MAX + 1) NUL, psk = replicate (PROV_NVS_PSK_MAX + 1) NUL\<rparr>
      in if str_open N st CREDS_NS \<noteq> ESP_OK then (zero, False)
         else
           (case str_get N st CREDS_NS KEY_SSID (PROV_NVS_SSID_MAX + 1) of
              None \<Rightarrow> (zero, False)
            | Some s \<Rightarrow>
                (let out = zero\<lparr>ssid := in_buffer (PROV_NVS_SSID_MAX + 1) s\<rparr>;
                     out = (case str_get N st CREDS_NS KEY_PSK (PROV_NVS_PSK_MAX + 1) of
                              None \<Rightarrow> out\<lparr>psk := (psk out)[0 := NUL]\<rparr>
                            | Some p \<Rightarrow> out\<lparr>psk := in_buffer (PROV_NVS_PSK_MAX + 1) p\<rparr>)
                 in (out, ssid out ! 0 \<noteq> NUL))))"

definition prov_nvs_clear :: "'s str_ops \<Rightarrow> 's \<Rightarrow> 's \<times> esp_err" where
  "prov_nvs_clear N st =
     (let err = str_open N st CREDS_NS
      in if err \<noteq> ESP_OK then (st, err) else str_commit N (str_erase_all N st CREDS_NS))"


section \<open>The link\<close>

abbreviation AP_CHANNEL :: nat where "AP_CHANNEL \<equiv> 1"
abbreviation AP_MAX_CLIENTS :: nat where "AP_MAX_CLIENTS \<equiv> 1"

record 'w net_link =
  wifi :: 'w
  wifi_inited :: bool
  wifi_started :: bool
  want_sta :: bool
  want_join :: bool
  want_ap :: bool
  sta_connected :: bool
  time_synced :: bool
  on_time_set :: bool
  link_ip :: string
  link_retry :: net_retry
  bit_got_ip :: bool
  bit_sta_fail :: bool

definition apply_mode :: "'w wifi_ops \<Rightarrow> 'w net_link \<Rightarrow> 'w net_link \<times> esp_err" where
  "apply_mode W s =
     (if want_ap s \<and> want_sta s
      then (case wifi_set_mode W (wifi s) WIFI_MODE_APSTA of (w, err) \<Rightarrow> (s\<lparr>wifi := w\<rparr>, err))
      else if want_ap s
      then (case wifi_set_mode W (wifi s) WIFI_MODE_AP of (w, err) \<Rightarrow> (s\<lparr>wifi := w\<rparr>, err))
      else if want_sta s
      then (case wifi_set_mode W (wifi s) WIFI_MODE_STA of (w, err) \<Rightarrow> (s\<lparr>wifi := w\<rparr>, err))
      else (case wifi_stop W (wifi s) of
              (w, err) \<Rightarrow> (s\<lparr>wifi := w, wifi_started := (if err = ESP_OK then False else wifi_started s)\<rparr>, err)))"

definition ensure_started :: "'w wifi_ops \<Rightarrow> 'w net_link \<Rightarrow> 'w net_link \<times> esp_err" where
  "ensure_started W s =
     (if wifi_started s then (s, ESP_OK)
      else (case wifi_start W (wifi s) of
              (w, err) \<Rightarrow> if err \<noteq> ESP_OK then (s\<lparr>wifi := w\<rparr>, err)
                          else (s\<lparr>wifi := w, wifi_started := True\<rparr>, ESP_OK)))"

text \<open>\<open>esp_wifi_connect\<close> where its result is not looked at.\<close>

definition connect :: "'w wifi_ops \<Rightarrow> 'w net_link \<Rightarrow> 'w net_link" where
  "connect W s = s\<lparr>wifi := fst (wifi_connect W (wifi s))\<rparr>"

definition disconnect :: "'w wifi_ops \<Rightarrow> 'w net_link \<Rightarrow> 'w net_link" where
  "disconnect W s = s\<lparr>wifi := wifi_disconnect W (wifi s)\<rparr>"

text \<open>The driver's events, with the clock or the data the handler reads.  The two events of
  the provisioning AP only log.\<close>

datatype net_event =
    Sta_start
  | Sta_disconnected u32
  | Ap_client
  | Got_ip string "(bool \<times> i64 option)"

definition on_wifi_start :: "'w wifi_ops \<Rightarrow> 'w net_link \<Rightarrow> 'w net_link" where
  "on_wifi_start W s = (if want_join s then connect W s else s)"

definition on_wifi_disconnected :: "u32 \<Rightarrow> 'w net_link \<Rightarrow> 'w net_link" where
  "on_wifi_disconnected now s =
     (let was_connected = sta_connected s;
          s = s\<lparr>sta_connected := False, link_ip := ''-'', bit_sta_fail := True\<rparr>
      in if \<not> want_join s then s
         else if was_connected then s\<lparr>link_retry := net_retry_disconnected (link_retry s) now\<rparr>
         else s\<lparr>link_retry := net_retry_failed (link_retry s) now\<rparr>)"

text \<open>What SNTP brings: whether it could be started, and the time it got, if any.  The
  second result is the time handed to the callback.\<close>

definition start_sntp :: "bool \<times> i64 option \<Rightarrow> 'w net_link \<Rightarrow> 'w net_link \<times> i64 option" where
  "start_sntp sntp s =
     (if time_synced s then (s, None)
      else if \<not> fst sntp then (s, None)
      else (case snd sntp of
              None \<Rightarrow> (s, None)
            | Some now \<Rightarrow> (s\<lparr>time_synced := True\<rparr>, if on_time_set s then Some now else None)))"

definition on_ip :: "string \<Rightarrow> bool \<times> i64 option \<Rightarrow> 'w net_link \<Rightarrow> 'w net_link \<times> i64 option" where
  "on_ip addr sntp s =
     start_sntp sntp (s\<lparr>link_ip := addr, sta_connected := True,
       link_retry := net_retry_connected (link_retry s), bit_got_ip := True\<rparr>)"

fun handle_event :: "'w wifi_ops \<Rightarrow> net_event \<Rightarrow> 'w net_link \<Rightarrow> 'w net_link" where
  "handle_event W Sta_start s = on_wifi_start W s"
| "handle_event W (Sta_disconnected now) s = on_wifi_disconnected now s"
| "handle_event W Ap_client s = s"
| "handle_event W (Got_ip addr sntp) s = fst (on_ip addr sntp s)"

text \<open>What the platform answers at initialisation: the event group, NVS before and after an
  erasure, and the event loop.  \<open>None\<close> is an abort of \<open>ESP_ERROR_CHECK\<close>.\<close>

record boot_env =
  events_made :: bool
  nvs_first :: esp_err
  nvs_erase :: esp_err
  nvs_second :: esp_err
  netif_init :: esp_err
  event_loop :: esp_err

definition net_link_init :: "boot_env \<Rightarrow> bool \<Rightarrow> 'w net_link \<Rightarrow> ('w net_link \<times> esp_err) option" where
  "net_link_init e on_time s =
     (let s = s\<lparr>on_time_set := on_time\<rparr>
      in if \<not> events_made e then Some (s, ESP_ERR_NO_MEM)
         else
           (let s = s\<lparr>bit_got_ip := False, bit_sta_fail := False, link_retry := net_retry_init 0\<rparr>;
                erase = (nvs_first e = ESP_ERR_NVS_NO_FREE_PAGES \<or> nvs_first e = ESP_ERR_NVS_NEW_VERSION_FOUND);
                nvs = (if erase then nvs_second e else nvs_first e)
            in if erase \<and> nvs_erase e \<noteq> ESP_OK then None
               else if nvs \<noteq> ESP_OK then Some (s, nvs)
               else if netif_init e \<noteq> ESP_OK then None
               else if event_loop e \<noteq> ESP_OK \<and> event_loop e \<noteq> ESP_ERR_INVALID_STATE then Some (s, event_loop e)
               else Some (s, ESP_OK)))"

text \<open>Registering a handler does not fail here; a failure would abort.\<close>

definition ensure_wifi :: "'w wifi_ops \<Rightarrow> 'w net_link \<Rightarrow> 'w net_link \<times> esp_err" where
  "ensure_wifi W s =
     (if wifi_inited s then (s, ESP_OK)
      else (case wifi_netifs W (wifi s) of
              (w, made) \<Rightarrow>
                if \<not> made then (s\<lparr>wifi := w\<rparr>, ESP_FAIL)
                else (case wifi_init W w of
                        (w, err) \<Rightarrow> if err \<noteq> ESP_OK then (s\<lparr>wifi := w\<rparr>, err)
                                    else (s\<lparr>wifi := w, wifi_inited := True\<rparr>, ESP_OK))))"

definition sta_config_of :: "string \<Rightarrow> string option \<Rightarrow> sta_config" where
  "sta_config_of name pass =
     (let p = (case pass of None \<Rightarrow> [] | Some p \<Rightarrow> cstr p)
      in \<lparr>sta_ssid = printed STA_SSID_SIZE name, sta_password = printed STA_PASSWORD_SIZE p,
          sta_threshold = (if p \<noteq> [] then WIFI_AUTH_WPA_PSK else WIFI_AUTH_OPEN)\<rparr>)"

definition sta_configure :: "'w wifi_ops \<Rightarrow> string \<Rightarrow> string option \<Rightarrow> 'w net_link \<Rightarrow> 'w net_link \<times> esp_err" where
  "sta_configure W name pass s =
     (case wifi_set_sta W (wifi s) (sta_config_of name pass) of (w, err) \<Rightarrow> (s\<lparr>wifi := w\<rparr>, err))"

definition net_link_sta_start :: "'w wifi_ops \<Rightarrow> 's str_ops \<Rightarrow> 's \<Rightarrow> 'w net_link \<Rightarrow> 'w net_link \<times> esp_err" where
  "net_link_sta_start W N st s =
     (case prov_nvs_load N st of
        (creds, False) \<Rightarrow> (s, ESP_ERR_NOT_FOUND)
      | (creds, True) \<Rightarrow>
          (let (s, err) = ensure_wifi W s
           in if err \<noteq> ESP_OK then (s, err)
              else
                (let was_started = wifi_started s;
                     s = s\<lparr>want_sta := True, want_join := True\<rparr>;
                     (s, err) = apply_mode W s;
                     (s, err) = (if err = ESP_OK then sta_configure W (ssid creds) (Some (psk creds)) s else (s, err));
                     (s, err) = (if err = ESP_OK then ensure_started W s else (s, err));
                     s = (if err = ESP_OK \<and> was_started then connect W s else s)
                 in (s, err))))"

definition net_link_sta_stop :: "'w wifi_ops \<Rightarrow> 'w net_link \<Rightarrow> 'w net_link" where
  "net_link_sta_stop W s =
     (if \<not> want_sta s then s
      else fst (apply_mode W (disconnect W (s\<lparr>want_sta := False, want_join := False, sta_connected := False\<rparr>))))"

definition net_link_tick :: "'w wifi_ops \<Rightarrow> u32 \<Rightarrow> 'w net_link \<Rightarrow> 'w net_link" where
  "net_link_tick W now_ms s =
     (if \<not> want_join s \<or> sta_connected s then s
      else if net_retry_due (link_retry s) now_ms
      then connect W (s\<lparr>link_retry := net_retry_failed (link_retry s) now_ms\<rparr>)
      else s)"

definition net_link_sta_connected :: "'w net_link \<Rightarrow> bool" where
  "net_link_sta_connected s = sta_connected s"

definition net_link_sta_ip :: "'w net_link \<Rightarrow> string" where
  "net_link_sta_ip s = link_ip s"

text \<open>\<open>%02X\<close>\<close>

definition upper_hex_byte :: "u8 \<Rightarrow> string" where
  "upper_hex_byte b = [upper_hex (unat b div 16), upper_hex (unat b mod 16)]"

definition ap_config_of :: "u8 list \<Rightarrow> string \<Rightarrow> ap_config" where
  "ap_config_of mac password =
     (let name = ''PORTAO-'' @ upper_hex_byte (mac ! 3) @ upper_hex_byte (mac ! 4) @ upper_hex_byte (mac ! 5)
      in \<lparr>ap_ssid = printed 32 name, ap_ssid_len = of_nat (length name), ap_channel = AP_CHANNEL,
          ap_max_connection = AP_MAX_CLIENTS, ap_authmode = WIFI_AUTH_WPA2_PSK, ap_password = printed 64 password\<rparr>)"

text \<open>The result carries the name written to \<open>out_ssid\<close>, of a size the caller gives.\<close>

definition net_link_ap_up ::
  "'w wifi_ops \<Rightarrow> string option \<Rightarrow> nat \<Rightarrow> 'w net_link \<Rightarrow> 'w net_link \<times> (esp_err + string)" where
  "net_link_ap_up W password out_len s =
     (case password of
        None \<Rightarrow> (s, Inl ESP_ERR_INVALID_ARG)
      | Some pw \<Rightarrow>
          if length (cstr pw) < 8 \<or> length (cstr pw) > 63 then (s, Inl ESP_ERR_INVALID_ARG)
          else
            (let (s, err) = ensure_wifi W s
             in if err \<noteq> ESP_OK then (s, Inl err)
                else
                  (let cfg = ap_config_of (softap_mac W (wifi s)) pw;
                       (s, err) = apply_mode W (s\<lparr>want_ap := True\<rparr>);
                       (s, err) = (if err = ESP_OK
                                   then (case wifi_set_ap W (wifi s) cfg of (w, err) \<Rightarrow> (s\<lparr>wifi := w\<rparr>, err))
                                   else (s, err));
                       (s, err) = (if err = ESP_OK then ensure_started W s else (s, err))
                   in if err \<noteq> ESP_OK then (fst (apply_mode W (s\<lparr>want_ap := False\<rparr>)), Inl err)
                      else (s, Inr (if out_len > 0 then printed out_len (ap_ssid cfg) else [])))))"

definition net_link_ap_down :: "'w wifi_ops \<Rightarrow> 'w net_link \<Rightarrow> 'w net_link" where
  "net_link_ap_down W s = (if \<not> want_ap s then s else fst (apply_mode W (s\<lparr>want_ap := False\<rparr>)))"

definition net_link_scan ::
  "'w wifi_ops \<Rightarrow> nat \<Rightarrow> 'w net_link \<Rightarrow> 'w net_link \<times> (esp_err + ap_record list)" where
  "net_link_scan W count s =
     (if count = 0 then (s, Inl ESP_ERR_INVALID_ARG)
      else
        (let (s, err) = ensure_wifi W s
         in if err \<noteq> ESP_OK then (s, Inl err)
            else
              (let added_sta = (\<not> want_sta s);
                   s = (if added_sta then fst (ensure_started W (fst (apply_mode W (s\<lparr>want_sta := True\<rparr>)))) else s);
                   (w, err) = wifi_scan_start W (wifi s);
                   s = s\<lparr>wifi := w\<rparr>;
                   (s, r) = (if err = ESP_OK
                             then (case wifi_get_records W (wifi s) count of (w, r) \<Rightarrow> (s\<lparr>wifi := w\<rparr>, r))
                             else (s, Inl err));
                   s = (if added_sta then fst (apply_mode W (s\<lparr>want_sta := False\<rparr>)) else s)
               in (s, r))))"

text \<open>Waiting for either bit: the driver's events of the time limit, in order.  Bits that are
  set are cleared when the wait ends.\<close>

fun wait_bits :: "'w wifi_ops \<Rightarrow> net_event list \<Rightarrow> 'w net_link \<Rightarrow> 'w net_link \<times> bool" where
  "wait_bits W es s =
     (if bit_got_ip s \<or> bit_sta_fail s then (s\<lparr>bit_got_ip := False, bit_sta_fail := False\<rparr>, bit_got_ip s)
      else (case es of [] \<Rightarrow> (s, False) | e # es \<Rightarrow> wait_bits W es (handle_event W e s)))"

declare wait_bits.simps [simp del]

definition net_link_try_credentials ::
  "'w wifi_ops \<Rightarrow> 's str_ops \<Rightarrow> 's \<Rightarrow> net_event list \<Rightarrow> string option \<Rightarrow> string option \<Rightarrow>
   'w net_link \<Rightarrow> 'w net_link \<times> esp_err" where
  "net_link_try_credentials W N st es name pass s =
     (case name of
        None \<Rightarrow> (s, ESP_ERR_INVALID_ARG)
      | Some name \<Rightarrow>
          if cstr name = [] then (s, ESP_ERR_INVALID_ARG)
          else
            (let (s, err) = ensure_wifi W s
             in if err \<noteq> ESP_OK then (s, err)
                else
                  (let had_sta = want_sta s;
                       had_join = want_join s;
                       (previous, had_previous) = prov_nvs_load N st;
                       s = s\<lparr>want_sta := True, want_join := True\<rparr>;
                       s = fst (apply_mode W s);
                       s = fst (ensure_started W s);
                       s = disconnect W s;
                       s = s\<lparr>bit_got_ip := False, bit_sta_fail := False\<rparr>;
                       (s, err) = sta_configure W name pass s;
                       (s, err) = (if err = ESP_OK
                                   then (case wifi_connect W (wifi s) of (w, err) \<Rightarrow> (s\<lparr>wifi := w\<rparr>, err))
                                   else (s, err));
                       (s, ok) = (if err = ESP_OK then wait_bits W es s else (s, False));
                       s = disconnect W s;
                       s = (if had_previous then fst (sta_configure W (ssid previous) (Some (psk previous)) s) else s);
                       s = s\<lparr>want_sta := had_sta, want_join := had_join\<rparr>;
                       s = fst (apply_mode W s);
                       s = (if had_join then connect W s else s)
                   in (s, if ok then ESP_OK else ESP_FAIL))))"


section \<open>The radio\<close>

text \<open>What the driver is documented to do when its calls succeed: the mode, whether it runs and
  the configurations are those last set, and nothing else changes them.\<close>

record radio =
  r_mode :: wifi_mode
  r_on :: bool
  r_sta :: sta_config
  r_ap :: ap_config

definition wifi_reliable :: "'w wifi_ops \<Rightarrow> ('w \<Rightarrow> radio) \<Rightarrow> bool" where
  "wifi_reliable W view \<longleftrightarrow>
     (\<forall>w m. snd (wifi_set_mode W w m) = ESP_OK \<and> view (fst (wifi_set_mode W w m)) = (view w)\<lparr>r_mode := m\<rparr>) \<and>
     (\<forall>w. snd (wifi_start W w) = ESP_OK \<and> view (fst (wifi_start W w)) = (view w)\<lparr>r_on := True\<rparr>) \<and>
     (\<forall>w. snd (wifi_stop W w) = ESP_OK \<and> view (fst (wifi_stop W w)) = (view w)\<lparr>r_on := False\<rparr>) \<and>
     (\<forall>w c. snd (wifi_set_sta W w c) = ESP_OK \<and> view (fst (wifi_set_sta W w c)) = (view w)\<lparr>r_sta := c\<rparr>) \<and>
     (\<forall>w c. snd (wifi_set_ap W w c) = ESP_OK \<and> view (fst (wifi_set_ap W w c)) = (view w)\<lparr>r_ap := c\<rparr>) \<and>
     (\<forall>w. view (fst (wifi_netifs W w)) = view w \<and> view (fst (wifi_init W w)) = view w \<and>
        view (fst (wifi_connect W w)) = view w \<and> view (wifi_disconnect W w) = view w \<and>
        view (fst (wifi_scan_start W w)) = view w \<and> (\<forall>n. view (fst (wifi_get_records W w n)) = view w))"

definition wanted_mode :: "'w net_link \<Rightarrow> wifi_mode" where
  "wanted_mode s = (if want_ap s \<and> want_sta s then WIFI_MODE_APSTA else if want_ap s then WIFI_MODE_AP else WIFI_MODE_STA)"

text \<open>Between two operations the radio is what is wanted of it.\<close>

definition radio_inv :: "('w \<Rightarrow> radio) \<Rightarrow> 'w net_link \<Rightarrow> bool" where
  "radio_inv view s \<longleftrightarrow> r_on (view (wifi s)) = wifi_started s \<and> wifi_started s = (want_ap s \<or> want_sta s) \<and>
     (want_ap s \<or> want_sta s \<longrightarrow> r_mode (view (wifi s)) = wanted_mode s)"


lemma wifi_rel:
  assumes "wifi_reliable W view"
  shows "snd (wifi_set_mode W w m) = ESP_OK" "view (fst (wifi_set_mode W w m)) = (view w)\<lparr>r_mode := m\<rparr>"
    "snd (wifi_start W w) = ESP_OK" "view (fst (wifi_start W w)) = (view w)\<lparr>r_on := True\<rparr>"
    "snd (wifi_stop W w) = ESP_OK" "view (fst (wifi_stop W w)) = (view w)\<lparr>r_on := False\<rparr>"
    "snd (wifi_set_sta W w c) = ESP_OK" "view (fst (wifi_set_sta W w c)) = (view w)\<lparr>r_sta := c\<rparr>"
    "snd (wifi_set_ap W w d) = ESP_OK" "view (fst (wifi_set_ap W w d)) = (view w)\<lparr>r_ap := d\<rparr>"
    "view (fst (wifi_netifs W w)) = view w" "view (fst (wifi_init W w)) = view w"
    "view (fst (wifi_connect W w)) = view w" "view (wifi_disconnect W w) = view w"
    "view (fst (wifi_scan_start W w)) = view w" "view (fst (wifi_get_records W w n)) = view w"
  using assms by (simp_all add: wifi_reliable_def)

text \<open>The helpers do not touch what is wanted.\<close>

lemma wants_kept [simp]:
  "want_sta (fst (apply_mode W s)) = want_sta s" "want_join (fst (apply_mode W s)) = want_join s"
  "want_ap (fst (apply_mode W s)) = want_ap s"
  "want_sta (fst (ensure_started W s)) = want_sta s" "want_join (fst (ensure_started W s)) = want_join s"
  "want_ap (fst (ensure_started W s)) = want_ap s"
  "want_sta (fst (ensure_wifi W s)) = want_sta s" "want_join (fst (ensure_wifi W s)) = want_join s"
  "want_ap (fst (ensure_wifi W s)) = want_ap s" "wifi_started (fst (ensure_wifi W s)) = wifi_started s"
  "want_sta (connect W s) = want_sta s" "want_join (connect W s) = want_join s"
  "want_ap (connect W s) = want_ap s" "wifi_started (connect W s) = wifi_started s"
  "want_sta (disconnect W s) = want_sta s" "want_join (disconnect W s) = want_join s"
  "want_ap (disconnect W s) = want_ap s" "wifi_started (disconnect W s) = wifi_started s"
  "want_sta (fst (sta_configure W n p s)) = want_sta s" "want_join (fst (sta_configure W n p s)) = want_join s"
  "want_ap (fst (sta_configure W n p s)) = want_ap s" "wifi_started (fst (sta_configure W n p s)) = wifi_started s"
  by (simp_all add: apply_mode_def ensure_started_def ensure_wifi_def connect_def disconnect_def sta_configure_def split_def)

lemma radio_after:
  assumes "wifi_reliable W view"
  shows "snd (apply_mode W s) = ESP_OK"
    "wifi_started (fst (apply_mode W s)) = (wifi_started s \<and> (want_ap s \<or> want_sta s))"
    "view (wifi (fst (apply_mode W s))) = (if want_ap s \<or> want_sta s
       then (view (wifi s))\<lparr>r_mode := wanted_mode s\<rparr> else (view (wifi s))\<lparr>r_on := False\<rparr>)"
    "snd (ensure_started W s) = ESP_OK" "wifi_started (fst (ensure_started W s))"
    "view (wifi (fst (ensure_started W s))) = (if wifi_started s then view (wifi s) else (view (wifi s))\<lparr>r_on := True\<rparr>)"
    "view (wifi (fst (ensure_wifi W s))) = view (wifi s)"
    "view (wifi (connect W s)) = view (wifi s)" "view (wifi (disconnect W s)) = view (wifi s)"
    "snd (sta_configure W n p s) = ESP_OK"
    "view (wifi (fst (sta_configure W n p s))) = (view (wifi s))\<lparr>r_sta := sta_config_of n p\<rparr>"
  by (simp_all add: apply_mode_def ensure_started_def ensure_wifi_def connect_def disconnect_def sta_configure_def
      wanted_mode_def split_def wifi_rel [OF assms])

text \<open>Events change neither what is wanted nor the radio.\<close>

lemma event_keeps:
  assumes "wifi_reliable W view"
  shows "want_sta (handle_event W e s) = want_sta s" "want_join (handle_event W e s) = want_join s"
    "want_ap (handle_event W e s) = want_ap s" "wifi_started (handle_event W e s) = wifi_started s"
    "view (wifi (handle_event W e s)) = view (wifi s)"
  by (cases e; auto simp: on_wifi_start_def on_wifi_disconnected_def on_ip_def start_sntp_def Let_def
      radio_after [OF assms] split: option.split)+

lemma wait_keeps:
  assumes "wifi_reliable W view"
  shows "want_sta (fst (wait_bits W es s)) = want_sta s \<and> want_join (fst (wait_bits W es s)) = want_join s \<and>
    want_ap (fst (wait_bits W es s)) = want_ap s \<and> wifi_started (fst (wait_bits W es s)) = wifi_started s \<and>
    view (wifi (fst (wait_bits W es s))) = view (wifi s)"
proof (induction es arbitrary: s)
  case (Cons e es)
  then show ?case by (simp add: wait_bits.simps [of W "e # es" s] event_keeps [OF assms])
qed (simp add: wait_bits.simps)

lemmas link_ops = net_link_sta_start_def net_link_sta_stop_def net_link_tick_def net_link_ap_up_def
  net_link_ap_down_def net_link_scan_def


section \<open>Runs\<close>

datatype 's net_op =
    Sta_start_op 's
  | Sta_stop_op
  | Tick_op u32
  | Ap_up_op "string option" nat
  | Ap_down_op
  | Scan_op nat
  | Try_op 's "net_event list" "string option" "string option"
  | Event_op net_event

fun net_step :: "'w wifi_ops \<Rightarrow> 's str_ops \<Rightarrow> 'w net_link \<Rightarrow> 's net_op \<Rightarrow> 'w net_link" where
  "net_step W N s (Sta_start_op st) = fst (net_link_sta_start W N st s)"
| "net_step W N s Sta_stop_op = net_link_sta_stop W s"
| "net_step W N s (Tick_op now) = net_link_tick W now s"
| "net_step W N s (Ap_up_op pw n) = fst (net_link_ap_up W pw n s)"
| "net_step W N s Ap_down_op = net_link_ap_down W s"
| "net_step W N s (Scan_op n) = fst (net_link_scan W n s)"
| "net_step W N s (Try_op st es name pass) = fst (net_link_try_credentials W N st es name pass s)"
| "net_step W N s (Event_op e) = handle_event W e s"

lemma sta_start_radio:
  assumes "wifi_reliable W view" "radio_inv view s"
  shows "radio_inv view (fst (net_link_sta_start W N st s))"
    "want_ap (fst (net_link_sta_start W N st s)) = want_ap s"
  using assms(2)
  by (auto simp: net_link_sta_start_def split_def Let_def radio_inv_def wanted_mode_def radio_after [OF assms(1)]
      split: bool.split)

lemma sta_stop_radio:
  assumes "wifi_reliable W view" "radio_inv view s"
  shows "radio_inv view (net_link_sta_stop W s)" "want_ap (net_link_sta_stop W s) = want_ap s"
  using assms(2) by (auto simp: net_link_sta_stop_def radio_inv_def wanted_mode_def radio_after [OF assms(1)])

lemma tick_radio:
  assumes "wifi_reliable W view" "radio_inv view s"
  shows "radio_inv view (net_link_tick W now s)" "want_ap (net_link_tick W now s) = want_ap s"
  using assms(2) by (auto simp: net_link_tick_def radio_inv_def wanted_mode_def radio_after [OF assms(1)])

lemma ap_up_radio:
  assumes "wifi_reliable W view" "radio_inv view s"
  shows "radio_inv view (fst (net_link_ap_up W pw n s))"
  using assms(2)
  by (auto simp: net_link_ap_up_def split_def Let_def radio_inv_def wanted_mode_def radio_after [OF assms(1)]
      wifi_rel [OF assms(1)] split: option.split)

lemma ap_down_radio:
  assumes "wifi_reliable W view" "radio_inv view s"
  shows "radio_inv view (net_link_ap_down W s)"
  using assms(2) by (auto simp: net_link_ap_down_def radio_inv_def wanted_mode_def radio_after [OF assms(1)])

lemma scan_radio:
  assumes "wifi_reliable W view" "radio_inv view s"
  shows "radio_inv view (fst (net_link_scan W n s))" "want_ap (fst (net_link_scan W n s)) = want_ap s"
  using assms(2)
  by (auto simp: net_link_scan_def split_def Let_def radio_inv_def wanted_mode_def radio_after [OF assms(1)]
      wifi_rel [OF assms(1)])


lemma try_radio:
  assumes "wifi_reliable W view" "radio_inv view s"
  shows "radio_inv view (fst (net_link_try_credentials W N st es name pass s))"
    "want_sta (fst (net_link_try_credentials W N st es name pass s)) = want_sta s"
    "want_join (fst (net_link_try_credentials W N st es name pass s)) = want_join s"
    "want_ap (fst (net_link_try_credentials W N st es name pass s)) = want_ap s"
  using assms(2)
  by (auto simp: net_link_try_credentials_def split_def Let_def radio_inv_def wanted_mode_def
      radio_after [OF assms(1)] wifi_rel [OF assms(1)] wait_keeps [OF assms(1)] split: option.split)

lemma event_radio:
  assumes "wifi_reliable W view" "radio_inv view s"
  shows "radio_inv view (handle_event W e s)"
  using assms(2) by (simp add: radio_inv_def wanted_mode_def event_keeps [OF assms(1)])

lemma net_step_radio:
  assumes "wifi_reliable W view" "radio_inv view s"
  shows "radio_inv view (net_step W N s op)"
  using assms
  by (cases op) (simp_all add: sta_start_radio sta_stop_radio tick_radio ap_up_radio ap_down_radio scan_radio
      try_radio event_radio)

lemma net_step_keeps_ap:
  assumes "wifi_reliable W view" "radio_inv view s" "op \<noteq> Ap_down_op" "want_ap s"
  shows "want_ap (net_step W N s op)"
proof (cases op)
  case (Ap_up_op pw n)
  then show ?thesis using assms(4)
    by (auto simp: net_link_ap_up_def split_def Let_def radio_after [OF assms(1)] wifi_rel [OF assms(1)]
        split: option.split)
qed (use assms in \<open>simp_all add: sta_start_radio sta_stop_radio tick_radio scan_radio try_radio event_keeps\<close>)

text \<open>The link is a machine in the sense of the prelude, for every driver that obeys.\<close>

lemma radio_machine:
  assumes "wifi_reliable W view"
  shows "machine (net_step W N) (\<lambda>s. radio_inv view s \<and> want_ap s) (\<lambda>op. op \<noteq> Ap_down_op)"
  by unfold_locales (auto intro: net_step_radio net_step_keeps_ap assms)


section \<open>Credentials\<close>

definition creds_store_works :: "'s str_ops \<Rightarrow> bool" where
  "creds_store_works N \<longleftrightarrow> (\<forall>st ns. str_open N st ns = ESP_OK) \<and>
     (\<forall>st ns k v. snd (str_set N st ns k v) = ESP_OK \<and>
        (\<forall>ns' k' n. str_get N (fst (str_set N st ns k v)) ns' k' n =
           (if ns' = ns \<and> k' = k then (if length v < n then Some v else None) else str_get N st ns' k' n))) \<and>
     (\<forall>st. snd (str_commit N st) = ESP_OK \<and> (\<forall>ns k n. str_get N (fst (str_commit N st)) ns k n = str_get N st ns k n))"

lemma cstr_in_buffer: "NUL \<notin> set v \<Longrightarrow> cstr (in_buffer n v) = v"
  by (simp add: in_buffer_def cstr_append cstr_id)

lemma cstr_printed [simp]: "cstr (printed n s) = take (n - 1) (cstr s)"
  by (simp add: printed_def)

lemma saved_is_loaded:
  assumes "creds_store_works N" "prov_nvs_save N st (Some c) = (st', err)"
    "cstr (ssid c) \<noteq> []" "length (cstr (ssid c)) \<le> PROV_NVS_SSID_MAX" "length (cstr (psk c)) \<le> PROV_NVS_PSK_MAX"
  shows "err = ESP_OK" "\<exists>d. prov_nvs_load N st' = (d, True) \<and> cstr (ssid d) = cstr (ssid c) \<and> cstr (psk d) = cstr (psk c)"
proof -
  let ?st1 = "fst (str_set N st CREDS_NS KEY_SSID (cstr (ssid c)))"
  let ?st2 = "fst (str_set N ?st1 CREDS_NS KEY_PSK (cstr (psk c)))"
  have sets: "snd (str_set N s ns k v) = ESP_OK" "snd (str_commit N s) = ESP_OK" "str_open N s ns = ESP_OK" for s ns k v
    using assms(1) by (simp_all add: creds_store_works_def)
  have "prov_nvs_save N st (Some c) = (fst (str_commit N ?st2), ESP_OK)"
    by (simp add: prov_nvs_save_def split_def Let_def sets prod_eq_iff)
  then have r: "st' = fst (str_commit N ?st2)" "err = ESP_OK" using assms(2) by simp_all
  show "err = ESP_OK" by (rule r(2))
  have g: "str_get N st' CREDS_NS KEY_SSID (PROV_NVS_SSID_MAX + 1) = Some (cstr (ssid c))"
    "str_get N st' CREDS_NS KEY_PSK (PROV_NVS_PSK_MAX + 1) = Some (cstr (psk c))"
    using assms(1,4,5) by (simp_all add: r creds_store_works_def)
  have "in_buffer (PROV_NVS_SSID_MAX + 1) (cstr (ssid c)) ! 0 \<noteq> NUL"
    using assms(3) cstr_no_NUL [of "ssid c"] by (cases "cstr (ssid c)") (auto simp: in_buffer_def)
  with g show "\<exists>d. prov_nvs_load N st' = (d, True) \<and> cstr (ssid d) = cstr (ssid c) \<and> cstr (psk d) = cstr (psk c)"
    by (simp add: prov_nvs_load_def Let_def sets cstr_in_buffer)
qed

lemma started_config:
  assumes "wifi_reliable W view" "prov_nvs_load N st = (d, True)" "net_link_sta_start W N st s = (s', ESP_OK)"
  shows "r_sta (view (wifi s')) = sta_config_of (ssid d) (Some (psk d))"
  using assms(2,3)
  by (auto simp: net_link_sta_start_def split_def Let_def radio_after [OF assms(1)] split: if_splits)

lemma accepted_lengths:
  assumes "prov_check_ssid (Some n) = PROV_OK" "prov_check_psk (Some p) open_network = PROV_OK"
  shows "cstr n \<noteq> []" "length (cstr n) \<le> PROV_SSID_MAX" "length (cstr p) \<le> 64"
  using assms
  by (auto simp: prov_check_ssid_def prov_check_psk_def is_printable_ascii_def is_hex64_def Let_def split: if_splits)


section \<open>A driver and a store\<close>

text \<open>A driver that is its own view, and a store that is a map.\<close>

definition demo_wifi :: "radio wifi_ops" where
  "demo_wifi = \<lparr>wifi_netifs = (\<lambda>w. (w, True)), wifi_init = (\<lambda>w. (w, ESP_OK)),
     wifi_set_mode = (\<lambda>w m. (w\<lparr>r_mode := m\<rparr>, ESP_OK)), wifi_start = (\<lambda>w. (w\<lparr>r_on := True\<rparr>, ESP_OK)),
     wifi_stop = (\<lambda>w. (w\<lparr>r_on := False\<rparr>, ESP_OK)), wifi_set_sta = (\<lambda>w c. (w\<lparr>r_sta := c\<rparr>, ESP_OK)),
     wifi_set_ap = (\<lambda>w c. (w\<lparr>r_ap := c\<rparr>, ESP_OK)), wifi_connect = (\<lambda>w. (w, ESP_OK)), wifi_disconnect = (\<lambda>w. w),
     wifi_scan_start = (\<lambda>w. (w, ESP_OK)), wifi_get_records = (\<lambda>w n. (w, Inr [])),
     softap_mac = (\<lambda>w. [2, 0, 94, 16, 32, 48])\<rparr>"

definition demo_creds_store :: "(string \<times> string \<Rightarrow> string option) str_ops" where
  "demo_creds_store = \<lparr>str_open = (\<lambda>st ns. ESP_OK), str_set = (\<lambda>st ns k v. (st((ns, k) \<mapsto> v), ESP_OK)),
     str_commit = (\<lambda>st. (st, ESP_OK)),
     str_get = (\<lambda>st ns k n. case st (ns, k) of None \<Rightarrow> None | Some v \<Rightarrow> if length v < n then Some v else None),
     str_erase_all = (\<lambda>st ns. (\<lambda>(ns', k). if ns' = ns then None else st (ns', k)))\<rparr>"

definition demo_radio :: radio where
  "demo_radio = \<lparr>r_mode = WIFI_MODE_STA, r_on = False, r_sta = sta_config_of [] None, r_ap = ap_config_of (replicate 6 0) []\<rparr>"

definition demo_link :: "radio net_link" where
  "demo_link = \<lparr>wifi = demo_radio, wifi_inited = True, wifi_started = False, want_sta = False, want_join = False,
     want_ap = False, sta_connected = False, time_synced = False, on_time_set = True, link_ip = ''-'',
     link_retry = net_retry_init 0, bit_got_ip = False, bit_sta_fail = False\<rparr>"

definition demo_ap_link :: "radio net_link" where
  "demo_ap_link = demo_link\<lparr>want_ap := True, wifi_started := True,
     wifi := demo_radio\<lparr>r_on := True, r_mode := WIFI_MODE_AP\<rparr>\<rparr>"

definition house :: prov_creds where
  "house = \<lparr>ssid = replicate 32 CHR ''n'' @ [NUL], psk = replicate 64 CHR ''a'' @ [NUL]\<rparr>"

lemma demo_wifi_reliable: "wifi_reliable demo_wifi (\<lambda>w. w)"
  by (simp add: wifi_reliable_def demo_wifi_def)

lemma demo_store_works: "creds_store_works demo_creds_store"
  by (simp add: creds_store_works_def demo_creds_store_def)

lemma demo_link_inv: "radio_inv (\<lambda>w. w) demo_link"
  by (simp add: radio_inv_def demo_link_def demo_radio_def)


section \<open>Properties\<close>

text \<open>C34: the portal's access point survives the station.  Whatever the station does meanwhile, joins,
  losses, scans and tests of other credentials included, an access point that was raised keeps the
  radio on, in one of the two modes that beacon, until it is taken down; with a driver whose
  calls succeed.\<close>

theorem portal_ap_survives_station:
  assumes "wifi_reliable W view" "radio_inv view s" "want_ap s" "list_all (\<lambda>op. op \<noteq> Ap_down_op) ops"
  shows "r_on (view (wifi (foldl (net_step W N) s ops))) \<and>
    r_mode (view (wifi (foldl (net_step W N) s ops))) \<in> {WIFI_MODE_AP, WIFI_MODE_APSTA}"
proof -
  from machine.run_inv [OF radio_machine [OF assms(1)], of s ops N] assms(2-4)
  have "radio_inv view (foldl (net_step W N) s ops)" "want_ap (foldl (net_step W N) s ops)" by simp_all
  then show ?thesis by (auto simp: radio_inv_def wanted_mode_def)
qed

theorem portal_ap_survives_station_witness:
  "r_on (wifi (foldl (net_step demo_wifi demo_creds_store) demo_ap_link
     [Sta_start_op Map.empty, Scan_op 12, Try_op Map.empty [Sta_disconnected 7] (Some ''x'') None]))"
proof -
  have "radio_inv (\<lambda>w. w) demo_ap_link" "want_ap demo_ap_link"
    by (simp_all add: radio_inv_def wanted_mode_def demo_ap_link_def demo_link_def)
  then show ?thesis by (rule portal_ap_survives_station [OF demo_wifi_reliable, THEN conjunct1]) simp
qed

text \<open>Testing credentials costs nothing.  Whatever happens during a test, the link wants
  afterwards what it wanted before, the radio is in the mode for that, and when credentials were
  stored the station is configured with them again.\<close>

theorem credential_test_restores:
  assumes "wifi_reliable W view" "radio_inv view s" "prov_nvs_load N st = (d, True)"
    "net_link_try_credentials W N st es (Some name) pass s = (s', err)" "wifi_inited s" "cstr name \<noteq> []"
  shows "want_sta s' = want_sta s \<and> want_join s' = want_join s \<and> want_ap s' = want_ap s \<and> radio_inv view s' \<and>
    r_sta (view (wifi s')) = sta_config_of (ssid d) (Some (psk d))"
proof -
  have s': "s' = fst (net_link_try_credentials W N st es (Some name) pass s)" using assms(4) by simp
  have "r_sta (view (wifi s')) = sta_config_of (ssid d) (Some (psk d))"
    using assms(3,5,6)
    by (simp add: s' net_link_try_credentials_def split_def Let_def ensure_wifi_def radio_after [OF assms(1)])
  then show ?thesis using try_radio [OF assms(1,2), of N st es "Some name" pass] by (simp add: s')
qed

theorem credential_test_restores_witness:
  "\<exists>d :: prov_creds. r_sta (wifi (fst (net_link_try_credentials demo_wifi demo_creds_store
      [(CREDS_NS, KEY_SSID) \<mapsto> ''home''] [Got_ip ''10.0.0.7'' (False, None)] (Some ''cafe'') (Some ''secret12'') demo_link)))
     = sta_config_of (ssid d) (Some (psk d)) \<and> cstr (ssid d) = ''home''"
proof -
  let ?st = "[(CREDS_NS, KEY_SSID) \<mapsto> ''home''] :: string \<times> string \<Rightarrow> string option"
  obtain d where d: "prov_nvs_load demo_creds_store ?st = (d, True)" "cstr (ssid d) = ''home''"
    by (simp add: prov_nvs_load_def demo_creds_store_def Let_def cstr_in_buffer in_buffer_def)
  have i: "wifi_inited demo_link" "cstr ''cafe'' \<noteq> []" by (simp_all add: demo_link_def)
  from credential_test_restores [OF demo_wifi_reliable demo_link_inv d(1) prod.collapse [symmetric] i,
      where es = "[Got_ip ''10.0.0.7'' (False, None)]" and pass = "Some ''secret12''"] d(2)
  show ?thesis by blast
qed

text \<open>What the portal accepts is what the station joins with, except at the limit.  Credentials
  that the portal's checks accept, saved and started from the store, configure the radio with the
  first 31 bytes of the name and the first 63 of the passphrase: a name of 32 bytes and a raw key
  of 64 hex digits, both accepted, lose their last character.\<close>

theorem accepted_credentials_reach_radio:
  assumes "wifi_reliable W view" "creds_store_works N"
    "prov_check_ssid (Some (ssid c)) = PROV_OK" "prov_check_psk (Some (psk c)) (cstr (psk c) = []) = PROV_OK"
    "prov_nvs_save N st (Some c) = (st', err)" "net_link_sta_start W N st' s = (s', ESP_OK)"
  shows "cstr (sta_ssid (r_sta (view (wifi s')))) = take 31 (cstr (ssid c)) \<and>
    cstr (sta_password (r_sta (view (wifi s')))) = take 63 (cstr (psk c))"
proof -
  note l = accepted_lengths [OF assms(3,4)]
  obtain d where d: "prov_nvs_load N st' = (d, True)" "cstr (ssid d) = cstr (ssid c)" "cstr (psk d) = cstr (psk c)"
    using saved_is_loaded(2) [OF assms(2,5) l] by blast
  from started_config [OF assms(1) d(1) assms(6)] d(2,3) show ?thesis by (simp add: sta_config_of_def Let_def)
qed

theorem accepted_credentials_reach_radio_witness:
  "cstr (sta_ssid (r_sta (wifi (fst (net_link_sta_start demo_wifi demo_creds_store
      (fst (prov_nvs_save demo_creds_store Map.empty (Some house))) demo_link))))) = replicate 31 CHR ''n''"
proof -
  let ?st = "fst (prov_nvs_save demo_creds_store Map.empty (Some house))"
  have ok: "prov_check_ssid (Some (ssid house)) = PROV_OK"
    "prov_check_psk (Some (psk house)) (cstr (psk house) = []) = PROV_OK" by code_simp+
  have l: "cstr (ssid house) = replicate 32 CHR ''n''" by code_simp
  have "snd (net_link_sta_start demo_wifi demo_creds_store ?st demo_link) = ESP_OK"
  proof -
    obtain d where "prov_nvs_load demo_creds_store ?st = (d, True)"
      using saved_is_loaded(2) [OF demo_store_works prod.collapse [symmetric] accepted_lengths [OF ok]] by auto
    then show ?thesis
      by (simp add: net_link_sta_start_def split_def Let_def radio_after [OF demo_wifi_reliable] ensure_wifi_def demo_link_def)
  qed
  then have "net_link_sta_start demo_wifi demo_creds_store ?st demo_link =
      (fst (net_link_sta_start demo_wifi demo_creds_store ?st demo_link), ESP_OK)" by (metis prod.collapse)
  from accepted_credentials_reach_radio [OF demo_wifi_reliable demo_store_works ok prod.collapse [symmetric] this]
  show ?thesis by (simp add: l)
qed

text \<open>Every failed try to join counts twice.  The main loop backs off before the attempt, and the
  driver's report of its failure backs off again, so the interval does not double with each
  attempt but quadruples.\<close>

theorem attempts_count_twice:
  assumes "want_join s" "\<not> sta_connected s" "net_retry_due (link_retry s) t" "delay_ms (link_retry s) \<le> NET_RETRY_MAX_MS"
  shows "unat (delay_ms (link_retry (handle_event W (Sta_disconnected t') (net_link_tick W t s)))) =
    min (4 * unat (delay_ms (link_retry s))) 60000"
proof -
  have "link_retry (handle_event W (Sta_disconnected t') (net_link_tick W t s)) =
      net_retry_failed (net_retry_failed (link_retry s) t) t'"
    using assms(1-3) by (simp add: net_link_tick_def connect_def on_wifi_disconnected_def Let_def)
  with failed_ladder [OF assms(4), of "[t, t']"] show ?thesis by simp
qed

theorem attempts_count_twice_witness:
  "unat (delay_ms (link_retry (handle_event demo_wifi (Sta_disconnected 90)
     (net_link_tick demo_wifi 10 (demo_link\<lparr>want_join := True\<rparr>))))) = 4000"
  using attempts_count_twice [of "demo_link\<lparr>want_join := True\<rparr>" 10 demo_wifi 90]
  by (simp add: demo_link_def net_retry_init_def net_retry_due_def)

end
