(* ===== verification/Wifi_Prov.thy ===== *)
theory Wifi_Prov
  imports Prov_Logic Prov_Form Net_Link
begin

text \<open>
  \<^verbatim>\<open>components/wifi_prov/wifi_prov.c\<close>, \<^verbatim>\<open>prov_ap.c\<close> and \<^verbatim>\<open>prov_dns.c\<close>, with the
  life cycle of the server of \<^verbatim>\<open>prov_http.c\<close>: the session of \<open>prov_logic\<close> turned into an
  access point, a name service and a web server.  Sockets, tasks and the HTTP daemon are the
  platform's; what they answer is an argument.
\<close>

section \<open>Data\<close>

abbreviation PROV_AP_SSID_MAX :: nat where "PROV_AP_SSID_MAX \<equiv> 33"
abbreviation GPIO_NUM_NC :: int where "GPIO_NUM_NC \<equiv> - 1"

datatype wifi_prov_evt = WIFI_PROV_EVT_NONE | WIFI_PROV_EVT_OPENED | WIFI_PROV_EVT_CLOSED

record wifi_prov_config =
  button_gpio :: int
  ap_password_cfg :: "string option"
  admin_user :: "string option"
  admin_password :: "string option"

text \<open>The statics of the four files, with the link they drive.\<close>

record 'w portal =
  p_ctx :: prov_ctx
  p_button :: int
  p_ssid :: string
  p_cfg :: wifi_prov_config
  p_finish_requested :: bool
  ap_running :: bool
  dns_task :: bool
  dns_sock :: bool
  dns_run :: bool
  http_server :: bool
  http_sid :: string
  p_link :: "'w net_link"

text \<open>What the platform answers while the portal goes up or down.\<close>

record portal_env =
  socket_ok :: bool
  bind_ok :: bool
  dns_task_ok :: bool
  dns_exits :: bool       \<comment> \<open>the task ends within the second that \<open>prov_dns_stop\<close> waits\<close>
  httpd_err :: esp_err


section \<open>The name service\<close>

abbreviation DNS_MAX_LEN :: nat where "DNS_MAX_LEN \<equiv> 512"
abbreviation DNS_TTL :: u8 where "DNS_TTL \<equiv> 10"

text \<open>\<open>ipaddr_addr(PROV_AP_IP)\<close>, in memory order.\<close>

abbreviation PROV_AP_ADDR :: "u8 list" where "PROV_AP_ADDR \<equiv> [192, 168, 4, 1]"

definition build_reply :: "u8 list \<Rightarrow> nat \<Rightarrow> u8 list option" where
  "build_reply q out_max =
     (if length q < 12 \<or> length q > out_max then None
      else if q ! 2 AND 0x80 \<noteq> 0 \<or> q ! 4 \<noteq> 0 \<or> q ! 5 = 0 then None
      else
        (let out = q[2 := 0x81, 3 := 0x80, 6 := 0, 7 := 1, 8 := 0, 9 := 0, 10 := 0, 11 := 0]
         in if length q + 16 > out_max then None
            else Some (out @ [0xC0, 0x0C, 0x00, 0x01, 0x00, 0x01, 0x00, 0x00, 0x00, DNS_TTL, 0x00, 0x04]
                   @ PROV_AP_ADDR)))"

text \<open>One turn of the task: a datagram, if any came, and the one sent back.\<close>

definition dns_turn :: "u8 list option \<Rightarrow> u8 list option" where
  "dns_turn rx =
     (case rx of
        None \<Rightarrow> None
      | Some q \<Rightarrow> if q = [] then None else build_reply (take DNS_MAX_LEN q) (DNS_MAX_LEN + 16))"

definition prov_dns_start :: "portal_env \<Rightarrow> 'w portal \<Rightarrow> 'w portal \<times> esp_err" where
  "prov_dns_start e p =
     (if dns_task p then (p, ESP_OK)
      else if \<not> socket_ok e then (p\<lparr>dns_sock := False\<rparr>, ESP_FAIL)
      else if \<not> bind_ok e then (p\<lparr>dns_sock := False\<rparr>, ESP_FAIL)
      else if \<not> dns_task_ok e then (p\<lparr>dns_run := False, dns_sock := False\<rparr>, ESP_FAIL)
      else (p\<lparr>dns_run := True, dns_sock := True, dns_task := True\<rparr>, ESP_OK))"

definition prov_dns_stop :: "portal_env \<Rightarrow> 'w portal \<Rightarrow> 'w portal" where
  "prov_dns_stop e p =
     (if \<not> dns_task p then p
      else p\<lparr>dns_run := False, dns_sock := False, dns_task := \<not> dns_exits e\<rparr>)"


section \<open>The web server's life\<close>

definition prov_http_start :: "portal_env \<Rightarrow> 'w portal \<Rightarrow> 'w portal \<times> esp_err" where
  "prov_http_start e p =
     (if http_server p then (p, ESP_OK)
      else
        (let p = p\<lparr>http_sid := []\<rparr>
         in if httpd_err e \<noteq> ESP_OK then (p\<lparr>http_server := False\<rparr>, httpd_err e)
            else (p\<lparr>http_server := True\<rparr>, ESP_OK)))"

definition prov_http_stop :: "'w portal \<Rightarrow> 'w portal" where
  "prov_http_stop p = (if \<not> http_server p then p else p\<lparr>http_server := False, http_sid := []\<rparr>)"


section \<open>The access point\<close>

text \<open>The name is written to \<open>s_ssid\<close>, where the only caller has it.\<close>

definition prov_ap_start :: "'w wifi_ops \<Rightarrow> portal_env \<Rightarrow> string option \<Rightarrow> 'w portal \<Rightarrow> 'w portal \<times> esp_err" where
  "prov_ap_start W e password p =
     (if ap_running p then (p, ESP_OK)
      else
        (case net_link_ap_up W password PROV_AP_SSID_MAX (p_link p) of
           (l, Inl err) \<Rightarrow> (p\<lparr>p_link := l\<rparr>, err)
         | (l, Inr name) \<Rightarrow>
             (let p = p\<lparr>p_link := l, p_ssid := name\<rparr>;
                  p = fst (prov_dns_start e p);
                  (p, err) = prov_http_start e p
              in if err \<noteq> ESP_OK
                 then (let p = prov_dns_stop e p
                       in (p\<lparr>p_link := net_link_ap_down W (p_link p)\<rparr>, ESP_FAIL))
                 else (p\<lparr>ap_running := True\<rparr>, ESP_OK))))"

definition prov_ap_stop :: "'w wifi_ops \<Rightarrow> portal_env \<Rightarrow> 'w portal \<Rightarrow> 'w portal" where
  "prov_ap_stop W e p =
     (if \<not> ap_running p then p
      else
        (let p = prov_dns_stop e (prov_http_stop p)
         in p\<lparr>p_link := net_link_ap_down W (p_link p), ap_running := False\<rparr>))"


section \<open>The portal\<close>

text \<open>\<open>None\<close> is an abort of \<open>ESP_ERROR_CHECK\<close>; the last argument is what configuring the pin returns.\<close>

definition wifi_prov_init ::
  "boot_env \<Rightarrow> esp_err \<Rightarrow> wifi_prov_config \<Rightarrow> 'w portal \<Rightarrow> ('w portal \<times> esp_err) option" where
  "wifi_prov_init e gpio_err cfg p =
     (if ap_password_cfg cfg = None \<or> admin_user cfg = None \<or> admin_password cfg = None
      then Some (p, ESP_ERR_INVALID_ARG)
      else
        (let p = p\<lparr>p_ctx := prov_init, p_cfg := cfg, p_button := button_gpio cfg,
               p_ssid := (p_ssid p)[0 := NUL]\<rparr>;
             erase = (nvs_first e = ESP_ERR_NVS_NO_FREE_PAGES \<or> nvs_first e = ESP_ERR_NVS_NEW_VERSION_FOUND);
             nvs = (if erase then nvs_second e else nvs_first e)
         in if erase \<and> nvs_erase e \<noteq> ESP_OK then None
            else if nvs \<noteq> ESP_OK then Some (p, nvs)
            else if netif_init e \<noteq> ESP_OK then None
            else if event_loop e \<noteq> ESP_OK \<and> event_loop e \<noteq> ESP_ERR_INVALID_STATE then Some (p, event_loop e)
            else if gpio_err \<noteq> ESP_OK then Some (p, gpio_err)
            else Some (p, ESP_OK)))"

definition shut :: "'w wifi_ops \<Rightarrow> portal_env \<Rightarrow> 'w portal \<Rightarrow> 'w portal" where
  "shut W e p = (let p = prov_ap_stop W e p in p\<lparr>p_ssid := (p_ssid p)[0 := NUL]\<rparr>)"

definition wifi_prov_tick ::
  "'w wifi_ops \<Rightarrow> portal_env \<Rightarrow> int \<Rightarrow> u32 \<Rightarrow> 'w portal \<Rightarrow> 'w portal \<times> wifi_prov_evt" where
  "wifi_prov_tick W e level now_ms p =
     (if p_button p = GPIO_NUM_NC then (p, WIFI_PROV_EVT_NONE)
      else
        (let finish = p_finish_requested p;
             p = p\<lparr>p_finish_requested := False\<rparr>;
             (ctx, closed) = (if finish then prov_close (p_ctx p) else (p_ctx p, PROV_ACTION_NONE));
             p = p\<lparr>p_ctx := ctx\<rparr>
         in if closed = PROV_ACTION_CLOSE_AP then (shut W e p, WIFI_PROV_EVT_CLOSED)
            else
              (let down = (level = 0);
                   (ctx, a) = prov_button (p_ctx p) down now_ms;
                   (ctx, a) = (if a = PROV_ACTION_NONE then prov_tick ctx now_ms else (ctx, a));
                   p = p\<lparr>p_ctx := ctx\<rparr>
               in case a of
                    PROV_ACTION_OPEN_AP \<Rightarrow>
                      (case prov_ap_start W e (ap_password_cfg (p_cfg p)) p of
                         (p, err) \<Rightarrow>
                           if err \<noteq> ESP_OK
                           then (p\<lparr>p_ctx := fst (prov_close (p_ctx p)), p_ssid := (p_ssid p)[0 := NUL]\<rparr>,
                                 WIFI_PROV_EVT_NONE)
                           else (p, WIFI_PROV_EVT_OPENED))
                  | PROV_ACTION_CLOSE_AP \<Rightarrow> (shut W e p, WIFI_PROV_EVT_CLOSED)
                  | PROV_ACTION_NONE \<Rightarrow> (p, WIFI_PROV_EVT_NONE))))"

definition wifi_prov_close :: "'w wifi_ops \<Rightarrow> portal_env \<Rightarrow> 'w portal \<Rightarrow> 'w portal" where
  "wifi_prov_close W e p =
     (case prov_close (p_ctx p) of
        (ctx, a) \<Rightarrow> (let p = p\<lparr>p_ctx := ctx\<rparr> in if a = PROV_ACTION_CLOSE_AP then shut W e p else p))"

definition wifi_prov_is_open :: "'w portal \<Rightarrow> bool" where
  "wifi_prov_is_open p = prov_is_open (p_ctx p)"

definition wifi_prov_seconds_left :: "'w portal \<Rightarrow> u32 \<Rightarrow> u32" where
  "wifi_prov_seconds_left p now_ms = prov_seconds_left (p_ctx p) now_ms"

definition wifi_prov_ssid :: "'w portal \<Rightarrow> string" where
  "wifi_prov_ssid p = p_ssid p"

text \<open>The session bridge.\<close>

definition prov_session_login :: "string option \<Rightarrow> string option \<Rightarrow> 'w portal \<Rightarrow> 'w portal \<times> bool" where
  "prov_session_login user password p =
     (if user = None \<or> password = None then (p, False)
      else
        (let user_ok = prov_ct_str_equal user (admin_user (p_cfg p));
             pass_ok = prov_ct_str_equal password (admin_password (p_cfg p))
         in case prov_login (p_ctx p) (user_ok \<and> pass_ok) of (ctx, r) \<Rightarrow> (p\<lparr>p_ctx := ctx\<rparr>, r)))"

definition prov_session_is_open :: "'w portal \<Rightarrow> bool" where
  "prov_session_is_open p = prov_is_open (p_ctx p)"

definition prov_session_is_authenticated :: "'w portal \<Rightarrow> bool" where
  "prov_session_is_authenticated p = prov_is_authenticated (p_ctx p)"

definition prov_session_logout :: "'w portal \<Rightarrow> 'w portal" where
  "prov_session_logout p = (if prov_is_open (p_ctx p) then p\<lparr>p_ctx := (p_ctx p)\<lparr>authenticated := False\<rparr>\<rparr> else p)"

definition prov_session_finish :: "'w portal \<Rightarrow> 'w portal" where
  "prov_session_finish p = p\<lparr>p_finish_requested := True\<rparr>"



section \<open>The session and the radio\<close>

text \<open>An open session has its access point, and the access point its server.\<close>

definition portal_inv :: "'w portal \<Rightarrow> bool" where
  "portal_inv p \<longleftrightarrow> (prov_is_open (p_ctx p) \<longrightarrow> ap_running p) \<and> (ap_running p \<longleftrightarrow> http_server p)"

lemma close_opens_nothing [simp]:
  "\<not> prov_is_open (fst (close_session ctx))"
  "snd (close_session ctx) = PROV_ACTION_CLOSE_AP \<longleftrightarrow> prov_is_open ctx"
  "snd (close_session ctx) \<noteq> PROV_ACTION_OPEN_AP"
  by (auto simp: close_session_def prov_is_open_def)

lemma dns_keeps [simp]:
  "p_ctx (fst (prov_dns_start e p)) = p_ctx p" "ap_running (fst (prov_dns_start e p)) = ap_running p"
  "http_server (fst (prov_dns_start e p)) = http_server p" "p_cfg (fst (prov_dns_start e p)) = p_cfg p"
  "p_ctx (prov_dns_stop e p) = p_ctx p" "ap_running (prov_dns_stop e p) = ap_running p"
  "http_server (prov_dns_stop e p) = http_server p" "http_sid (prov_dns_stop e p) = http_sid p"
  by (simp_all add: prov_dns_start_def prov_dns_stop_def)

lemma ap_stop_after [simp]:
  "p_ctx (prov_ap_stop W e p) = p_ctx p" "\<not> ap_running (prov_ap_stop W e p)"
  "http_server (prov_ap_stop W e p) = (http_server p \<and> \<not> ap_running p)"
  by (simp_all add: prov_ap_stop_def prov_http_stop_def Let_def)

lemma ap_stop_sid: "ap_running p \<Longrightarrow> http_server p \<Longrightarrow> http_sid (prov_ap_stop W e p) = []"
  by (simp add: prov_ap_stop_def prov_http_stop_def Let_def)

lemma shut_after [simp]:
  "p_ctx (shut W e p) = p_ctx p" "\<not> ap_running (shut W e p)"
  "http_server (shut W e p) = (http_server p \<and> \<not> ap_running p)"
  "http_sid (shut W e p) = http_sid (prov_ap_stop W e p)"
  by (simp_all add: shut_def Let_def)

lemma ap_up_error: "snd (net_link_ap_up W pw n s) \<noteq> Inl ESP_OK"
  by (auto simp: net_link_ap_up_def split_def Let_def split: option.split)

lemma ap_start_after:
  assumes "ap_running p \<longleftrightarrow> http_server p"
  shows "p_ctx (fst (prov_ap_start W e pw p)) = p_ctx p"
    "ap_running (fst (prov_ap_start W e pw p)) = http_server (fst (prov_ap_start W e pw p))"
    "snd (prov_ap_start W e pw p) = ESP_OK \<Longrightarrow> ap_running (fst (prov_ap_start W e pw p))"
    "snd (prov_ap_start W e pw p) \<noteq> ESP_OK \<Longrightarrow> \<not> ap_running p"
  using assms ap_up_error [of W pw PROV_AP_SSID_MAX "p_link p"]
  by (auto simp: prov_ap_start_def prov_http_start_def split_def Let_def split: sum.split)

text \<open>What a tick can come to: nothing for the radio, an opening, or a closing.\<close>

lemma tick_cases:
  obtains (finished) ctx where "prov_is_open (p_ctx p)" "\<not> prov_is_open ctx"
      "wifi_prov_tick W e level now p = (shut W e (p\<lparr>p_finish_requested := False, p_ctx := ctx\<rparr>), WIFI_PROV_EVT_CLOSED)"
    | (idle) ctx b where "prov_is_open ctx \<longrightarrow> prov_is_open (p_ctx p)"
      "wifi_prov_tick W e level now p = (p\<lparr>p_finish_requested := b, p_ctx := ctx\<rparr>, WIFI_PROV_EVT_NONE)"
    | (opened) ctx where "\<not> prov_is_open (p_ctx p)" "prov_is_open ctx" "level = 0"
      "wifi_prov_tick W e level now p =
        (case prov_ap_start W e (ap_password_cfg (p_cfg p)) (p\<lparr>p_finish_requested := False, p_ctx := ctx\<rparr>) of
           (q, err) \<Rightarrow> if err \<noteq> ESP_OK
             then (q\<lparr>p_ctx := fst (prov_close (p_ctx q)), p_ssid := (p_ssid q)[0 := NUL]\<rparr>, WIFI_PROV_EVT_NONE)
             else (q, WIFI_PROV_EVT_OPENED))"
proof (cases "p_button p = GPIO_NUM_NC")
  case True
  then have "wifi_prov_tick W e level now p =
      (p\<lparr>p_finish_requested := p_finish_requested p, p_ctx := p_ctx p\<rparr>, WIFI_PROV_EVT_NONE)"
    by (simp add: wifi_prov_tick_def)
  then show thesis by (rule idle [rotated]) simp
next
  case nc: False
  show thesis
  proof (cases "p_finish_requested p \<and> prov_is_open (p_ctx p)")
    case True
    let ?ctx = "fst (close_session (p_ctx p))"
    have "wifi_prov_tick W e level now p = (shut W e (p\<lparr>p_finish_requested := False, p_ctx := ?ctx\<rparr>), WIFI_PROV_EVT_CLOSED)"
      using True nc by (simp add: wifi_prov_tick_def prov_close_def Let_def split_def)
    then show thesis using True by (intro finished [of ?ctx]) simp_all
  next
    case False
    let ?q = "p\<lparr>p_finish_requested := False\<rparr>"
    have same: "close_session ctx = (ctx, PROV_ACTION_NONE)" if "\<not> prov_is_open ctx" for ctx
      using that by (simp add: close_session_def prov_is_open_def)
    obtain ctx1 a1 where b: "prov_button (p_ctx p) (level = 0) now = (ctx1, a1)" by (cases "prov_button (p_ctx p) (level = 0) now")
    obtain ctx2 a2 where t: "(if a1 = PROV_ACTION_NONE then prov_tick ctx1 now else (ctx1, a1)) = (ctx2, a2)"
      by (cases "if a1 = PROV_ACTION_NONE then prov_tick ctx1 now else (ctx1, a1)")
    have r: "wifi_prov_tick W e level now p =
        (case a2 of
           PROV_ACTION_OPEN_AP \<Rightarrow>
             (case prov_ap_start W e (ap_password_cfg (p_cfg p)) (?q\<lparr>p_ctx := ctx2\<rparr>) of (q, err) \<Rightarrow>
                if err \<noteq> ESP_OK then (q\<lparr>p_ctx := fst (prov_close (p_ctx q)), p_ssid := (p_ssid q)[0 := NUL]\<rparr>, WIFI_PROV_EVT_NONE)
                else (q, WIFI_PROV_EVT_OPENED))
         | PROV_ACTION_CLOSE_AP \<Rightarrow> (shut W e (?q\<lparr>p_ctx := ctx2\<rparr>), WIFI_PROV_EVT_CLOSED)
         | PROV_ACTION_NONE \<Rightarrow> (?q\<lparr>p_ctx := ctx2\<rparr>, WIFI_PROV_EVT_NONE))"
      using False nc b t by (cases "p_finish_requested p") (simp_all add: wifi_prov_tick_def prov_close_def same Let_def)
    show thesis
    proof (cases a2)
      case PROV_ACTION_OPEN_AP
      then have "\<not> prov_is_open (p_ctx p) \<and> prov_is_open ctx2 \<and> level = 0" using b t
        by (auto simp: prov_button_def prov_tick_def close_session_def prov_is_open_def split: if_splits)
      then show thesis using r PROV_ACTION_OPEN_AP by (intro opened [of ctx2]) auto
    next
      case PROV_ACTION_CLOSE_AP
      then have "prov_is_open (p_ctx p) \<and> \<not> prov_is_open ctx2" using b t
        by (auto simp: prov_button_def prov_tick_def close_session_def prov_is_open_def split: if_splits)
      then show thesis using r PROV_ACTION_CLOSE_AP by (intro finished [of ctx2]) auto
    next
      case PROV_ACTION_NONE
      then have "prov_is_open ctx2 \<longrightarrow> prov_is_open (p_ctx p)" using b t
        by (auto simp: prov_button_def prov_tick_def close_session_def prov_is_open_def split: if_splits)
      then show thesis using r PROV_ACTION_NONE by (intro idle [of ctx2 False]) auto
    qed
  qed
qed

lemma tick_portal:
  assumes "portal_inv p" "wifi_prov_tick W e level now p = (q, evt)"
  shows "portal_inv q"
    "evt = WIFI_PROV_EVT_OPENED \<Longrightarrow> prov_is_open (p_ctx q) \<and> ap_running q \<and> http_server q"
    "evt = WIFI_PROV_EVT_CLOSED \<Longrightarrow> \<not> prov_is_open (p_ctx q) \<and> \<not> ap_running q \<and> \<not> http_server q \<and> http_sid q = []"
proof -
  have "portal_inv q \<and> (evt = WIFI_PROV_EVT_OPENED \<longrightarrow> prov_is_open (p_ctx q) \<and> ap_running q \<and> http_server q) \<and>
    (evt = WIFI_PROV_EVT_CLOSED \<longrightarrow> \<not> prov_is_open (p_ctx q) \<and> \<not> ap_running q \<and> \<not> http_server q \<and> http_sid q = [])"
  proof (cases rule: tick_cases [of p W e level now])
    case (finished ctx)
    then have "ap_running p" "http_server p" using assms(1) by (auto simp: portal_inv_def)
    then have "http_sid (prov_ap_stop W e (p\<lparr>p_finish_requested := False, p_ctx := ctx\<rparr>)) = []" by (intro ap_stop_sid) simp_all
    with finished assms show ?thesis by (auto simp: portal_inv_def)
  next
    case (idle ctx b)
    with assms show ?thesis by (auto simp: portal_inv_def)
  next
    case (opened ctx)
    let ?p = "p\<lparr>p_finish_requested := False, p_ctx := ctx\<rparr>"
    have i: "ap_running ?p \<longleftrightarrow> http_server ?p" using assms(1) by (simp add: portal_inv_def)
    obtain r err where s: "prov_ap_start W e (ap_password_cfg (p_cfg p)) ?p = (r, err)"
      by (cases "prov_ap_start W e (ap_password_cfg (p_cfg p)) ?p")
    from ap_start_after [OF i, of W e "ap_password_cfg (p_cfg p)"] s opened assms
    show ?thesis by (auto simp: portal_inv_def prov_close_def split: if_splits)
  qed
  then show "portal_inv q"
    "evt = WIFI_PROV_EVT_OPENED \<Longrightarrow> prov_is_open (p_ctx q) \<and> ap_running q \<and> http_server q"
    "evt = WIFI_PROV_EVT_CLOSED \<Longrightarrow> \<not> prov_is_open (p_ctx q) \<and> \<not> ap_running q \<and> \<not> http_server q \<and> http_sid q = []"
    by simp_all
qed


text \<open>What the main loop and the web server do to the portal.\<close>

datatype portal_event =
    Poll portal_env int u32
  | Log_in "string option" "string option"
  | Log_out
  | Finish
  | Shut_down portal_env

fun portal_step :: "'w wifi_ops \<Rightarrow> 'w portal \<Rightarrow> portal_event \<Rightarrow> 'w portal" where
  "portal_step W p (Poll e level now) = fst (wifi_prov_tick W e level now p)"
| "portal_step W p (Log_in user password) = fst (prov_session_login user password p)"
| "portal_step W p Log_out = prov_session_logout p"
| "portal_step W p Finish = prov_session_finish p"
| "portal_step W p (Shut_down e) = wifi_prov_close W e p"

lemma login_opens_nothing: "prov_is_open (fst (prov_login ctx good)) \<Longrightarrow> prov_is_open ctx"
  by (auto simp: prov_login_def prov_is_open_def Let_def split: if_splits)

lemma portal_step_inv: "portal_inv p \<Longrightarrow> portal_inv (portal_step W p ev)"
proof (cases ev)
  case (Poll e level now)
  assume "portal_inv p"
  then show ?thesis using tick_portal(1) [OF _ prod.collapse [symmetric]] by (simp add: Poll)
next
  case (Log_in user password)
  assume "portal_inv p"
  then show ?thesis
    by (auto simp: Log_in portal_inv_def prov_session_login_def Let_def split_def dest: login_opens_nothing)
qed (auto simp: portal_inv_def prov_session_logout_def prov_session_finish_def wifi_prov_close_def prov_close_def
    prov_is_open_def split_def Let_def)

interpretation portal: machine "portal_step W" portal_inv "\<lambda>_. True"
  by unfold_locales (rule portal_step_inv)

text \<open>Ticks with the button up, after each other, and what each reported.\<close>

fun idle_ticks :: "'w wifi_ops \<Rightarrow> (portal_env \<times> int \<times> u32) list \<Rightarrow> 'w portal \<Rightarrow> 'w portal \<times> wifi_prov_evt list" where
  "idle_ticks W [] p = (p, [])"
| "idle_ticks W ((e, level, now) # ts) p =
     (let (p, evt) = wifi_prov_tick W e level now p; (p, evts) = idle_ticks W ts p in (p, evt # evts))"

lemma closed_tick:
  assumes "\<not> prov_is_open (p_ctx p)" "level \<noteq> 0"
  shows "\<exists>ctx b. wifi_prov_tick W e level now p = (p\<lparr>p_finish_requested := b, p_ctx := ctx\<rparr>, WIFI_PROV_EVT_NONE) \<and>
    \<not> prov_is_open ctx"
  by (cases rule: tick_cases [of p W e level now]) (use assms in auto)

lemma closed_ticks:
  assumes "\<not> prov_is_open (p_ctx p)" "\<forall>(e, level, now)\<in>set ts. level \<noteq> 0"
  shows "ap_running (fst (idle_ticks W ts p)) = ap_running p \<and> p_link (fst (idle_ticks W ts p)) = p_link p \<and>
    set (snd (idle_ticks W ts p)) \<subseteq> {WIFI_PROV_EVT_NONE}"
  using assms
proof (induction ts arbitrary: p)
  case (Cons t ts)
  obtain e level now where t: "t = (e, level, now)" by (rule prod_cases3)
  from closed_tick [OF Cons.prems(1), of level W e now] Cons.prems(2) obtain ctx b where
    "wifi_prov_tick W e level now p = (p\<lparr>p_finish_requested := b, p_ctx := ctx\<rparr>, WIFI_PROV_EVT_NONE)"
    "\<not> prov_is_open ctx" by (auto simp: t)
  with Cons.IH [of "p\<lparr>p_finish_requested := b, p_ctx := ctx\<rparr>"] Cons.prems(2) show ?case
    by (auto simp: t split_def Let_def)
qed simp


section \<open>Properties\<close>

text \<open>The events of the portal are true.  Along any run of ticks and web requests, a tick that
  reports an opening leaves an open session with its access point and server up, and one that
  reports a closing leaves the session closed, both down and the cookie forgotten; and a session
  is never open without its access point.\<close>

theorem portal_events_are_true:
  assumes "portal_inv p" "wifi_prov_tick W e level now (foldl (portal_step W) p evs) = (q, evt)"
  shows "(prov_is_open (p_ctx q) \<longrightarrow> ap_running q) \<and>
    (evt = WIFI_PROV_EVT_OPENED \<longrightarrow> prov_is_open (p_ctx q) \<and> ap_running q \<and> http_server q) \<and>
    (evt = WIFI_PROV_EVT_CLOSED \<longrightarrow> \<not> prov_is_open (p_ctx q) \<and> \<not> ap_running q \<and> \<not> http_server q \<and> http_sid q = [])"
proof -
  have "portal_inv (foldl (portal_step W) p evs)"
    using portal.run_inv [OF assms(1), of evs] by (simp add: list_all_iff)
  from tick_portal [OF this assms(2)] show ?thesis by (auto simp: portal_inv_def)
qed

definition demo_portal :: "radio portal" where
  "demo_portal = \<lparr>p_ctx = prov_init, p_button = 21, p_ssid = replicate PROV_AP_SSID_MAX NUL,
     p_cfg = \<lparr>button_gpio = 21, ap_password_cfg = Some ''portal-pass'', admin_user = Some ''admin'',
       admin_password = Some ''hunter22''\<rparr>,
     p_finish_requested = False, ap_running = False, dns_task = False, dns_sock = False, dns_run = False,
     http_server = False, http_sid = [], p_link = demo_link\<rparr>"

definition demo_env :: portal_env where
  "demo_env = \<lparr>socket_ok = True, bind_ok = True, dns_task_ok = True, dns_exits = True, httpd_err = ESP_OK\<rparr>"

theorem portal_events_are_true_witness:
  "ap_running (fst (wifi_prov_tick demo_wifi demo_env 0 5000
     (foldl (portal_step demo_wifi) demo_portal [Poll demo_env 0 0])))"
proof -
  have i: "portal_inv demo_portal"
    by (simp add: portal_inv_def demo_portal_def prov_is_open_def prov_init_def)
  have "snd (wifi_prov_tick demo_wifi demo_env 0 5000
     (foldl (portal_step demo_wifi) demo_portal [Poll demo_env 0 0])) = WIFI_PROV_EVT_OPENED" by code_simp
  with portal_events_are_true [OF i prod.collapse [symmetric]] show ?thesis by blast
qed

text \<open>C40: the fifth wrong login closes the session and nothing else.  The action that would take the
  access point down is dropped, and since the session is already closed no later tick reports a
  closing: the access point stays up, and the codes of the session stay valid, until the button
  is held again.\<close>

theorem fifth_failure_leaves_portal_up:
  assumes "prov_is_open (p_ctx p)" "login_failures (p_ctx p) = 4" "ap_running p"
    "\<not> prov_ct_str_equal (Some password) (admin_password (p_cfg p))" "\<forall>(e, level, now)\<in>set ts. level \<noteq> 0"
  shows "\<not> prov_is_open (p_ctx (fst (prov_session_login (Some user) (Some password) p))) \<and>
    (let r = idle_ticks W ts (fst (prov_session_login (Some user) (Some password) p))
     in ap_running (fst r) \<and> want_ap (p_link (fst r)) = want_ap (p_link p) \<and> set (snd r) \<subseteq> {WIFI_PROV_EVT_NONE})"
proof -
  let ?q = "fst (prov_session_login (Some user) (Some password) p)"
  have q: "\<not> prov_is_open (p_ctx ?q)" "ap_running ?q" "p_link ?q = p_link p"
    using assms(1-4) by (simp_all add: prov_session_login_def prov_login_def prov_is_open_def close_session_def Let_def)
  from closed_ticks [OF q(1) assms(5), of W] q show ?thesis by (simp add: Let_def)
qed

theorem fifth_failure_leaves_portal_up_witness:
  "let p = demo_portal\<lparr>p_ctx := prov_init\<lparr>state := PROV_STATE_OPEN, login_failures := 4\<rparr>, ap_running := True\<rparr>
   in ap_running (fst (idle_ticks demo_wifi [(demo_env, 1, 20), (demo_env, 1, 400000)]
        (fst (prov_session_login (Some ''admin'') (Some ''guess'') p))))"
proof -
  let ?p = "demo_portal\<lparr>p_ctx := prov_init\<lparr>state := PROV_STATE_OPEN, login_failures := 4\<rparr>, ap_running := True\<rparr>"
  have "prov_is_open (p_ctx ?p)" "login_failures (p_ctx ?p) = 4" "ap_running ?p"
    "\<not> prov_ct_str_equal (Some ''guess'') (admin_password (p_cfg ?p))"
    by (simp_all add: prov_is_open_def demo_portal_def prov_ct_str_equal_iff)
  from fifth_failure_leaves_portal_up [OF this, where ts = "[(demo_env, 1, 20), (demo_env, 1, 400000)]" and user = "''admin''"]
  show ?thesis by (simp add: Let_def)
qed

end
