(* ===== verification/Prov_Http.thy ===== *)
theory Prov_Http
  imports Wifi_Prov
begin

text \<open>
  \<^verbatim>\<open>components/wifi_prov/prov_http.c\<close>: the handlers of the portal's web server.
  A request is what the handlers read of it; a reply is what the page is made from, not its
  HTML.  The buffers the pages are printed into hold them in every case, so printing is not
  modelled.  Random numbers, the clock and what the network answers are arguments.
\<close>

section \<open>Data\<close>

abbreviation SID_HEX_LEN :: nat where "SID_HEX_LEN \<equiv> 32"
abbreviation PORTAL_BODY_MAX :: nat where "PORTAL_BODY_MAX \<equiv> 512"
abbreviation SCAN_MAX :: nat where "SCAN_MAX \<equiv> 12"

text \<open>The cookie header, if there is one that fits 128 bytes; the declared length of the
  body; and what the calls that receive it yield, nothing for an error.\<close>

record http_req =
  req_cookie :: "string option"
  content_len :: int
  received :: "string list"

datatype notice = No_notice | Error_notice string | Ok_notice string

text \<open>An entry of the list of networks: name, whether it can be chosen, security and strength.\<close>

type_synonym network_line = "string \<times> bool \<times> string \<times> int"

datatype page =
    Login_page string u32 notice
  | Home_page u32
  | Finished_page
  | Wifi_page notice "network_line list"
  | Console_page

text \<open>A redirection may set the cookie; a failed handler drops the connection.\<close>

datatype reply =
    Page page
  | Redirect string "string option"
  | Failed

record http_env =
  now_env :: u32
  randoms :: "u32 list"
  verify_events :: "net_event list"


section \<open>Authentication\<close>

text \<open>Sixteen random bytes in hex.\<close>

definition new_sid :: "u32 list \<Rightarrow> 'w portal \<Rightarrow> 'w portal" where
  "new_sid rs p = p\<lparr>http_sid := hex_text (map (\<lambda>r. ucast (r AND 0xFF) :: u8) (take (SID_HEX_LEN div 2) rs))\<rparr>"

definition request_is_authenticated :: "'w portal \<Rightarrow> http_req \<Rightarrow> bool" where
  "request_is_authenticated p req \<longleftrightarrow>
     (if \<not> prov_session_is_authenticated p \<or> http_sid p = [] then False
      else (case req_cookie req of
              None \<Rightarrow> False
            | Some cookie \<Rightarrow>
                (case strstr (cstr cookie) ''sid='' of
                   None \<Rightarrow> False
                 | Some i \<Rightarrow>
                     (let got = take SID_HEX_LEN (takeWhile (\<lambda>c. c \<noteq> CHR '';'') (drop (i + 4) (cstr cookie)))
                      in prov_ct_str_equal (Some got) (Some (http_sid p))))))"

text \<open>One call receives at most what was declared; a longer body arrives cut.\<close>

definition read_body :: "http_req \<Rightarrow> nat \<Rightarrow> string option" where
  "read_body req buf_size =
     (if content_len req \<le> 0 \<or> nat (content_len req) \<ge> buf_size then None
      else (case received req of
              [] \<Rightarrow> None
            | got # _ \<Rightarrow> if got = [] then None else Some (take (nat (content_len req)) got)))"


section \<open>Pages and handlers\<close>

definition login_page :: "http_env \<Rightarrow> 'w portal \<Rightarrow> notice \<Rightarrow> reply" where
  "login_page e p err = Page (Login_page (cstr (wifi_prov_ssid p)) (wifi_prov_seconds_left p (now_env e)) err)"

definition home_page :: "http_env \<Rightarrow> 'w portal \<Rightarrow> reply" where
  "home_page e p = Page (Home_page (wifi_prov_seconds_left p (now_env e)))"

definition root_get :: "http_env \<Rightarrow> http_req \<Rightarrow> 'w portal \<Rightarrow> 'w portal \<times> reply" where
  "root_get e req p = (p, if request_is_authenticated p req then home_page e p else login_page e p No_notice)"

definition login_post :: "http_env \<Rightarrow> http_req \<Rightarrow> 'w portal \<Rightarrow> 'w portal \<times> reply" where
  "login_post e req p =
     (case read_body req 512 of
        None \<Rightarrow> (p, login_page e p (Error_notice ''Formulario invalido.''))
      | Some body \<Rightarrow>
          (let (user, got_user) = prov_form_field (Some body) (Some ''u'') 64;
               (pass, got_pass) = (if got_user then prov_form_field (Some body) (Some ''p'') 128
                                   else (replicate 128 NUL, False));
               parsed = (got_user \<and> got_pass);
               (p, ok) = (if parsed then prov_session_login (Some user) (Some pass) p else (p, False))
           in if \<not> ok
              then (if \<not> prov_session_is_open p then (p, Failed)
                    else (p, login_page e p (Error_notice ''Usuario ou senha incorretos.'')))
              else (let p = new_sid (randoms e) p
                    in (p, Redirect ''/'' (Some (''sid='' @ http_sid p @ ''; Path=/; HttpOnly; SameSite=Strict''))))))"

definition logout_get :: "'w portal \<Rightarrow> 'w portal \<times> reply" where
  "logout_get p = ((prov_session_logout p)\<lparr>http_sid := []\<rparr>, Redirect ''/'' (Some ''sid=; Path=/; Max-Age=0''))"

definition finish_get :: "http_req \<Rightarrow> 'w portal \<Rightarrow> 'w portal \<times> reply" where
  "finish_get req p =
     (if \<not> request_is_authenticated p req then (p, Redirect ''/'' None)
      else (prov_session_finish p, Page Finished_page))"

fun auth_name :: "wifi_auth_mode \<Rightarrow> string" where
  "auth_name WIFI_AUTH_OPEN = ''aberta''"
| "auth_name WIFI_AUTH_WEP = ''WEP''"
| "auth_name WIFI_AUTH_WPA_PSK = ''WPA''"
| "auth_name WIFI_AUTH_WPA2_PSK = ''WPA2''"
| "auth_name WIFI_AUTH_WPA_WPA2_PSK = ''WPA/WPA2''"
| "auth_name WIFI_AUTH_WPA3_PSK = ''WPA3''"
| "auth_name WIFI_AUTH_WPA2_WPA3_PSK = ''WPA2/WPA3''"
| "auth_name (WIFI_AUTH_OTHER _) = ''?''"

definition network_line :: "ap_record \<Rightarrow> network_line" where
  "network_line r = (rec_ssid r, rec_authmode r \<noteq> WIFI_AUTH_WEP, auth_name (rec_authmode r), rec_rssi r)"

definition wifi_page :: "'w wifi_ops \<Rightarrow> http_req \<Rightarrow> notice \<Rightarrow> 'w portal \<Rightarrow> 'w portal \<times> reply" where
  "wifi_page W req message p =
     (if \<not> request_is_authenticated p req then (p, Redirect ''/'' None)
      else (case net_link_scan W SCAN_MAX (p_link p) of
              (l, r) \<Rightarrow>
                (let found = (case r of Inl _ \<Rightarrow> [] | Inr rs \<Rightarrow> rs)
                 in (p\<lparr>p_link := l\<rparr>, Page (Wifi_page message (map network_line found))))))"

definition wifi_get :: "'w wifi_ops \<Rightarrow> http_req \<Rightarrow> 'w portal \<Rightarrow> 'w portal \<times> reply" where
  "wifi_get W req p = wifi_page W req No_notice p"

text \<open>The credentials a form asks for: a field that is missing, too long or malformed counts
  as empty, and a typed name wins over a chosen one.\<close>

definition posted_creds :: "string \<Rightarrow> prov_creds" where
  "posted_creds body =
     (let (chosen, got_ssid) = prov_form_field (Some body) (Some ''ssid'') (PROV_NVS_SSID_MAX + 1);
          (manual, got_manual) = prov_form_field (Some body) (Some ''manual'') (PROV_NVS_SSID_MAX + 1);
          (pass, _) = prov_form_field (Some body) (Some ''psk'') (PROV_NVS_PSK_MAX + 1);
          name = (if got_manual \<and> cstr manual \<noteq> [] then manual
                  else if got_ssid \<and> cstr chosen \<noteq> [] then chosen else [])
      in \<lparr>ssid = printed (PROV_NVS_SSID_MAX + 1) name, psk = pass\<rparr>)"

definition wifi_post ::
  "'w wifi_ops \<Rightarrow> 's str_ops \<Rightarrow> http_env \<Rightarrow> http_req \<Rightarrow> 'w portal \<times> 's \<Rightarrow> ('w portal \<times> 's) \<times> reply" where
  "wifi_post W N e req ps =
     (let (p, st) = ps
      in if \<not> request_is_authenticated p req then ((p, st), Redirect ''/'' None)
         else
           (let finish = (\<lambda>p st message. case wifi_page W req message p of (p, r) \<Rightarrow> ((p, st), r))
            in case read_body req PORTAL_BODY_MAX of
                 None \<Rightarrow> finish p st (Error_notice ''Formulario invalido ou longo demais.'')
               | Some body \<Rightarrow>
                   (let creds = posted_creds body;
                        r = prov_check_ssid (Some (ssid creds));
                        r = (if r = PROV_OK then prov_check_psk (Some (psk creds)) (cstr (psk creds) = []) else r)
                    in if r \<noteq> PROV_OK then finish p st (Error_notice (prov_result_text r))
                       else
                         (let (l, err) = net_link_try_credentials W N st (verify_events e)
                                (Some (ssid creds)) (Some (psk creds)) (p_link p);
                              p = p\<lparr>p_link := l\<rparr>
                          in if err \<noteq> ESP_OK
                             then finish p st (Error_notice (''Nao foi possivel conectar em '' @ cstr (ssid creds) @
                                 ''. Nada foi salvo: verifique a senha e tente de novo.''))
                             else
                               (let (st, err) = prov_nvs_save N st (Some creds)
                                in if err = ESP_OK
                                   then (let (l, _) = net_link_sta_start W N st (p_link p)
                                         in finish (p\<lparr>p_link := l\<rparr>) st (Ok_notice (''Conectado e salvo: '' @ cstr (ssid creds) @
                                              ''. O portao esta usando esta rede agora.'')))
                                   else finish p st (Error_notice ''Conectou, mas falhou ao gravar''))))))"

definition console_get :: "http_req \<Rightarrow> 'w portal \<Rightarrow> 'w portal \<times> reply" where
  "console_get req p = (p, if \<not> request_is_authenticated p req then Redirect ''/'' None else Page Console_page)"

text \<open>What a request to no route does first: it takes its body off the connection.  \<open>recv c n\<close> is one
  call for at most \<open>n\<close> bytes; what it returns is not trusted to be at most \<open>n\<close>.\<close>

function drain_body :: "('c \<Rightarrow> int \<Rightarrow> 'c \<times> int) \<Rightarrow> int \<Rightarrow> 'c \<Rightarrow> 'c" where
  "drain_body recv remaining c =
     (if remaining \<le> 0 then c
      else
        (let want = (if remaining < 128 then remaining else 128);
             (c, got) = recv c want
         in if got \<le> 0 then c else drain_body recv (remaining - got) c))"
  by pat_completeness auto

termination
  by (relation "measure (\<lambda>(recv, remaining, c). nat remaining)") auto

declare drain_body.simps [simp del]

text \<open>The body does not reach the handler.\<close>

definition catch_all :: "http_req \<Rightarrow> 'w portal \<Rightarrow> 'w portal \<times> reply" where
  "catch_all req p = (p, Redirect ''http://192.168.4.1/'' None)"

datatype http_method = HTTP_GET | HTTP_POST

datatype route = Root | Login_form | Logout_link | Finish_link | Wifi_form | Wifi_save | Console | Other

text \<open>The table of routes, in the order they are registered.\<close>

definition routes :: "(string \<times> http_method \<times> route) list" where
  "routes = [(''/'', HTTP_GET, Root), (''/login'', HTTP_POST, Login_form), (''/logout'', HTTP_GET, Logout_link),
     (''/finish'', HTTP_GET, Finish_link), (''/wifi'', HTTP_GET, Wifi_form), (''/wifi'', HTTP_POST, Wifi_save),
     (''/console'', HTTP_GET, Console), (''/*'', HTTP_GET, Other), (''/*'', HTTP_POST, Other)]"

fun http_handle ::
  "'w wifi_ops \<Rightarrow> 's str_ops \<Rightarrow> http_env \<Rightarrow> route \<Rightarrow> http_req \<Rightarrow> 'w portal \<times> 's \<Rightarrow> ('w portal \<times> 's) \<times> reply" where
  "http_handle W N e Root req (p, st) = (case root_get e req p of (p, r) \<Rightarrow> ((p, st), r))"
| "http_handle W N e Login_form req (p, st) = (case login_post e req p of (p, r) \<Rightarrow> ((p, st), r))"
| "http_handle W N e Logout_link req (p, st) = (case logout_get p of (p, r) \<Rightarrow> ((p, st), r))"
| "http_handle W N e Finish_link req (p, st) = (case finish_get req p of (p, r) \<Rightarrow> ((p, st), r))"
| "http_handle W N e Wifi_form req (p, st) = (case wifi_get W req p of (p, r) \<Rightarrow> ((p, st), r))"
| "http_handle W N e Wifi_save req ps = wifi_post W N e req ps"
| "http_handle W N e Console req (p, st) = (case console_get req p of (p, r) \<Rightarrow> ((p, st), r))"
| "http_handle W N e Other req (p, st) = (case catch_all req p of (p, r) \<Rightarrow> ((p, st), r))"



section \<open>What a request may do\<close>

lemmas handlers = root_get_def finish_get_def wifi_page_def wifi_get_def console_get_def catch_all_def

text \<open>Saving: only in the last step of \<open>wifi_post\<close>.\<close>

lemma wifi_page_store: "(case wifi_page W req m p of (q, r) \<Rightarrow> ((q, st), r)) = ((p', st'), r') \<Longrightarrow> st' = st"
  by (auto split: prod.splits)

lemma wifi_post_saves:
  assumes "wifi_post W N e req (p, st) = ((p', st'), r)"
  shows "st' = st \<or> (request_is_authenticated p req \<and> (\<exists>body l. read_body req PORTAL_BODY_MAX = Some body \<and>
    prov_check_ssid (Some (ssid (posted_creds body))) = PROV_OK \<and>
    prov_check_psk (Some (psk (posted_creds body))) (cstr (psk (posted_creds body)) = []) = PROV_OK \<and>
    net_link_try_credentials W N st (verify_events e) (Some (ssid (posted_creds body))) (Some (psk (posted_creds body)))
      (p_link p) = (l, ESP_OK) \<and>
    st' = fst (prov_nvs_save N st (Some (posted_creds body)))))"
proof (cases "request_is_authenticated p req \<and> (\<exists>body. read_body req PORTAL_BODY_MAX = Some body)")
  case False
  then show ?thesis using assms
    by (auto simp: wifi_post_def Let_def split: option.splits if_splits dest: wifi_page_store)
next
  case True
  then obtain body where b: "request_is_authenticated p req" "read_body req PORTAL_BODY_MAX = Some body" by blast
  define c where "c = posted_creds body"
  obtain l err where t: "net_link_try_credentials W N st (verify_events e) (Some (ssid c)) (Some (psk c)) (p_link p) = (l, err)"
    by fastforce
  obtain st1 err1 where v: "prov_nvs_save N st (Some c) = (st1, err1)" by fastforce
  show ?thesis
  proof (cases "prov_check_ssid (Some (ssid c)) = PROV_OK \<and> prov_check_psk (Some (psk c)) (cstr (psk c) = []) = PROV_OK \<and> err = ESP_OK")
    case ok: True
    have "st' = st1" using assms b ok t v
      by (auto simp: wifi_post_def Let_def c_def [symmetric] split_def split: if_splits)
    then show ?thesis using b ok t v by (auto simp: c_def)
  next
    case False
    then have "st' = st" using assms b t v
      by (auto simp: wifi_post_def Let_def c_def [symmetric] split_def split: if_splits)
    then show ?thesis by simp
  qed
qed



section \<open>Properties\<close>

text \<open>What a posted login says: user name and password, when both fields were there and fitted.\<close>

definition posted_login :: "http_req \<Rightarrow> (string \<times> string) option" where
  "posted_login req =
     (case read_body req 512 of
        None \<Rightarrow> None
      | Some body \<Rightarrow>
          (let (user, got_user) = prov_form_field (Some body) (Some ''u'') 64;
               (pass, got_pass) = prov_form_field (Some body) (Some ''p'') 128
           in if got_user \<and> got_pass then Some (user, pass) else None))"

definition admin_login :: "'w portal \<Rightarrow> string \<Rightarrow> string \<Rightarrow> bool" where
  "admin_login p user pass \<longleftrightarrow>
     (case (admin_user (p_cfg p), admin_password (p_cfg p)) of
        (Some au, Some ap) \<Rightarrow> cstr user = cstr au \<and> cstr pass = cstr ap
      | _ \<Rightarrow> False)"

text \<open>
  What a login makes of the portal: the right one authenticates the session under a new id, the
  fifth wrong one in a row closes the session, and one before that is only counted.
\<close>

definition login_outcome :: "u32 list \<Rightarrow> 'w portal \<Rightarrow> string \<Rightarrow> string \<Rightarrow> 'w portal" where
  "login_outcome rs p user pass =
     (let ctx = p_ctx p
      in if \<not> prov_is_open ctx then p
         else if admin_login p user pass
         then p\<lparr>p_ctx := ctx\<lparr>authenticated := True, login_failures := 0\<rparr>,
                http_sid := hex_text (map (\<lambda>r. ucast (r AND 0xFF) :: u8) (take 16 rs))\<rparr>
         else if unat (login_failures ctx) + 1 < 5
         then p\<lparr>p_ctx := ctx\<lparr>login_failures := login_failures ctx + 1\<rparr>\<rparr>
         else p\<lparr>p_ctx := ctx\<lparr>state := PROV_STATE_CLOSED, authenticated := False, login_failures := 0, opened_ms := 0\<rparr>\<rparr>)"

lemma fifth_failure: "(x :: u8) < 255 \<Longrightarrow> x + 1 \<ge> 5 \<longleftrightarrow> \<not> unat x + 1 < 5"
proof -
  assume "x < 255"
  then have "unat (x + 1) = unat x + 1" using unat_add_lem [of x 1] by (simp add: word_less_nat_alt)
  then show ?thesis by (simp add: word_le_nat_alt not_less)
qed

lemma failures_close: "\<not> (x :: u8) < 255 \<Longrightarrow> x \<ge> 5 \<and> \<not> unat x + 1 < 5"
  by (simp add: word_le_nat_alt word_less_nat_alt)

lemma login_post_outcome:
  "fst (login_post e req p) =
     (case posted_login req of None \<Rightarrow> p | Some (user, pass) \<Rightarrow> login_outcome (randoms e) p user pass)"
proof (cases "posted_login req")
  case None
  then have "fst (login_post e req p) = p"
    by (auto simp: login_post_def posted_login_def Let_def split: option.splits prod.splits if_splits)
  then show ?thesis by (simp add: None)
next
  case (Some up)
  then obtain body user pass where b: "up = (user, pass)" "read_body req 512 = Some body"
    "prov_form_field (Some body) (Some ''u'') 64 = (user, True)"
    "prov_form_field (Some body) (Some ''p'') 128 = (pass, True)"
    by (auto simp: posted_login_def Let_def split: option.splits prod.splits if_splits)
  let ?ok = "prov_ct_str_equal (Some user) (admin_user (p_cfg p)) \<and> prov_ct_str_equal (Some pass) (admin_password (p_cfg p))"
  have m: "?ok \<longleftrightarrow> admin_login p user pass"
    by (auto simp: prov_ct_str_equal_iff admin_login_def split: option.split)
  have s: "prov_session_login (Some user) (Some pass) p =
      (p\<lparr>p_ctx := fst (prov_login (p_ctx p) (admin_login p user pass))\<rparr>, snd (prov_login (p_ctx p) (admin_login p user pass)))"
    unfolding m [symmetric] by (simp add: prov_session_login_def Let_def split_def)
  have "fst (login_post e req p) =
      (if snd (prov_login (p_ctx p) (admin_login p user pass))
       then new_sid (randoms e) (p\<lparr>p_ctx := fst (prov_login (p_ctx p) (admin_login p user pass))\<rparr>)
       else p\<lparr>p_ctx := fst (prov_login (p_ctx p) (admin_login p user pass))\<rparr>)"
    using b(2-4) by (simp add: login_post_def Let_def s)
  also have "\<dots> = login_outcome (randoms e) p user pass"
    using fifth_failure [of "login_failures (p_ctx p)"] failures_close [of "login_failures (p_ctx p)"]
    by (simp add: login_outcome_def prov_login_def close_session_def prov_is_open_def new_sid_def Let_def)
  finally show ?thesis by (simp add: Some b(1))
qed

text \<open>C21: nothing changes without the admin.  A request to any route that does not carry the cookie of
  an authenticated session leaves the stored credentials and all of the portal as they were, with two
  exceptions.  A logout, with or without the cookie, ends the authentication of an open session and
  forgets its id.  A posted login does what \<open>login_outcome\<close> says: with the configured name and password it
  authenticates the open session under a new id; with any other it is counted, and the fifth in a row
  closes the session.\<close>

theorem portal_changes_need_the_admin:
  assumes "\<not> request_is_authenticated p req" "http_handle W N e rt req (p, st) = ((p', st'), r)"
  shows "st' = st \<and> p' =
    (case rt of
       Login_form \<Rightarrow> (case posted_login req of None \<Rightarrow> p | Some (user, pass) \<Rightarrow> login_outcome (randoms e) p user pass)
     | Logout_link \<Rightarrow>
         p\<lparr>p_ctx := if prov_is_open (p_ctx p) then (p_ctx p)\<lparr>authenticated := False\<rparr> else p_ctx p, http_sid := []\<rparr>
     | _ \<Rightarrow> p)"
proof (cases rt)
  case Login_form
  then have "p' = fst (login_post e req p)" "st' = st" using assms(2) by (auto split: prod.splits)
  then show ?thesis by (simp add: Login_form login_post_outcome)
next
  case Wifi_save
  then show ?thesis using assms by (auto simp: wifi_post_def)
qed (use assms in \<open>auto simp: handlers logout_get_def prov_session_logout_def split: if_splits\<close>)

definition login_req :: http_req where
  "login_req = \<lparr>req_cookie = None, content_len = 18, received = [''u=admin&p=hunter22'']\<rparr>"

definition demo_http_env :: http_env where
  "demo_http_env = \<lparr>now_env = 0, randoms = replicate 16 7, verify_events = [Got_ip ''10.0.0.7'' (False, None)]\<rparr>"

text \<open>The right name with another password, on an open session that has seen four of them.\<close>

definition tired_portal :: "radio portal" where
  "tired_portal = demo_portal\<lparr>p_ctx := prov_init\<lparr>state := PROV_STATE_OPEN, login_failures := 4\<rparr>\<rparr>"

definition wrong_req :: http_req where
  "wrong_req = \<lparr>req_cookie = None, content_len = 18, received = [''u=admin&p=hunter23'']\<rparr>"

lemma wrong_login: "posted_login wrong_req \<noteq> None"
  "\<forall>up. posted_login wrong_req = Some up \<longrightarrow> \<not> admin_login tired_portal (fst up) (snd up)"
proof -
  have "map_option (\<lambda>up. admin_login tired_portal (fst up) (snd up)) (posted_login wrong_req) = Some False" by code_simp
  then show "posted_login wrong_req \<noteq> None"
    "\<forall>up. posted_login wrong_req = Some up \<longrightarrow> \<not> admin_login tired_portal (fst up) (snd up)" by auto
qed

theorem portal_changes_need_the_admin_witness:
  "state (p_ctx (fst (fst (http_handle demo_wifi demo_creds_store demo_http_env Login_form wrong_req (tired_portal, Map.empty)))))
     = PROV_STATE_CLOSED"
proof -
  have n: "\<not> request_is_authenticated tired_portal wrong_req"
    by (simp add: request_is_authenticated_def tired_portal_def prov_session_is_authenticated_def prov_is_authenticated_def prov_init_def)
  obtain p' st' r where h: "http_handle demo_wifi demo_creds_store demo_http_env Login_form wrong_req (tired_portal, Map.empty)
      = ((p', st'), r)" by (metis prod.collapse)
  obtain user pass where up: "posted_login wrong_req = Some (user, pass)" using wrong_login(1) by auto
  then have "\<not> admin_login tired_portal user pass" using wrong_login(2) by force
  with portal_changes_need_the_admin [OF n h] h show ?thesis
    by (simp add: up login_outcome_def prov_is_open_def tired_portal_def prov_init_def)
qed

text \<open>C22: what is stored was tried.  If a request changes the stored credentials, it carried the cookie
  of an authenticated session, and the new ones are those of its form, passed both checks, and
  got an address from the network just before.\<close>

theorem stored_credentials_were_tried:
  assumes "http_handle W N e rt req (p, st) = ((p', st'), r)" "st' \<noteq> st"
  shows "request_is_authenticated p req \<and> (\<exists>body l. read_body req PORTAL_BODY_MAX = Some body \<and>
    prov_check_ssid (Some (ssid (posted_creds body))) = PROV_OK \<and>
    prov_check_psk (Some (psk (posted_creds body))) (cstr (psk (posted_creds body)) = []) = PROV_OK \<and>
    net_link_try_credentials W N st (verify_events e) (Some (ssid (posted_creds body))) (Some (psk (posted_creds body)))
      (p_link p) = (l, ESP_OK) \<and>
    st' = fst (prov_nvs_save N st (Some (posted_creds body))))"
proof (cases rt)
  case Wifi_save
  then show ?thesis using assms wifi_post_saves [of W N e req p st p' st' r] by simp
qed (use assms in \<open>auto split: prod.splits\<close>)

definition admin_portal :: "radio portal" where
  "admin_portal = demo_portal\<lparr>p_ctx := prov_init\<lparr>state := PROV_STATE_OPEN, authenticated := True\<rparr>, ap_running := True,
     http_server := True, http_sid := ''07''\<rparr>"

definition save_req :: http_req where
  "save_req = \<lparr>req_cookie = Some ''sid=07'', content_len = 25, received = [''manual=home&psk=secret-123'']\<rparr>"

lemma demo_save:
  "str_get demo_creds_store (snd (fst (http_handle demo_wifi demo_creds_store demo_http_env Wifi_save save_req
     (admin_portal, Map.empty)))) CREDS_NS KEY_SSID 33 = Some ''home''"
  by code_simp

theorem stored_credentials_were_tried_witness:
  "request_is_authenticated admin_portal save_req"
proof -
  obtain p' st' r where h: "http_handle demo_wifi demo_creds_store demo_http_env Wifi_save save_req (admin_portal, Map.empty)
      = ((p', st'), r)" by (metis prod.collapse)
  then have "st' \<noteq> Map.empty" using demo_save by (auto simp: demo_creds_store_def)
  from stored_credentials_were_tried [OF h this] show ?thesis by blast
qed

text \<open>A passphrase that is too long is dropped, not refused.  When the posted passphrase does not
  fit its buffer, the form is taken for one of an open network, and the checks accept that.\<close>

theorem overlong_passphrase_means_open:
  assumes "\<forall>k\<in>fst ` set kvs. field_name k" "map_of kvs ''psk'' = Some pass" "PROV_NVS_PSK_MAX < length pass"
  shows "cstr (psk (posted_creds (form_body kvs))) = [] \<and>
    prov_check_psk (Some (psk (posted_creds (form_body kvs)))) (cstr (psk (posted_creds (form_body kvs))) = []) = PROV_OK"
proof -
  have "field_name ''psk''" by code_simp
  from field_lookup [OF _ this assms(1), of "PROV_NVS_PSK_MAX + 1"] assms(2,3)
  have "psk (posted_creds (form_body kvs)) = replicate 65 NUL"
    by (simp add: posted_creds_def Let_def split_def)
  then show ?thesis by (simp add: prov_check_psk_def is_printable_ascii_def)
qed

definition long_form :: "(string \<times> string) list" where
  "long_form = [(''manual'', ''home''), (''psk'', replicate 65 CHR ''a'')]"

lemma long_form_facts:
  "list_all field_name (map fst long_form)"
  "map_of long_form ''psk'' = Some (replicate 65 CHR ''a'')"
  subgoal by code_simp
  subgoal by code_simp
  done

theorem overlong_passphrase_means_open_witness:
  "cstr (psk (posted_creds (form_body long_form))) = []"
proof -
  have "\<forall>k\<in>fst ` set long_form. field_name k" using long_form_facts(1) by (simp only: list_all_iff set_map)
  from overlong_passphrase_means_open [OF this long_form_facts(2)] show ?thesis by simp
qed


text \<open>C31: reading away the body of an unrouted request always ends, at the next request.  However the
  network cuts the stream into pieces, the loop returns; on a connection that delivers it has taken
  exactly the declared bytes, and on one that fails at most those.\<close>

theorem drained_to_the_next_request:
  assumes "\<And>c n. 0 < n \<Longrightarrow> \<exists>k. recv c n = (drop k c, int k) \<and> int k \<le> n \<and> k \<le> length c"
  shows "(\<exists>k. drain_body recv len c = drop k c \<and> int k \<le> max 0 len) \<and>
    ((\<forall>c n. 0 < n \<longrightarrow> c \<noteq> [] \<longrightarrow> 0 < snd (recv c n)) \<longrightarrow> len \<le> int (length c) \<longrightarrow>
      drain_body recv len c = drop (nat len) c)"
proof (induction "nat len" arbitrary: len c rule: less_induct)
  case less
  define want where "want = (if len < 128 then len else 128 :: int)"
  show ?case
  proof (cases "0 < len")
    case False
    then have "drain_body recv len c = drop 0 c" by (simp add: drain_body.simps)
    then show ?thesis using False by (intro conjI exI [of _ 0]) simp_all
  next
    case True
    then have w: "0 < want" "want \<le> len" by (simp_all add: want_def)
    obtain k where k: "recv c want = (drop k c, int k)" "int k \<le> want" "k \<le> length c"
      using assms [OF w(1), of c] by blast
    have len: "int k \<le> len" using k(2) w(2) by simp
    have d: "drain_body recv len c = (if k = 0 then c else drain_body recv (len - int k) (drop k c))"
      using True k(1) by (subst drain_body.simps) (simp add: Let_def want_def [symmetric])
    show ?thesis
    proof (cases "k = 0")
      case zero: True
      then have n: "\<not> 0 < snd (recv c want)" using k(1) by simp
      have "c \<noteq> []" if "len \<le> int (length c)" using that True by auto
      with n w(1) have "\<not> (\<forall>c n. 0 < n \<longrightarrow> c \<noteq> [] \<longrightarrow> 0 < snd (recv c n)) \<or> \<not> len \<le> int (length c)" by blast
      moreover have "drain_body recv len c = drop 0 c \<and> int 0 \<le> max 0 len" using d zero by simp
      ultimately show ?thesis by blast
    next
      case False
      then have "nat (len - int k) < nat len" using True by simp
      from less(1) [OF this, of "drop k c"] obtain j where j: "drain_body recv len c = drop j (drop k c)"
        "int j \<le> max 0 (len - int k)"
        and all: "(\<forall>c n. 0 < n \<longrightarrow> c \<noteq> [] \<longrightarrow> 0 < snd (recv c n)) \<longrightarrow> len - int k \<le> int (length (drop k c)) \<longrightarrow>
          drain_body recv len c = drop (nat (len - int k)) (drop k c)"
        using d False by auto
      have "drop (nat (len - int k)) (drop k c) = drop (nat len) c" using len by (simp add: nat_diff_distrib)
      moreover have "drain_body recv len c = drop (j + k) c \<and> int (j + k) \<le> max 0 len" using j len by simp
      moreover have "len - int k \<le> int (length (drop k c)) \<longleftrightarrow> len \<le> int (length c)" using k(3) by auto
      ultimately show ?thesis using all by metis
    qed
  qed
qed

text \<open>A connection that delivers three bytes at a time.\<close>

definition demo_recv :: "string \<Rightarrow> int \<Rightarrow> string \<times> int" where
  "demo_recv c n = (let k = min 3 (min (nat n) (length c)) in (drop k c, int k))"

theorem drained_to_the_next_request_witness:
  "drain_body demo_recv 7 ''a=1&b=2GET /'' = ''GET /''"
proof -
  have r: "\<exists>k. demo_recv c n = (drop k c, int k) \<and> int k \<le> n \<and> k \<le> length c" if "0 < n" for c n
    using that by (auto simp: demo_recv_def Let_def intro!: exI [of _ "min 3 (min (nat n) (length c))"])
  have "0 < snd (demo_recv c n)" if "0 < n" "c \<noteq> []" for c n
    using that by (simp add: demo_recv_def Let_def)
  then show ?thesis using drained_to_the_next_request [of demo_recv 7 "''a=1&b=2GET /''", OF r] by simp
qed

end
