(* ===== verification/Rtc_Ds3231.thy ===== *)
theory Rtc_Ds3231
  imports Esp_Err "HOL-Library.Signed_Division"
begin

text \<open>
  \<^verbatim>\<open>components/rtc_ds3231/rtc_ds3231.c\<close>: trusted time from the DS3231.  The bus is
  a parameter; \<open>gmtime_r\<close> of the C library is the calendar, day by day from 1970.  A
  transfer that fails is reported as \<open>ESP_FAIL\<close> for whatever code the driver gave.
\<close>

section \<open>Data\<close>

abbreviation REG_SECONDS :: u8 where "REG_SECONDS \<equiv> 0x00"
abbreviation REG_STATUS :: u8 where "REG_STATUS \<equiv> 0x0F"
abbreviation STATUS_OSF :: u8 where "STATUS_OSF \<equiv> 0x80"
abbreviation RTC_MIN_PLAUSIBLE_EPOCH :: i64 where "RTC_MIN_PLAUSIBLE_EPOCH \<equiv> 1767225600"
abbreviation RTC_MAX_PLAUSIBLE_EPOCH :: i64 where "RTC_MAX_PLAUSIBLE_EPOCH \<equiv> 2524608000"

record 'b rtc =
  rtc_bus :: 'b
  rtc_trusted :: bool


section \<open>The C library's calendar\<close>

definition leap_year :: "nat \<Rightarrow> bool" where
  "leap_year y \<longleftrightarrow> 4 dvd y \<and> (\<not> 100 dvd y \<or> 400 dvd y)"

definition month_days :: "nat \<Rightarrow> nat \<Rightarrow> nat" where
  "month_days y m = (if m = 2 then (if leap_year y then 29 else 28) else if m \<in> {4, 6, 9, 11} then 30 else 31)"

text \<open>The day after a date, and the date so many days after the first of January 1970.\<close>

fun next_day :: "nat \<times> nat \<times> nat \<Rightarrow> nat \<times> nat \<times> nat" where
  "next_day (y, m, d) = (if d < month_days y m then (y, m, d + 1) else if m < 12 then (y, m + 1, 1) else (y + 1, 1, 1))"

primrec civil :: "nat \<Rightarrow> nat \<times> nat \<times> nat" where
  "civil 0 = (1970, 1, 1)"
| "civil (Suc n) = next_day (civil n)"

record tm =
  tm_sec :: nat
  tm_min :: nat
  tm_hour :: nat
  tm_mday :: nat
  tm_mon :: nat
  tm_year :: nat
  tm_wday :: nat

definition gmtime :: "nat \<Rightarrow> tm" where
  "gmtime t =
     (let days = t div 86400; s = t mod 86400; (y, m, d) = civil days
      in \<lparr>tm_sec = s mod 60, tm_min = s div 60 mod 60, tm_hour = s div 3600, tm_mday = d, tm_mon = m - 1,
          tm_year = y - 1900, tm_wday = (4 + days) mod 7\<rparr>)"


section \<open>Operations\<close>

definition bcd_to_bin :: "u8 \<Rightarrow> u8" where
  "bcd_to_bin v = drop_bit 4 v * 10 + (v AND 0x0F)"

definition bin_to_bcd :: "u8 \<Rightarrow> u8" where
  "bin_to_bcd v = push_bit 4 (v div 10) OR (v mod 10)"

text \<open>The era is a division of signed numbers, which truncates; the rest is unsigned and wraps.\<close>

definition days_from_civil :: "int \<Rightarrow> nat \<Rightarrow> nat \<Rightarrow> i64" where
  "days_from_civil y m d =
     (let y = y - (if m \<le> 2 then 1 else 0);
          era = (if y \<ge> 0 then y else y - 399) sdiv 400;
          yoe = (y - era * 400) mod 2 ^ 32;
          doy = ((153 * (int m + (if m > 2 then - 3 else 9)) + 2) mod 2 ^ 32 div 5 + int d - 1) mod 2 ^ 32;
          doe = (yoe * 365 + yoe div 4 - yoe div 100 + doy) mod 2 ^ 32
      in era * 146097 + doe - 719468)"

definition reg_read :: "'b i2c \<Rightarrow> u8 \<Rightarrow> nat \<Rightarrow> 'b \<Rightarrow> 'b \<times> (esp_err + u8 list)" where
  "reg_read i reg len b =
     (case transmit_receive i b [reg] len of (b, None) \<Rightarrow> (b, Inl ESP_FAIL) | (b, Some bytes) \<Rightarrow> (b, Inr bytes))"

definition reg_write :: "'b i2c \<Rightarrow> u8 \<Rightarrow> u8 list \<Rightarrow> 'b \<Rightarrow> 'b \<times> esp_err" where
  "reg_write i reg bytes b =
     (if length bytes > 8 then (b, ESP_ERR_INVALID_SIZE)
      else (case transmit i b (reg # bytes) of (b, ok) \<Rightarrow> (b, if ok then ESP_OK else ESP_FAIL)))"

text \<open>What the registers say, when it makes sense.\<close>

definition epoch_of_regs :: "u8 list \<Rightarrow> i64 option" where
  "epoch_of_regs r =
     (let sec = unat (bcd_to_bin (r ! 0 AND 0x7F));
          mins = unat (bcd_to_bin (r ! 1 AND 0x7F));
          hour = unat (bcd_to_bin (r ! 2 AND 0x3F));
          day = unat (bcd_to_bin (r ! 4 AND 0x3F));
          mon = unat (bcd_to_bin (r ! 5 AND 0x1F));
          year = 2000 + unat (bcd_to_bin (r ! 6)) + (if r ! 5 AND 0x80 \<noteq> 0 then 100 else 0)
      in if mon < 1 \<or> mon > 12 \<or> day < 1 \<or> day > 31 \<or> hour > 23 \<or> mins > 59 \<or> sec > 59 then None
         else
           (let epoch = days_from_civil (int year) mon day * 86400 + int hour * 3600 + int (mins * 60 + sec)
            in if epoch < RTC_MIN_PLAUSIBLE_EPOCH \<or> epoch > RTC_MAX_PLAUSIBLE_EPOCH then None else Some epoch))"

definition rtc_ds3231_get_time :: "'b i2c \<Rightarrow> 'b rtc \<Rightarrow> 'b rtc \<times> (esp_err + i64)" where
  "rtc_ds3231_get_time i r =
     (case reg_read i REG_STATUS 1 (rtc_bus r) of
        (b, Inl err) \<Rightarrow> (r\<lparr>rtc_bus := b\<rparr>, Inl err)
      | (b, Inr status) \<Rightarrow>
          if status ! 0 AND STATUS_OSF \<noteq> 0 then (r\<lparr>rtc_bus := b\<rparr>, Inl ESP_ERR_INVALID_STATE)
          else
            (case reg_read i REG_SECONDS 7 b of
               (b, Inl err) \<Rightarrow> (r\<lparr>rtc_bus := b\<rparr>, Inl err)
             | (b, Inr regs) \<Rightarrow>
                 (r\<lparr>rtc_bus := b\<rparr>,
                  case epoch_of_regs regs of None \<Rightarrow> Inl ESP_ERR_INVALID_STATE | Some epoch \<Rightarrow> Inr epoch)))"

definition rtc_ds3231_init :: "'b i2c \<Rightarrow> bool \<Rightarrow> 'b rtc \<Rightarrow> 'b rtc \<times> esp_err" where
  "rtc_ds3231_init i add_device_ok r =
     (if \<not> add_device_ok then (r, ESP_FAIL)
      else (case rtc_ds3231_get_time i r of
              (r, Inl _) \<Rightarrow> (r\<lparr>rtc_trusted := False\<rparr>, ESP_OK)
            | (r, Inr _) \<Rightarrow> (r\<lparr>rtc_trusted := True\<rparr>, ESP_OK)))"

definition time_regs :: "tm \<Rightarrow> u8 list" where
  "time_regs t =
     [bin_to_bcd (of_nat (tm_sec t)), bin_to_bcd (of_nat (tm_min t)), bin_to_bcd (of_nat (tm_hour t)),
      of_nat (tm_wday t + 1), bin_to_bcd (of_nat (tm_mday t)),
      bin_to_bcd (of_nat (tm_mon t + 1)) OR (if tm_year t \<ge> 200 then 0x80 else 0),
      bin_to_bcd (of_nat (tm_year t mod 100))]"

definition rtc_ds3231_set_time :: "'b i2c \<Rightarrow> i64 \<Rightarrow> 'b rtc \<Rightarrow> 'b rtc \<times> esp_err" where
  "rtc_ds3231_set_time i epoch r =
     (if epoch < RTC_MIN_PLAUSIBLE_EPOCH \<or> epoch > RTC_MAX_PLAUSIBLE_EPOCH then (r, ESP_ERR_INVALID_ARG)
      else
        (let (b, err) = reg_write i REG_SECONDS (time_regs (gmtime (nat epoch))) (rtc_bus r)
         in if err \<noteq> ESP_OK then (r\<lparr>rtc_bus := b\<rparr>, err)
            else
              (let (b, err) = (case reg_read i REG_STATUS 1 b of
                                 (b, Inl err) \<Rightarrow> (b, err)
                               | (b, Inr status) \<Rightarrow> reg_write i REG_STATUS [status ! 0 AND NOT STATUS_OSF] b)
               in (r\<lparr>rtc_bus := b, rtc_trusted := (if err = ESP_OK then True else rtc_trusted r)\<rparr>, err))))"

definition rtc_ds3231_clock_trusted :: "'b rtc \<Rightarrow> bool" where
  "rtc_ds3231_clock_trusted r = rtc_trusted r"


section \<open>The calendar\<close>

definition date_ok :: "nat \<times> nat \<times> nat \<Rightarrow> bool" where
  "date_ok = (\<lambda>(y, m, d). 1970 \<le> y \<and> 1 \<le> m \<and> m \<le> 12 \<and> 1 \<le> d \<and> d \<le> month_days y m)"

text \<open>Days before the first of March of a year, without eras.\<close>

definition march_days :: "int \<Rightarrow> int" where
  "march_days y = 365 * y + y div 4 - y div 100 + y div 400"

lemma era_split:
  fixes e r :: int
  shows "(400 * e + r) div 4 = 100 * e + r div 4" "(400 * e + r) div 100 = 4 * e + r div 100"
  using div_mult_self2 [of 4 r "100 * e"] div_mult_self2 [of 100 r "4 * e"] by (simp_all add: add.commute)

lemma era_days: "y div 400 * 146097 + (y mod 400 * 365 + y mod 400 div 4 - y mod 400 div 100) = march_days y"
proof -
  define e r where "e = y div 400" and "r = y mod 400"
  have y: "y = 400 * e + r" by (simp add: e_def r_def)
  have d: "y div 4 = 100 * e + r div 4" "y div 100 = 4 * e + r div 100" by (simp_all only: y era_split)
  have "e * 146097 + (r * 365 + r div 4 - r div 100) = 365 * (400 * e + r) + (100 * e + r div 4) - (4 * e + r div 100) + e"
    by simp
  then show ?thesis by (simp only: e_def [symmetric] r_def [symmetric] march_days_def d) (simp only: y)
qed


lemma div_pred:
  fixes y n :: int
  assumes "0 < n"
  shows "(y - 1) div n = y div n - (if n dvd y then 1 else 0)"
proof (cases "n dvd y")
  case True
  then obtain k where k: "y = n * k" by blast
  have "(y - 1) div n = k - 1" by (rule int_div_pos_eq [of _ _ _ "n - 1"]) (use assms k in \<open>simp_all add: algebra_simps\<close>)
  then show ?thesis using assms k by simp
next
  case False
  have "y mod n \<noteq> 0" using False by (simp add: dvd_eq_mod_eq_0)
  moreover have "0 \<le> y mod n" "y mod n < n" using assms by simp_all
  moreover have "y - 1 = n * (y div n) + (y mod n - 1)" using mult_div_mod_eq [of n y] by linarith
  ultimately have "(y - 1) div n = y div n" by (intro int_div_pos_eq [of _ _ _ "y mod n - 1"]) simp_all
  then show ?thesis using False by simp
qed

lemma march_step: "march_days (int y) = march_days (int y - 1) + (if leap_year y then 366 else 365)"
proof -
  have d: "4 dvd int y \<longleftrightarrow> 4 dvd y" "100 dvd int y \<longleftrightarrow> 100 dvd y" "400 dvd int y \<longleftrightarrow> 400 dvd y"
    by (simp_all flip: int_dvd_int_iff)
  have "4 dvd y" if "100 dvd y" using that by (rule dvd_trans [rotated]) simp
  moreover have "100 dvd y" if "400 dvd y" using that by (rule dvd_trans [rotated]) simp
  ultimately show ?thesis by (auto simp: march_days_def leap_year_def div_pred d)
qed

lemma march_mono: "y \<le> z \<Longrightarrow> march_days (int y) \<le> march_days (int z)"
proof (induction z rule: dec_induct)
  case (step z)
  then show ?case using march_step [of "Suc z"] by (simp split: if_splits)
qed simp

lemma sdiv_nonneg: "0 \<le> k \<Longrightarrow> 0 < l \<Longrightarrow> k sdiv l = k div (l :: int)"
  by (cases "k = 0") (simp_all add: signed_divide_int_def)

lemma days_from_march:
  assumes "1 \<le> y" "1 \<le> d" "d \<le> 31" "m \<le> 12"
  shows "days_from_civil (int y) m d = march_days (int y - (if m \<le> 2 then 1 else 0))
    + int ((153 * (if m > 2 then m - 3 else m + 9) + 2) div 5 + d - 1) - 719468"
proof -
  define z where "z = int y - (if m \<le> 2 then 1 else 0)"
  have z: "0 \<le> z" using assms(1) by (simp add: z_def)
  define mp where "mp = 153 * (if m > 2 then m - 3 else m + 9) + 2"
  define doy where "doy = int (mp div 5 + d - 1)"
  define r where "r = z mod 400"
  have i: "int m + (if m > 2 then - 3 else 9) = int (if m > 2 then m - 3 else m + 9)" by simp
  have "(if m > 2 then m - 3 else m + 9) \<le> 11" using assms(4) by simp arith
  then have mp: "mp \<le> 153 * 11 + 2" unfolding mp_def by (intro add_mono mult_le_mono2 order_refl)
  have "153 * (int m + (if m > 2 then - 3 else 9)) + 2 = int mp" unfolding i mp_def by simp
  moreover have "int mp mod 2 ^ 32 = int mp" using mp by simp
  moreover have "int mp div 5 + int d - 1 = doy" using assms(2) by (simp add: doy_def zdiv_int)
  moreover have doy: "0 \<le> doy" "doy \<le> 400" using mp assms(3) by (simp_all add: doy_def)
  then have "doy mod 2 ^ 32 = doy" by simp
  ultimately have d: "((153 * (int m + (if m > 2 then - 3 else 9)) + 2) mod 2 ^ 32 div 5 + int d - 1) mod 2 ^ 32 = doy"
    by (simp only:)
  have r: "0 \<le> r" "r < 400" by (simp_all add: r_def)
  have "(z - z div 400 * 400) mod 2 ^ 32 = r" using r by (simp add: r_def [symmetric] minus_div_mult_eq_mod)
  moreover have "(r * 365 + r div 4 - r div 100 + doy) mod 2 ^ 32 = r * 365 + r div 4 - r div 100 + doy"
  proof (rule mod_pos_pos_trivial)
    show "0 \<le> r * 365 + r div 4 - r div 100 + doy" using r doy by linarith
    have "r * 365 + r div 4 - r div 100 + doy < 4294967296" using r doy by linarith
    then show "r * 365 + r div 4 - r div 100 + doy < 2 ^ 32" by simp
  qed
  ultimately show ?thesis
    unfolding days_from_civil_def Let_def z_def [symmetric] mp_def [symmetric] if_P [OF z] sdiv_nonneg [OF z zero_less_numeral] d
      doy_def [symmetric]
    using era_days [of z, folded r_def] by (simp only:)
qed

lemma months: "1 \<le> m \<Longrightarrow> m \<le> 12 \<Longrightarrow> m \<in> {1, 2, 3, 4, 5, 6, 7, 8, 9, 10, 11, 12 :: nat}"
  by simp arith

lemma month_days_le: "month_days y m \<le> 31"
  by (simp add: month_days_def)

lemma next_day_counts:
  assumes "date_ok (y, m, d)"
  shows "date_ok (next_day (y, m, d))"
    "(case next_day (y, m, d) of (y', m', d') \<Rightarrow> days_from_civil (int y') m' d') = days_from_civil (int y) m d + 1"
proof -
  have a: "1970 \<le> y" "1 \<le> m" "m \<le> 12" "1 \<le> d" "d \<le> month_days y m" using assms by (auto simp: date_ok_def)
  have y1: "Suc 0 \<le> y" "1 \<le> y" "int (Suc y) - 1 = int y" using a(1) by simp_all
  show "date_ok (next_day (y, m, d))"
    using a by (auto simp: date_ok_def month_days_def)
  show "(case next_day (y, m, d) of (y', m', d') \<Rightarrow> days_from_civil (int y') m' d') = days_from_civil (int y) m d + 1"
  proof (cases "d < month_days y m")
    case True
    then have "d + 1 \<le> 31" using month_days_le [of y m] by linarith
    then show ?thesis using True a(3,4) y1(2) by (simp add: days_from_march)
  next
    case False
    then have d: "d = month_days y m" using a(5) by simp
    have j: "days_from_civil (1 + int y) (Suc 0) (Suc 0) = march_days (int y) + 306 - 719468"
      using days_from_march [of "Suc y" 1 1] by simp
    from months [OF a(2,3)] show ?thesis
      by (elim insertE emptyE) (simp_all add: d j days_from_march y1 month_days_def march_step [of y])
  qed
qed

lemma civil_ok: "date_ok (civil n)"
proof (induction n)
  case (Suc n)
  obtain y m d where "civil n = (y, m, d)" by (rule prod_cases3)
  with Suc next_day_counts(1) show ?case by simp
qed (simp add: date_ok_def month_days_def)

lemma civil_counts: "(case civil n of (y, m, d) \<Rightarrow> days_from_civil (int y) m d) = int n"
proof (induction n)
  case 0
  have "days_from_civil 1970 1 1 = 0" by code_simp
  then show ?case by simp
next
  case (Suc n)
  obtain y m d where c: "civil n = (y, m, d)" by (rule prod_cases3)
  then have "date_ok (y, m, d)" using civil_ok [of n] by simp
  from next_day_counts(2) [OF this] Suc show ?case by (simp add: c)
qed

text \<open>The years that the plausible range can reach.\<close>

lemma civil_year:
  assumes "civil n = (y, m, d)" "12000 \<le> n" "n \<le> 47000"
  shows "2000 \<le> y" "y < 2100"
proof -
  have ok: "1970 \<le> y" "1 \<le> m" "m \<le> 12" "1 \<le> d" "d \<le> 31"
    using civil_ok [of n] by (auto simp: assms(1) date_ok_def month_days_def split: if_splits)
  define doy where "doy = (153 * (if m > 2 then m - 3 else m + 9) + 2) div 5 + d - 1"
  define z where "z = (if m \<le> 2 then y - 1 else y)"
  have z: "int y - (if m \<le> 2 then 1 else 0) = int z" using ok(1) by (simp add: z_def)
  have n: "int n = march_days (int z) + int doy - 719468"
    using civil_counts [of n] days_from_march [OF _ ok(4,5,3), of y] ok(1) by (simp add: assms(1) z doy_def)
  have doy: "doy \<le> 400"
  proof -
    have "m - 3 \<le> 11" using ok(3) by linarith
    then have "(if m > 2 then m - 3 else m + 9) \<le> 11" by simp
    then have "(153 * (if m > 2 then m - 3 else m + 9) + 2) div 5 \<le> (153 * 11 + 2) div 5" by (intro div_le_mono) simp
    then show ?thesis using ok(5) by (simp add: doy_def)
  qed
  show "y < 2100"
  proof (rule ccontr)
    assume "\<not> y < 2100"
    then have "march_days (int 2099) \<le> march_days (int z)" by (intro march_mono) (auto simp: z_def)
    moreover have "march_days (int 2099) = 766644" by code_simp
    ultimately show False using n assms(3) by simp
  qed
  show "2000 \<le> y"
  proof (rule ccontr)
    assume "\<not> 2000 \<le> y"
    then have "march_days (int z) \<le> march_days (int 1999)" by (intro march_mono) (auto simp: z_def)
    moreover have "march_days (int 1999) = 730119" by code_simp
    ultimately show False using n assms(2) doy by simp
  qed
qed



section \<open>Registers\<close>

text \<open>Packed decimal through the masks of the reader.\<close>

lemma bcd_table:
  "list_all (\<lambda>n. bcd_to_bin (bin_to_bcd (of_nat n)) = of_nat n) [0..<100]"
  "list_all (\<lambda>n. bcd_to_bin (bin_to_bcd (of_nat n) AND 0x7F) = of_nat n) [0..<60]"
  "list_all (\<lambda>n. bcd_to_bin (bin_to_bcd (of_nat n) AND 0x3F) = of_nat n) [0..<32]"
  "list_all (\<lambda>n. bcd_to_bin (bin_to_bcd (of_nat n) AND 0x1F) = of_nat n \<and> bin_to_bcd (of_nat n) AND 0x80 = 0) [0..<13]"
  by code_simp+

lemma bcd_round:
  "n < 100 \<Longrightarrow> bcd_to_bin (bin_to_bcd (of_nat n)) = of_nat n"
  "n < 60 \<Longrightarrow> bcd_to_bin (bin_to_bcd (of_nat n) AND 0x7F) = of_nat n"
  "n < 32 \<Longrightarrow> bcd_to_bin (bin_to_bcd (of_nat n) AND 0x3F) = of_nat n"
  "n < 13 \<Longrightarrow> bcd_to_bin (bin_to_bcd (of_nat n) AND 0x1F) = of_nat n"
  "n < 13 \<Longrightarrow> bin_to_bcd (of_nat n) AND 0x80 = 0"
  using bcd_table by (simp_all only: list_all_iff set_upt atLeastLessThan_iff Ball_def) simp_all

lemma unat_u8: "n < 256 \<Longrightarrow> unat (of_nat n :: u8) = n"
  by (simp only: unat_of_nat) (simp add: take_bit_nat_eq_self)

lemma epoch_of_time_regs:
  assumes "RTC_MIN_PLAUSIBLE_EPOCH \<le> e" "e \<le> RTC_MAX_PLAUSIBLE_EPOCH"
  shows "epoch_of_regs (time_regs (gmtime (nat e))) = Some e"
proof -
  define t where "t = nat e"
  have t: "int t = e" "1767225600 \<le> t" "t \<le> 2524608000" using assms by (simp_all add: t_def)
  obtain y m d where c: "civil (t div 86400) = (y, m, d)" by (rule prod_cases3)
  have n: "12000 \<le> t div 86400" "t div 86400 \<le> 47000" using t(2,3) by simp_all
  note y = civil_year [OF c n]
  have ok: "1 \<le> m" "m \<le> 12" "1 \<le> d" "d \<le> 31"
    using civil_ok [of "t div 86400"] by (auto simp: c date_ok_def month_days_def split: if_splits)
  define s where "s = t mod 86400"
  have s: "s < 86400" "s div 3600 < 24" "s mod 60 < 60" "s div 60 mod 60 < 60"
    by (simp_all add: s_def div_less_iff_less_mult)
  have g: "gmtime t = \<lparr>tm_sec = s mod 60, tm_min = s div 60 mod 60, tm_hour = s div 3600, tm_mday = d, tm_mon = m - 1,
          tm_year = y - 1900, tm_wday = (4 + t div 86400) mod 7\<rparr>"
    by (simp add: gmtime_def c s_def Let_def)
  have yr: "2000 + (y - 1900) mod 100 = y"
  proof -
    have "y - 1900 = y - 2000 + 100" "y - 2000 < 100" using y by linarith+
    then have "(y - 1900) mod 100 = y - 2000" by (simp only: mod_add_self2 mod_less)
    then show ?thesis using y(1) by simp
  qed
  have hms: "3600 * (s div 3600) + 60 * (s div 60 mod 60) + s mod 60 = s"
  proof -
    have "s div 3600 = s div 60 div 60" using div_mult2_eq [of s 60 60] by simp
    then show ?thesis using mult_div_mod_eq [of 60 s] mult_div_mod_eq [of 60 "s div 60"] by linarith
  qed
  have days: "days_from_civil (int y) m d = int (t div 86400)" using civil_counts [of "t div 86400"] by (simp add: c)
  have "86400 * (t div 86400) + s = t" by (simp add: s_def)
  then have e: "int (t div 86400) * 86400 + int (s div 3600) * 3600 + int (s div 60 mod 60 * 60 + s mod 60) = e"
    using hms t(1) by linarith
  have cent: "\<not> 200 \<le> y - 1900" using y(2) by linarith
  have tm: "epoch_of_regs (time_regs \<lparr>tm_sec = se, tm_min = mi, tm_hour = h, tm_mday = d, tm_mon = m - 1,
      tm_year = y - 1900, tm_wday = w\<rparr>) = Some e"
    if "se < 60" "mi < 60" "h < 24" "D * 86400 + int h * 3600 + int (mi * 60 + se) = e" "days_from_civil (int y) m d = D"
    for se mi h w D
    using ok cent yr that assms by (simp add: time_regs_def epoch_of_regs_def Let_def bcd_round unat_u8)
  show ?thesis unfolding t_def [symmetric] g by (rule tm [OF s(3,4,2) e days])
qed


section \<open>The chip\<close>

text \<open>What is relied on of the chip: a transfer that succeeds reads or writes the registers from
  its first on, reading changes nothing, and no second passes in between.\<close>

definition ds3231 :: "'b i2c \<Rightarrow> ('b \<Rightarrow> nat \<Rightarrow> u8) \<Rightarrow> bool" where
  "ds3231 i regs \<longleftrightarrow>
     (\<forall>b reg n b' r. transmit_receive i b [reg] n = (b', r) \<longrightarrow> regs b' = regs b \<and>
        (\<forall>bytes. r = Some bytes \<longrightarrow> bytes = map (\<lambda>k. regs b (unat reg + k)) [0..<n])) \<and>
     (\<forall>b reg bytes b'. transmit i b (reg # bytes) = (b', True) \<longrightarrow>
        regs b' = (\<lambda>a. if unat reg \<le> a \<and> a < unat reg + length bytes then bytes ! (a - unat reg) else regs b a))"

lemma reg_read_regs:
  assumes "ds3231 i regs" "reg_read i reg n b = (b', r)"
  shows "regs b' = regs b" "r = Inr bytes \<Longrightarrow> bytes = map (\<lambda>k. regs b (unat reg + k)) [0..<n]"
    "r = Inl err \<Longrightarrow> err = ESP_FAIL"
  using assms by (auto simp: reg_read_def ds3231_def split: prod.splits option.splits)

lemma reg_write_regs:
  assumes "ds3231 i regs" "reg_write i reg bytes b = (b', ESP_OK)"
  shows "regs b' = (\<lambda>a. if unat reg \<le> a \<and> a < unat reg + length bytes then bytes ! (a - unat reg) else regs b a)"
  using assms by (auto simp: reg_write_def ds3231_def split: prod.splits if_splits)

text \<open>After the time was set: the registers of the time, and the flag.\<close>

lemma set_time_regs:
  assumes "ds3231 i regs" "rtc_ds3231_set_time i e r = (q, ESP_OK)"
  shows "RTC_MIN_PLAUSIBLE_EPOCH \<le> e" "e \<le> RTC_MAX_PLAUSIBLE_EPOCH" "rtc_trusted q"
    "map (regs (rtc_bus q)) [0..<7] = time_regs (gmtime (nat e))" "regs (rtc_bus q) 15 AND STATUS_OSF = 0"
proof -
  let ?t = "time_regs (gmtime (nat e))"
  have l: "length ?t = 7" by (simp add: time_regs_def)
  show p: "RTC_MIN_PLAUSIBLE_EPOCH \<le> e" "e \<le> RTC_MAX_PLAUSIBLE_EPOCH"
    using assms(2) by (auto simp: rtc_ds3231_set_time_def split: if_splits)
  obtain b1 err1 where w1: "reg_write i REG_SECONDS ?t (rtc_bus r) = (b1, err1)" by fastforce
  have e1: "err1 = ESP_OK" using assms(2) p w1 by (auto simp: rtc_ds3231_set_time_def Let_def split: if_splits)
  note R1 = reg_write_regs [OF assms(1) w1 [unfolded e1]]
  obtain b2 x where rd: "reg_read i REG_STATUS 1 b1 = (b2, x)" by fastforce
  note R2 = reg_read_regs [OF assms(1) rd]
  obtain status where x: "x = Inr status"
  proof (cases x)
    case (Inl err)
    then show thesis using assms(2) p w1 e1 rd R2(3) by (auto simp: rtc_ds3231_set_time_def)
  qed
  obtain b3 err3 where w3: "reg_write i REG_STATUS [status ! 0 AND NOT STATUS_OSF] b2 = (b3, err3)" by fastforce
  have q: "err3 = ESP_OK" "rtc_bus q = b3" "rtc_trusted q"
    using assms(2) p w1 e1 rd x w3 by (auto simp: rtc_ds3231_set_time_def)
  note R3 = reg_write_regs [OF assms(1) w3 [unfolded q(1)]]
  show "rtc_trusted q" by (rule q(3))
  show "regs (rtc_bus q) 15 AND STATUS_OSF = 0"
    by (simp add: q(2) R3) (simp add: and.assoc)
  have "map (regs b3) [0..<7] = map ((!) ?t) [0..<length ?t]"
    unfolding l by (rule map_cong) (auto simp: R3 R2(1) R1 l)
  then show "map (regs (rtc_bus q)) [0..<7] = ?t" by (simp only: q(2) map_nth)
qed


section \<open>Properties\<close>

text \<open>C37: the driver's date arithmetic is the calendar.  For every day from the first of January 1970 on,
  the day number computed from its date is the number of days since then, leap years and
  centuries included.\<close>

theorem day_number_is_calendar:
  "(case civil n of (y, m, d) \<Rightarrow> days_from_civil (int y) m d) = int n"
  by (rule civil_counts)

text \<open>C30: the clock gives back the time it was given.  After a time was set with success, the clock is
  trusted, and a reading before the next second yields that time, unless a transfer fails.\<close>

theorem time_set_is_time_read:
  assumes "ds3231 i regs" "rtc_ds3231_set_time i e r = (q, ESP_OK)" "rtc_ds3231_get_time i q = (q', x)"
    "x \<noteq> Inl ESP_FAIL"
  shows "x = Inr e \<and> rtc_ds3231_clock_trusted q"
proof -
  note S = set_time_regs [OF assms(1,2)]
  obtain b1 y where r1: "reg_read i REG_STATUS 1 (rtc_bus q) = (b1, y)" by fastforce
  note R1 = reg_read_regs [OF assms(1) r1]
  obtain status where y: "y = Inr status" using assms(3,4) r1 R1(3)
    by (cases y) (auto simp: rtc_ds3231_get_time_def)
  have st: "status ! 0 AND STATUS_OSF = 0" using R1(2) [OF y] S(5) by simp
  obtain b2 z where r2: "reg_read i REG_SECONDS 7 b1 = (b2, z)" by fastforce
  note R2 = reg_read_regs [OF assms(1) r2]
  obtain rs where z: "z = Inr rs" using assms(3,4) r1 y st r2 R2(3)
    by (cases z) (auto simp: rtc_ds3231_get_time_def)
  have "rs = time_regs (gmtime (nat e))" using R2(2) [OF z] S(4) R1(1) by simp
  then have "epoch_of_regs rs = Some e" using epoch_of_time_regs [OF S(1,2)] by simp
  then show ?thesis using assms(3) r1 y st r2 z S(3)
    by (auto simp: rtc_ds3231_get_time_def rtc_ds3231_clock_trusted_def)
qed

definition demo_rtc :: "(nat \<Rightarrow> u8) i2c" where
  "demo_rtc = \<lparr>transmit_receive = (\<lambda>m w n. (m, case w of [] \<Rightarrow> None | reg # _ \<Rightarrow> Some (map (\<lambda>k. m (unat reg + k)) [0..<n]))),
     transmit = (\<lambda>m w. case w of [] \<Rightarrow> (m, False) | reg # bytes \<Rightarrow>
       (\<lambda>a. if unat reg \<le> a \<and> a < unat reg + length bytes then bytes ! (a - unat reg) else m a, True)),
     probe = (\<lambda>m. (m, True))\<rparr>"

lemma demo_rtc_works: "ds3231 demo_rtc (\<lambda>m. m)"
  by (simp add: ds3231_def demo_rtc_def)

theorem time_set_is_time_read_witness:
  "snd (rtc_ds3231_get_time demo_rtc (fst (rtc_ds3231_set_time demo_rtc 1790000000 \<lparr>rtc_bus = (\<lambda>_. 0xFF), rtc_trusted = False\<rparr>)))
     = Inr 1790000000"
proof -
  let ?r = "\<lparr>rtc_bus = (\<lambda>_. 0xFF), rtc_trusted = False\<rparr> :: (nat \<Rightarrow> u8) rtc"
  have s: "rtc_ds3231_set_time demo_rtc 1790000000 ?r = (fst (rtc_ds3231_set_time demo_rtc 1790000000 ?r), ESP_OK)"
    by (simp add: rtc_ds3231_set_time_def demo_rtc_def reg_write_def reg_read_def time_regs_def Let_def)
  obtain q' x where g: "rtc_ds3231_get_time demo_rtc (fst (rtc_ds3231_set_time demo_rtc 1790000000 ?r)) = (q', x)" by fastforce
  have "x \<noteq> Inl ESP_FAIL" using g by (auto simp: rtc_ds3231_get_time_def reg_read_def demo_rtc_def split: if_splits option.splits)
  from time_set_is_time_read [OF demo_rtc_works s g this] g show ?thesis by simp
qed

end
