(* ===== verification/Status_Led.thy ===== *)
theory Status_Led
  imports Esp_Err
begin

text \<open>
  \<^verbatim>\<open>components/code_sync/status_led.c\<close> and \<^verbatim>\<open>status_led_rgb.c\<close>: which colour
  tells most about the gate, and the one-pixel strip that blinks it.  The strip is modelled by
  the colour it shows.
\<close>

section \<open>The colour\<close>

abbreviation LED_BLINK_PERIOD_MS :: u32 where "LED_BLINK_PERIOD_MS \<equiv> 30000"
abbreviation LED_BLINK_ON_MS :: u32 where "LED_BLINK_ON_MS \<equiv> 500"

datatype led_colour = LED_GREEN | LED_RED | LED_AMBER | LED_BLUE | LED_MAGENTA

record led_inputs =
  online :: bool
  sync_stale :: bool
  portal_open :: bool
  led_clock_trusted :: bool

definition led_colour_of :: "led_inputs option \<Rightarrow> led_colour" where
  "led_colour_of inp =
     (case inp of
        None \<Rightarrow> LED_RED
      | Some i \<Rightarrow>
          if \<not> led_clock_trusted i then LED_MAGENTA
          else if portal_open i then LED_BLUE
          else if \<not> online i then LED_RED
          else if sync_stale i then LED_AMBER
          else LED_GREEN)"

definition led_is_on :: "u32 \<Rightarrow> bool" where
  "led_is_on now_ms \<longleftrightarrow> now_ms mod LED_BLINK_PERIOD_MS < LED_BLINK_ON_MS"

fun led_colour_name :: "led_colour \<Rightarrow> string" where
  "led_colour_name LED_GREEN = ''green (online)''"
| "led_colour_name LED_RED = ''red (offline)''"
| "led_colour_name LED_AMBER = ''amber (codes stale)''"
| "led_colour_name LED_BLUE = ''blue (portal open)''"
| "led_colour_name LED_MAGENTA = ''magenta (no trusted clock)''"


section \<open>The strip\<close>

abbreviation CHANGE_FLASH_MS :: u32 where "CHANGE_FLASH_MS \<equiv> 600"
abbreviation FORCE_HOLD_MS :: u32 where "FORCE_HOLD_MS \<equiv> 4000"
abbreviation LVL :: u8 where "LVL \<equiv> 60"
abbreviation DIM :: u8 where "DIM \<equiv> 24"

record led_driver =
  strip :: bool
  pixel :: "u8 \<times> u8 \<times> u8"
  led_shown :: led_colour
  led_lit :: bool
  led_valid :: bool
  flash_until_ms :: u32
  reported :: led_colour
  reported_valid :: bool
  force_until_ms :: u32
  force_colour :: led_colour

text \<open>The statics at power-up.\<close>

definition led_statics :: led_driver where
  "led_statics = \<lparr>strip = False, pixel = (0, 0, 0), led_shown = LED_GREEN, led_lit = False, led_valid = False,
     flash_until_ms = 0, reported = LED_GREEN, reported_valid = False, force_until_ms = 0, force_colour = LED_GREEN\<rparr>"

fun rgb_for :: "led_colour \<Rightarrow> u8 \<times> u8 \<times> u8" where
  "rgb_for LED_GREEN = (0, LVL, 0)"
| "rgb_for LED_RED = (LVL, 0, 0)"
| "rgb_for LED_AMBER = (LVL, DIM, 0)"
| "rgb_for LED_BLUE = (0, 0, DIM)"
| "rgb_for LED_MAGENTA = (DIM, 0, DIM)"

definition show_colour :: "led_colour \<Rightarrow> led_driver \<Rightarrow> led_driver" where
  "show_colour c d = d\<lparr>pixel := rgb_for c\<rparr>"

definition strip_clear :: "led_driver \<Rightarrow> led_driver" where
  "strip_clear d = d\<lparr>pixel := (0, 0, 0)\<rparr>"

text \<open>The self-test walks the colours and clears the strip.\<close>

definition status_led_init :: "esp_err \<Rightarrow> led_driver \<Rightarrow> led_driver \<times> esp_err" where
  "status_led_init err d =
     (if err \<noteq> ESP_OK then (d\<lparr>strip := False\<rparr>, err)
      else (strip_clear (fold show_colour [LED_RED, LED_GREEN, LED_BLUE, LED_AMBER, LED_MAGENTA]
              (strip_clear (d\<lparr>strip := True\<rparr>))), ESP_OK))"

definition status_led_tick :: "led_inputs option \<Rightarrow> u32 \<Rightarrow> led_driver \<Rightarrow> led_driver" where
  "status_led_tick inp now_ms d =
     (if \<not> strip d then d
      else
        (let want = led_colour_of inp;
             d = (if \<not> reported_valid d \<or> want \<noteq> reported d
                  then d\<lparr>flash_until_ms := now_ms + CHANGE_FLASH_MS, reported := want, reported_valid := True\<rparr>
                  else d);
             (want, lit) =
               (if sint (now_ms - force_until_ms d) < 0 then (force_colour d, True)
                else (want, led_is_on now_ms \<or> sint (now_ms - flash_until_ms d) < 0))
         in if led_valid d \<and> want = led_shown d \<and> lit = led_lit d then d
            else
              (let d = (if lit then show_colour want d else strip_clear d)
               in d\<lparr>led_shown := want, led_lit := lit, led_valid := True\<rparr>)))"

definition status_led_force :: "led_colour \<Rightarrow> u32 \<Rightarrow> led_driver \<Rightarrow> led_driver" where
  "status_led_force c now_ms d =
     (if \<not> strip d then d
      else (show_colour c (d\<lparr>force_colour := c, force_until_ms := now_ms + FORCE_HOLD_MS\<rparr>))
             \<lparr>led_shown := c, led_lit := True, led_valid := True\<rparr>)"

definition status_led_current :: "led_driver \<Rightarrow> led_colour" where
  "status_led_current d = led_shown d"


section \<open>Seriousness\<close>

text \<open>The colours by how much they matter.\<close>

fun severity :: "led_colour \<Rightarrow> nat" where
  "severity LED_GREEN = 0"
| "severity LED_AMBER = 1"
| "severity LED_RED = 2"
| "severity LED_BLUE = 3"
| "severity LED_MAGENTA = 4"

lemma severity_inj: "severity a = severity b \<longleftrightarrow> a = b"
  by (cases a; cases b) simp_all

instantiation led_colour :: linorder
begin

definition less_eq_led_colour :: "led_colour \<Rightarrow> led_colour \<Rightarrow> bool" where
  "less_eq_led_colour a b \<longleftrightarrow> severity a \<le> severity b"

definition less_led_colour :: "led_colour \<Rightarrow> led_colour \<Rightarrow> bool" where
  "less_led_colour a b \<longleftrightarrow> severity a < severity b"

instance
  by intro_classes (auto simp: less_eq_led_colour_def less_led_colour_def severity_inj)

end

lemmas led_order = less_eq_led_colour_def less_led_colour_def

text \<open>Every condition with the colour that stands for it.\<close>

definition conditions :: "led_inputs \<Rightarrow> led_colour set" where
  "conditions i = insert LED_GREEN
     ((if led_clock_trusted i then {} else {LED_MAGENTA}) \<union> (if portal_open i then {LED_BLUE} else {}) \<union>
      (if online i then {} else {LED_RED}) \<union> (if sync_stale i then {LED_AMBER} else {}))"


section \<open>The pixel\<close>

text \<open>The driver remembers what the strip shows.\<close>

definition pixel_of :: "led_colour \<times> bool \<Rightarrow> u8 \<times> u8 \<times> u8" where
  "pixel_of = (\<lambda>(c, lit). if lit then rgb_for c else (0, 0, 0))"

definition led_inv :: "led_driver \<Rightarrow> bool" where
  "led_inv d \<longleftrightarrow> (led_valid d \<longrightarrow> pixel d = pixel_of (led_shown d, led_lit d))"

datatype led_event = Led_tick "led_inputs option" u32 | Led_force led_colour u32

fun led_step :: "led_driver \<Rightarrow> led_event \<Rightarrow> led_driver" where
  "led_step d (Led_tick inp now) = status_led_tick inp now d"
| "led_step d (Led_force c now) = status_led_force c now d"

lemma led_step_inv: "led_inv d \<Longrightarrow> led_inv (led_step d e)"
  by (cases e) (auto simp: led_inv_def status_led_tick_def status_led_force_def pixel_of_def show_colour_def
      strip_clear_def Let_def)

interpretation led: machine led_step led_inv "\<lambda>_. True"
  by unfold_locales (rule led_step_inv)

text \<open>What a tick decides to show.\<close>

definition led_choice :: "led_inputs option \<Rightarrow> u32 \<Rightarrow> led_driver \<Rightarrow> led_colour \<times> bool" where
  "led_choice inp now d =
     (if sint (now - force_until_ms d) < 0 then (force_colour d, True)
      else (led_colour_of inp, led_is_on now \<or>
        (\<not> reported_valid d \<or> led_colour_of inp \<noteq> reported d \<or> sint (now - flash_until_ms d) < 0)))"

lemma flash_starts: "sint (now - (now + CHANGE_FLASH_MS) :: u32) < 0"
  by (simp add: sint_u32)

lemma tick_shows:
  assumes "led_inv d" "strip d"
  shows "pixel (status_led_tick inp now d) = pixel_of (led_choice inp now d)"
    "strip (status_led_tick inp now d)"
    "force_until_ms (status_led_tick inp now d) = force_until_ms d"
    "force_colour (status_led_tick inp now d) = force_colour d"
  using assms flash_starts [of now]
  by (auto simp: status_led_tick_def led_choice_def led_inv_def pixel_of_def show_colour_def strip_clear_def Let_def)


section \<open>Properties\<close>

text \<open>The most serious condition wins.  The colour is the greatest, by seriousness, of the colours
  of all the conditions that hold.\<close>

theorem most_serious_condition_shows:
  "led_colour_of (Some i) = Max (conditions i)"
  by (intro Max_eqI [symmetric]) (auto simp: conditions_def led_colour_of_def led_order)

text \<open>The strip shows the truth.  After any run of ticks and console requests, a tick without a
  console request in force leaves the strip with the colour of the inputs while it is lit, and
  dark otherwise; skipping writes that change nothing loses nothing.\<close>

theorem strip_shows_the_inputs:
  assumes "led_inv d" "strip (foldl led_step d es)" "\<not> sint (now - force_until_ms (foldl led_step d es)) < 0"
  shows "pixel (status_led_tick inp now (foldl led_step d es)) \<in> {rgb_for (led_colour_of inp), (0, 0, 0)} \<and>
    (led_is_on now \<longrightarrow> pixel (status_led_tick inp now (foldl led_step d es)) = rgb_for (led_colour_of inp))"
proof -
  have "led_inv (foldl led_step d es)" using led.run_inv [OF assms(1)] by (simp add: list_all_iff)
  from tick_shows(1) [OF this assms(2), of inp now] assms(3) show ?thesis
    by (auto simp: led_choice_def pixel_of_def)
qed

theorem strip_shows_the_inputs_witness:
  "pixel (status_led_tick None 30100 (foldl led_step (fst (status_led_init ESP_OK led_statics)) [Led_force LED_BLUE 100]))
     = (LVL, 0, 0)"
proof -
  let ?d = "fst (status_led_init ESP_OK led_statics)"
  have "led_inv ?d" "strip (foldl led_step ?d [Led_force LED_BLUE 100])"
    "\<not> sint (30100 - force_until_ms (foldl led_step ?d [Led_force LED_BLUE 100])) < 0" "led_is_on 30100"
    by (simp_all add: led_inv_def status_led_init_def led_statics_def status_led_force_def strip_clear_def show_colour_def
        led_is_on_def sint_u32)
  from strip_shows_the_inputs [OF this(1-3), of None] this(4) show ?thesis by (simp add: led_colour_of_def)
qed

text \<open>After 24.8 days the strip lies.  When no colour was ever requested, the deadline of the console
  request is zero, and the signed comparison takes it for a future one while the counter is in its
  upper half: every tick then lights solid green, whatever the inputs, for the next 24.8 days.\<close>

theorem uptime_forces_green:
  assumes "led_inv d" "strip d" "force_until_ms d = 0" "force_colour d = LED_GREEN" "2 ^ 31 \<le> t" "t < 2 ^ 32"
  shows "pixel (status_led_tick inp (of_nat t) d) = rgb_for LED_GREEN"
proof -
  have "unat (of_nat t :: u32) = t" using assms(6) by (rule unat_of_nat_u32)
  then have "sint (of_nat t :: u32) < 0" using assms(5,6) by (simp add: sint_u32)
  then show ?thesis
    using tick_shows(1) [OF assms(1,2), of inp "of_nat t"] assms(3,4) by (simp add: led_choice_def pixel_of_def)
qed

theorem uptime_forces_green_witness:
  "pixel (status_led_tick None (of_nat (2 ^ 31)) (fst (status_led_init ESP_OK led_statics))) = rgb_for LED_GREEN"
  by (rule uptime_forces_green)
    (simp_all add: led_inv_def status_led_init_def led_statics_def strip_clear_def show_colour_def)

end
