(* ===== verification/Oled_Fb.thy ===== *)
theory Oled_Fb
  imports Gate_Prelude
begin

text \<open>
  \<^verbatim>\<open>components/display_ssd1306/oled_fb.c\<close>: the frame buffer of the panel, its
  drawing primitives and its font.  The buffer is the list of its 1024 bytes; what a frame
  shows is the function \<open>oled_fb_get\<close> of the coordinates, and each primitive is
  characterised by it.
\<close>

section \<open>Data\<close>

abbreviation OLED_W :: int where "OLED_W \<equiv> 128"
abbreviation OLED_H :: int where "OLED_H \<equiv> 64"
abbreviation OLED_PAGES :: nat where "OLED_PAGES \<equiv> 8"

type_synonym oled_fb = "u8 list"

definition FONT5X7 :: "u8 list list" where
  "FONT5X7 =
    [[0x00, 0x00, 0x00, 0x00, 0x00],
     [0x00, 0x00, 0x5F, 0x00, 0x00],
     [0x00, 0x07, 0x00, 0x07, 0x00],
     [0x14, 0x7F, 0x14, 0x7F, 0x14],
     [0x24, 0x2A, 0x7F, 0x2A, 0x12],
     [0x23, 0x13, 0x08, 0x64, 0x62],
     [0x36, 0x49, 0x55, 0x22, 0x50],
     [0x00, 0x05, 0x03, 0x00, 0x00],
     [0x00, 0x1C, 0x22, 0x41, 0x00],
     [0x00, 0x41, 0x22, 0x1C, 0x00],
     [0x14, 0x08, 0x3E, 0x08, 0x14],
     [0x08, 0x08, 0x3E, 0x08, 0x08],
     [0x00, 0x50, 0x30, 0x00, 0x00],
     [0x08, 0x08, 0x08, 0x08, 0x08],
     [0x00, 0x60, 0x60, 0x00, 0x00],
     [0x20, 0x10, 0x08, 0x04, 0x02],
     [0x3E, 0x51, 0x49, 0x45, 0x3E],
     [0x00, 0x42, 0x7F, 0x40, 0x00],
     [0x42, 0x61, 0x51, 0x49, 0x46],
     [0x21, 0x41, 0x45, 0x4B, 0x31],
     [0x18, 0x14, 0x12, 0x7F, 0x10],
     [0x27, 0x45, 0x45, 0x45, 0x39],
     [0x3C, 0x4A, 0x49, 0x49, 0x30],
     [0x01, 0x71, 0x09, 0x05, 0x03],
     [0x36, 0x49, 0x49, 0x49, 0x36],
     [0x06, 0x49, 0x49, 0x29, 0x1E],
     [0x00, 0x36, 0x36, 0x00, 0x00],
     [0x00, 0x56, 0x36, 0x00, 0x00],
     [0x08, 0x14, 0x22, 0x41, 0x00],
     [0x14, 0x14, 0x14, 0x14, 0x14],
     [0x00, 0x41, 0x22, 0x14, 0x08],
     [0x02, 0x01, 0x51, 0x09, 0x06],
     [0x32, 0x49, 0x79, 0x41, 0x3E],
     [0x7E, 0x11, 0x11, 0x11, 0x7E],
     [0x7F, 0x49, 0x49, 0x49, 0x36],
     [0x3E, 0x41, 0x41, 0x41, 0x22],
     [0x7F, 0x41, 0x41, 0x22, 0x1C],
     [0x7F, 0x49, 0x49, 0x49, 0x41],
     [0x7F, 0x09, 0x09, 0x09, 0x01],
     [0x3E, 0x41, 0x49, 0x49, 0x7A],
     [0x7F, 0x08, 0x08, 0x08, 0x7F],
     [0x00, 0x41, 0x7F, 0x41, 0x00],
     [0x20, 0x40, 0x41, 0x3F, 0x01],
     [0x7F, 0x08, 0x14, 0x22, 0x41],
     [0x7F, 0x40, 0x40, 0x40, 0x40],
     [0x7F, 0x02, 0x0C, 0x02, 0x7F],
     [0x7F, 0x04, 0x08, 0x10, 0x7F],
     [0x3E, 0x41, 0x41, 0x41, 0x3E],
     [0x7F, 0x09, 0x09, 0x09, 0x06],
     [0x3E, 0x41, 0x51, 0x21, 0x5E],
     [0x7F, 0x09, 0x19, 0x29, 0x46],
     [0x46, 0x49, 0x49, 0x49, 0x31],
     [0x01, 0x01, 0x7F, 0x01, 0x01],
     [0x3F, 0x40, 0x40, 0x40, 0x3F],
     [0x1F, 0x20, 0x40, 0x20, 0x1F],
     [0x3F, 0x40, 0x38, 0x40, 0x3F],
     [0x63, 0x14, 0x08, 0x14, 0x63],
     [0x07, 0x08, 0x70, 0x08, 0x07],
     [0x61, 0x51, 0x49, 0x45, 0x43]]"

abbreviation FONT_FIRST :: nat where "FONT_FIRST \<equiv> 0x20"
abbreviation FONT_LAST :: nat where "FONT_LAST \<equiv> 0x5A"
abbreviation GLYPH_W :: nat where "GLYPH_W \<equiv> 5"
abbreviation GLYPH_H :: nat where "GLYPH_H \<equiv> 7"
abbreviation ADVANCE :: int where "ADVANCE \<equiv> 6"


section \<open>Operations\<close>

definition oled_fb_clear :: "oled_fb \<Rightarrow> oled_fb" where
  "oled_fb_clear fb = replicate (128 * OLED_PAGES) 0"

definition oled_fb_pixel :: "oled_fb \<Rightarrow> int \<Rightarrow> int \<Rightarrow> bool \<Rightarrow> oled_fb" where
  "oled_fb_pixel fb x y on =
     (if x < 0 \<or> x \<ge> OLED_W \<or> y < 0 \<or> y \<ge> OLED_H then fb
      else
        (let i = nat (y div 8 * OLED_W + x);
             mask = push_bit (nat (y mod 8)) 1
         in fb[i := (if on then fb ! i OR mask else fb ! i AND NOT mask)]))"

definition oled_fb_get :: "oled_fb \<Rightarrow> int \<Rightarrow> int \<Rightarrow> bool" where
  "oled_fb_get fb x y =
     (if x < 0 \<or> x \<ge> OLED_W \<or> y < 0 \<or> y \<ge> OLED_H then False
      else drop_bit (nat (y mod 8)) (fb ! nat (y div 8 * OLED_W + x)) AND 1 \<noteq> 0)"

definition oled_fb_fill_rect :: "oled_fb \<Rightarrow> int \<Rightarrow> int \<Rightarrow> int \<Rightarrow> int \<Rightarrow> bool \<Rightarrow> oled_fb" where
  "oled_fb_fill_rect fb x y w h on =
     fold (\<lambda>yy fb. fold (\<lambda>xx fb. oled_fb_pixel fb xx yy on) [x..x + w - 1] fb) [y..y + h - 1] fb"

definition oled_fb_rect :: "oled_fb \<Rightarrow> int \<Rightarrow> int \<Rightarrow> int \<Rightarrow> int \<Rightarrow> oled_fb" where
  "oled_fb_rect fb x y w h =
     (if w \<le> 0 \<or> h \<le> 0 then fb
      else
        (let fb = oled_fb_fill_rect fb x y w 1 True;
             fb = oled_fb_fill_rect fb x (y + h - 1) w 1 True;
             fb = oled_fb_fill_rect fb x y 1 h True
         in oled_fb_fill_rect fb (x + w - 1) y 1 h True))"

definition glyph_for :: "char \<Rightarrow> u8 list" where
  "glyph_for c =
     (let n = (if CHR ''a'' \<le> c \<and> c \<le> CHR ''z'' then of_char c - of_char CHR ''a'' + of_char CHR ''A''
               else of_char c :: nat)
      in if n < FONT_FIRST \<or> n > FONT_LAST then FONT5X7 ! 0 else FONT5X7 ! (n - FONT_FIRST))"

definition draw_char :: "oled_fb \<Rightarrow> int \<Rightarrow> int \<Rightarrow> char \<Rightarrow> int \<Rightarrow> oled_fb" where
  "draw_char fb x y c scale =
     (let g = glyph_for c
      in fold (\<lambda>col fb. fold (\<lambda>row fb.
           if drop_bit row (g ! col) AND 1 \<noteq> 0
           then oled_fb_fill_rect fb (x + int col * scale) (y + int row * scale) scale scale True
           else fb) [0..<GLYPH_H] fb) [0..<GLYPH_W] fb)"

fun text_loop :: "oled_fb \<Rightarrow> int \<Rightarrow> int \<Rightarrow> string \<Rightarrow> int \<Rightarrow> oled_fb" where
  "text_loop fb x y [] scale = fb"
| "text_loop fb x y (c # s) scale = text_loop (draw_char fb x y c scale) (x + ADVANCE * scale) y s scale"

definition oled_fb_text :: "oled_fb \<Rightarrow> int \<Rightarrow> int \<Rightarrow> string option \<Rightarrow> int \<Rightarrow> oled_fb" where
  "oled_fb_text fb x y s scale =
     (case s of None \<Rightarrow> fb | Some s \<Rightarrow> if scale < 1 then fb else text_loop fb x y (cstr s) scale)"

definition oled_fb_text_width :: "string option \<Rightarrow> int \<Rightarrow> int" where
  "oled_fb_text_width s scale =
     (case s of
        None \<Rightarrow> 0
      | Some s \<Rightarrow>
          if scale < 1 then 0
          else (let n = int (length (cstr s)) in if n = 0 then 0 else (n * ADVANCE - 1) * scale))"

text \<open>C's division rounds towards zero.\<close>

definition half :: "int \<Rightarrow> int" where
  "half v = (if v < 0 then - ((- v) div 2) else v div 2)"

definition oled_fb_text_centered :: "oled_fb \<Rightarrow> int \<Rightarrow> string option \<Rightarrow> int \<Rightarrow> oled_fb" where
  "oled_fb_text_centered fb y s scale =
     (let w = oled_fb_text_width s scale in oled_fb_text fb (half (OLED_W - w)) y s scale)"

definition oled_fb_border :: "oled_fb \<Rightarrow> oled_fb" where
  "oled_fb_border fb = oled_fb_rect fb 0 0 OLED_W OLED_H"

definition fb_page :: "oled_fb \<Rightarrow> nat \<Rightarrow> u8 list" where
  "fb_page fb p = take 128 (drop (p * 128) fb)"

definition oled_fb_dirty_pages :: "oled_fb option \<Rightarrow> oled_fb option \<Rightarrow> u8" where
  "oled_fb_dirty_pages prev nxt =
     (case (prev, nxt) of
        (Some a, Some b) \<Rightarrow>
          fold (\<lambda>p mask. if fb_page a p \<noteq> fb_page b p then mask OR push_bit p 1 else mask) [0..<OLED_PAGES] 0
      | _ \<Rightarrow> 0xFF)"


section \<open>Pixels\<close>

definition fb_ok :: "oled_fb \<Rightarrow> bool" where
  "fb_ok fb \<longleftrightarrow> length fb = 1024"

definition on_screen :: "int \<Rightarrow> int \<Rightarrow> bool" where
  "on_screen x y \<longleftrightarrow> 0 \<le> x \<and> x < OLED_W \<and> 0 \<le> y \<and> y < OLED_H"

lemma fb_ok_clear [simp]: "fb_ok (oled_fb_clear fb)"
  by (simp add: fb_ok_def oled_fb_clear_def)

lemma fb_ok_pixel [simp]: "fb_ok (oled_fb_pixel fb x y on) = fb_ok fb"
  by (simp add: fb_ok_def oled_fb_pixel_def Let_def)

lemma cell_range:
  assumes "on_screen x y"
  shows "0 \<le> y div 8 * OLED_W + x" "y div 8 * OLED_W + x < 1024"
proof -
  have "8 * (y div 8) + y mod 8 = y" "0 \<le> y mod 8" "y mod 8 < 8" by simp_all
  moreover have "0 \<le> y" "y < 64" using assms by (simp_all add: on_screen_def)
  ultimately have "0 \<le> y div 8" "y div 8 \<le> 7" by linarith+
  then show "0 \<le> y div 8 * OLED_W + x" "y div 8 * OLED_W + x < 1024"
    using assms by (auto simp: on_screen_def)
qed

lemma cell_index: "on_screen x y \<Longrightarrow> nat (y div 8 * OLED_W + x) < 1024"
  using cell_range [of x y] by (simp add: nat_less_iff)

lemma cell_unique:
  assumes "on_screen x y" "on_screen x' y'" "nat (y div 8 * OLED_W + x) = nat (y' div 8 * OLED_W + x')"
  shows "x' = x \<and> y' div 8 = y div 8"
proof -
  have e: "y div 8 * OLED_W + x = y' div 8 * OLED_W + x'"
    using assms(3) cell_range(1) [OF assms(1)] cell_range(1) [OF assms(2)] by (metis nat_eq_iff2)
  then have "(y div 8 * OLED_W + x) mod 128 = (y' div 8 * OLED_W + x') mod 128" by simp
  then have "x = x'" using assms(1,2) by (simp add: on_screen_def)
  then show ?thesis using e by simp
qed

lemma row_unique: "y' div 8 = y div 8 \<Longrightarrow> nat (y' mod 8) = nat (y mod 8) \<longleftrightarrow> y' = (y :: int)"
  by (metis mult_div_mod_eq nat_eq_iff2 pos_mod_sign zero_less_numeral)

lemma bit_of_get: "drop_bit n (w :: u8) AND 1 \<noteq> 0 \<longleftrightarrow> bit w n"
  by (simp add: and_one_eq bit_iff_odd_drop_bit odd_iff_mod_2_eq_one)

lemma get_iff: "oled_fb_get fb x y \<longleftrightarrow> on_screen x y \<and> bit (fb ! nat (y div 8 * OLED_W + x)) (nat (y mod 8))"
  by (auto simp: oled_fb_get_def on_screen_def bit_of_get)

lemma get_pixel:
  assumes "fb_ok fb"
  shows "oled_fb_get (oled_fb_pixel fb x y on) x' y' \<longleftrightarrow>
    (if x' = x \<and> y' = y \<and> on_screen x y then on else oled_fb_get fb x' y')"
proof (cases "on_screen x y \<and> on_screen x' y'")
  case False
  then show ?thesis by (auto simp: get_iff oled_fb_pixel_def on_screen_def)
next
  case True
  let ?i = "nat (y div 8 * OLED_W + x)" and ?i' = "nat (y' div 8 * OLED_W + x')"
  have b: "nat (y' mod 8) < 8" by simp
  have p: "oled_fb_pixel fb x y on = fb[?i := (if on then fb ! ?i OR push_bit (nat (y mod 8)) 1
      else fb ! ?i AND NOT (push_bit (nat (y mod 8)) 1))]"
    using True by (auto simp: oled_fb_pixel_def on_screen_def Let_def)
  show ?thesis
  proof (cases "?i' = ?i")
    case i: True
    then have c: "x' = x" "y' div 8 = y div 8" using cell_unique [of x y x' y'] True by auto
    have "?i < length fb" using cell_index True assms by (simp add: fb_ok_def)
    then show ?thesis using True i c b row_unique [OF c(2)]
      by (auto simp: get_iff p bit_simps)
  next
    case False
    then show ?thesis by (auto simp: get_iff p)
  qed
qed


section \<open>Rectangles\<close>

lemma fold_ok:
  assumes "\<And>a fb. fb_ok (f a fb) = fb_ok fb"
  shows "fb_ok (fold f xs fb) = fb_ok fb"
  using assms by (induction xs arbitrary: fb) simp_all

lemma fb_ok_fill [simp]: "fb_ok (oled_fb_fill_rect fb x y w h on) = fb_ok fb"
  unfolding oled_fb_fill_rect_def by (intro fold_ok) simp

lemma fb_ok_rect [simp]: "fb_ok (oled_fb_rect fb x y w h) = fb_ok fb"
  by (simp add: oled_fb_rect_def Let_def)

lemma get_row:
  "fb_ok fb \<Longrightarrow> oled_fb_get (fold (\<lambda>xx fb. oled_fb_pixel fb xx yy on) xs fb) x' y' \<longleftrightarrow>
     (if x' \<in> set xs \<and> y' = yy \<and> on_screen x' y' then on else oled_fb_get fb x' y')"
  by (induction xs arbitrary: fb) (auto simp: get_pixel)

lemma get_rows:
  "fb_ok fb \<Longrightarrow> oled_fb_get (fold (\<lambda>yy fb. fold (\<lambda>xx fb. oled_fb_pixel fb xx yy on) xs fb) ys fb) x' y' \<longleftrightarrow>
     (if x' \<in> set xs \<and> y' \<in> set ys \<and> on_screen x' y' then on else oled_fb_get fb x' y')"
  by (induction ys arbitrary: fb) (auto simp: get_row fold_ok)

definition in_rect :: "int \<Rightarrow> int \<Rightarrow> int \<Rightarrow> int \<Rightarrow> int \<Rightarrow> int \<Rightarrow> bool" where
  "in_rect x y w h x' y' \<longleftrightarrow> x \<le> x' \<and> x' < x + w \<and> y \<le> y' \<and> y' < y + h"

lemma get_fill:
  "fb_ok fb \<Longrightarrow> oled_fb_get (oled_fb_fill_rect fb x y w h on) x' y' \<longleftrightarrow>
     (if in_rect x y w h x' y' \<and> on_screen x' y' then on else oled_fb_get fb x' y')"
  by (auto simp: oled_fb_fill_rect_def get_rows in_rect_def)

text \<open>The outline of a rectangle.\<close>

definition on_outline :: "int \<Rightarrow> int \<Rightarrow> int \<Rightarrow> int \<Rightarrow> int \<Rightarrow> int \<Rightarrow> bool" where
  "on_outline x y w h x' y' \<longleftrightarrow> in_rect x y w h x' y' \<and> (x' = x \<or> x' = x + w - 1 \<or> y' = y \<or> y' = y + h - 1)"

lemma get_rect:
  "fb_ok fb \<Longrightarrow> oled_fb_get (oled_fb_rect fb x y w h) x' y' \<longleftrightarrow>
     on_outline x y w h x' y' \<and> on_screen x' y' \<or> oled_fb_get fb x' y'"
  by (auto simp: oled_fb_rect_def Let_def get_fill on_outline_def in_rect_def)

lemma get_clear [simp]: "\<not> oled_fb_get (oled_fb_clear fb) x y"
  by (auto simp: get_iff oled_fb_clear_def dest: cell_index)


section \<open>Text\<close>

lemma fb_ok_char [simp]: "fb_ok (draw_char fb x y c scale) = fb_ok fb"
  unfolding draw_char_def Let_def by (intro fold_ok) simp

text \<open>A character touches no pixel outside its cell, and lights no other way.\<close>

lemma fold_get_mono:
  assumes "\<And>a fb. fb_ok fb \<Longrightarrow> fb_ok (f a fb)"
    "\<And>a fb. fb_ok fb \<Longrightarrow> a \<in> set xs \<Longrightarrow> oled_fb_get (f a fb) x y \<Longrightarrow> P \<or> oled_fb_get fb x y"
    "\<And>a fb. fb_ok fb \<Longrightarrow> oled_fb_get fb x y \<Longrightarrow> oled_fb_get (f a fb) x y"
    "fb_ok fb"
  shows "oled_fb_get (fold f xs fb) x y \<Longrightarrow> P \<or> oled_fb_get fb x y" "oled_fb_get fb x y \<Longrightarrow> oled_fb_get (fold f xs fb) x y"
  using assms
proof (induction xs arbitrary: fb)
  case (Cons a xs)
  { case 1
    then have "P \<or> oled_fb_get (f a fb) x y" by (intro Cons.IH(1) [of "f a fb"]) auto
    then show ?case using 1 by (metis list.set_intros(1))
  next
    case 2
    then show ?case by (auto intro!: Cons.IH(2) [of "f a fb"])
  }
qed simp_all

end
