(* ===== verification/Oled_Screens.thy ===== *)
theory Oled_Screens
  imports Oled_Fb Ui Wire_Text
begin

text \<open>
  \<^verbatim>\<open>components/display_ssd1306/oled_screens.c\<close>: the frame for what the user interface
  wants shown.  The same render always gives the same frame.
\<close>

section \<open>Operations\<close>

abbreviation OLED_BAR_X :: int where "OLED_BAR_X \<equiv> 4"
abbreviation OLED_BAR_W :: int where "OLED_BAR_W \<equiv> 120"
abbreviation OLED_BAR_H :: int where "OLED_BAR_H \<equiv> 10"
abbreviation OLED_BAR_INNER_W :: int where "OLED_BAR_INNER_W \<equiv> OLED_BAR_W - 4"

abbreviation STR_DENIED :: string where "STR_DENIED \<equiv> ''SENHA INVALIDA''"
abbreviation STR_TRY :: string where "STR_TRY \<equiv> ''TENTATIVA''"
abbreviation STR_NOT_YET_1 :: string where "STR_NOT_YET_1 \<equiv> ''AINDA NAO''"
abbreviation STR_NOT_YET_2 :: string where "STR_NOT_YET_2 \<equiv> ''VALIDA''"
abbreviation STR_EXPIRED_1 :: string where "STR_EXPIRED_1 \<equiv> ''SENHA''"
abbreviation STR_EXPIRED_2 :: string where "STR_EXPIRED_2 \<equiv> ''EXPIRADA''"
abbreviation STR_LOCKED :: string where "STR_LOCKED \<equiv> ''BLOQUEADO''"
abbreviation STR_NO_CLOCK_1 :: string where "STR_NO_CLOCK_1 \<equiv> ''SEM RELOGIO''"
abbreviation STR_NO_CLOCK_2 :: string where "STR_NO_CLOCK_2 \<equiv> ''AGUARDE''"
abbreviation STR_OK :: string where "STR_OK \<equiv> ''OK''"

text \<open>\<open>%02u\<close>\<close>

definition two_digits :: "nat \<Rightarrow> string" where
  "two_digits n = (if n < 10 then CHR ''0'' # nat_text n else nat_text n)"

definition oled_fmt_mmss :: "u32 \<Rightarrow> string" where
  "oled_fmt_mmss seconds =
     (let seconds = (if seconds > 99 * 60 + 59 then 99 * 60 + 59 else seconds)
      in two_digits (unat (seconds div 60)) @ CHR '':'' # two_digits (unat (seconds mod 60)))"

definition draw_bar :: "oled_fb \<Rightarrow> int \<Rightarrow> u16 \<Rightarrow> oled_fb" where
  "draw_bar fb y permille =
     (let permille = (if permille > 1000 then 1000 else permille);
          fb = oled_fb_rect fb OLED_BAR_X y OLED_BAR_W OLED_BAR_H;
          fill = uint (word_of_int OLED_BAR_INNER_W * (ucast permille :: u32) div 1000)
      in oled_fb_fill_rect fb (OLED_BAR_X + 2) (y + 2) fill (OLED_BAR_H - 4) True)"

text \<open>The line of attempts; the longest one fits its buffer.\<close>

definition attempts_line :: "u8 \<Rightarrow> u8 \<Rightarrow> string" where
  "attempts_line used allowed = STR_TRY @ '' '' @ nat_text (unat used) @ ''/'' @ nat_text (unat allowed)"

definition oled_compose :: "oled_fb \<Rightarrow> ui_render_t option \<Rightarrow> oled_fb" where
  "oled_compose fb r =
     (let fb = oled_fb_clear fb
      in case r of
           None \<Rightarrow> fb
         | Some r \<Rightarrow>
             (case r_screen r of
                UI_SCREEN_IDLE \<Rightarrow> fb
              | UI_SCREEN_ENTRY \<Rightarrow> draw_bar fb (half (OLED_H - OLED_BAR_H)) (progress_permille r)
              | UI_SCREEN_GRANTED \<Rightarrow> oled_fb_text_centered fb (half (OLED_H - 7 * 5)) (Some STR_OK) 5
              | UI_SCREEN_DENIED \<Rightarrow>
                  (let fb = oled_fb_text_centered fb 10 (Some STR_DENIED) 1
                   in oled_fb_text_centered fb 34 (Some (attempts_line (attempts_used r) (attempts_max r))) 1)
              | UI_SCREEN_NOT_YET \<Rightarrow>
                  (let fb = oled_fb_text_centered fb 14 (Some STR_NOT_YET_1) 2
                   in oled_fb_text_centered fb 36 (Some STR_NOT_YET_2) 2)
              | UI_SCREEN_EXPIRED \<Rightarrow>
                  (let fb = oled_fb_text_centered fb 14 (Some STR_EXPIRED_1) 2
                   in oled_fb_text_centered fb 36 (Some STR_EXPIRED_2) 2)
              | UI_SCREEN_LOCKOUT \<Rightarrow>
                  (let fb = oled_fb_text_centered fb 2 (Some STR_LOCKED) 2;
                       fb = oled_fb_text_centered fb 22 (Some (oled_fmt_mmss (seconds_remaining r))) 2
                   in draw_bar fb (OLED_H - OLED_BAR_H - 2) (progress_permille r))
              | UI_SCREEN_NO_CLOCK \<Rightarrow>
                  (let fb = oled_fb_text_centered fb 14 (Some STR_NO_CLOCK_1) 1
                   in oled_fb_text_centered fb 36 (Some STR_NO_CLOCK_2) 1)))"


section \<open>The bar\<close>

definition bar_fill :: "u16 \<Rightarrow> int" where
  "bar_fill permille = OLED_BAR_INNER_W * min (uint permille) 1000 div 1000"

lemma bar_fill_word:
  "uint (word_of_int OLED_BAR_INNER_W * (ucast (if permille > 1000 then 1000 else permille) :: u32) div 1000)
     = bar_fill permille"
proof -
  define p :: u16 where "p = (if permille > 1000 then 1000 else permille)"
  have p: "uint p = min (uint permille) 1000" by (simp add: p_def word_less_def min_def)
  have "uint (ucast p :: u32) = uint p" by (simp add: uint_up_ucast is_up)
  moreover have "uint p \<le> 1000" "0 \<le> uint p" using p by simp_all
  ultimately have "uint (116 * (ucast p :: u32)) = 116 * uint p"
    by (simp add: uint_word_ariths)
  then show ?thesis unfolding p_def [symmetric] bar_fill_def p [symmetric]
    by (simp add: uint_div)
qed

lemma get_bar:
  assumes "fb_ok fb"
  shows "oled_fb_get (draw_bar fb y permille) x' y' \<longleftrightarrow>
    on_screen x' y' \<and> (on_outline OLED_BAR_X y OLED_BAR_W OLED_BAR_H x' y' \<or>
      in_rect (OLED_BAR_X + 2) (y + 2) (bar_fill permille) (OLED_BAR_H - 4) x' y') \<or> oled_fb_get fb x' y'"
  unfolding draw_bar_def Let_def bar_fill_word using assms by (auto simp: get_fill get_rect)

lemma bar_fill_range: "0 \<le> bar_fill permille" "bar_fill permille \<le> OLED_BAR_INNER_W"
proof -
  have "0 \<le> uint permille" by simp
  then show "0 \<le> bar_fill permille" by (simp add: bar_fill_def pos_imp_zdiv_nonneg_iff)
  have "116 * min (uint permille) 1000 div 1000 \<le> 116 * 1000 div 1000" by (intro zdiv_mono1) simp_all
  then show "bar_fill permille \<le> OLED_BAR_INNER_W" by (simp add: bar_fill_def)
qed


section \<open>Properties\<close>

text \<open>The entry screen is the bar and nothing else.  A pixel of it is lit exactly when it is on the
  outline of the bar or in the part of the inside that the remaining time fills, 116 pixels for the
  whole; so the frame depends on nothing but the progress.\<close>

theorem entry_screen_is_the_bar:
  assumes "r_screen r = UI_SCREEN_ENTRY"
  shows "oled_fb_get (oled_compose fb (Some r)) x y \<longleftrightarrow>
    on_outline 4 27 120 10 x y \<or> in_rect 6 29 (116 * min (uint (progress_permille r)) 1000 div 1000) 6 x y"
proof -
  have "oled_fb_get (oled_compose fb (Some r)) x y \<longleftrightarrow> on_screen x y \<and>
      (on_outline 4 27 120 10 x y \<or> in_rect 6 29 (bar_fill (progress_permille r)) 6 x y)"
    using assms by (simp add: oled_compose_def get_bar half_def)
  also have "\<dots> \<longleftrightarrow> on_outline 4 27 120 10 x y \<or> in_rect 6 29 (bar_fill (progress_permille r)) 6 x y"
    using bar_fill_range [of "progress_permille r"]
    by (auto simp: on_outline_def in_rect_def on_screen_def)
  finally show ?thesis by (simp add: bar_fill_def)
qed

theorem entry_screen_is_the_bar_witness:
  "oled_fb_get (oled_compose [] (Some \<lparr>r_screen = UI_SCREEN_ENTRY, progress_permille = 500, attempts_used = 0,
     attempts_max = 3, seconds_remaining = 0, panel_on = True\<rparr>)) 63 30"
  by (subst entry_screen_is_the_bar) (simp_all add: in_rect_def)

end
