(* ===== verification/Ssd1306.thy ===== *)
theory Ssd1306
  imports Oled_Fb Esp_Err
begin

text \<open>
  \<^verbatim>\<open>components/display_ssd1306/ssd1306.c\<close>: the panel behind the I2C bus, with the
  shadow of what it shows, so that only the pages that changed are sent.  What the panel does
  with a transfer is its data sheet's, and is the predicate \<open>panel_obeys\<close>.
\<close>

section \<open>Data\<close>

abbreviation CTRL_CMD :: u8 where "CTRL_CMD \<equiv> 0x00"
abbreviation CTRL_DATA :: u8 where "CTRL_DATA \<equiv> 0x40"

record ssd1306_config =
  address :: u8
  col_offset :: u8
  scl_hz :: u32

record 'b ssd1306 =
  panel_bus :: 'b
  panel_cfg :: ssd1306_config
  shadow :: oled_fb
  shadow_valid :: bool


section \<open>Operations\<close>

definition send_cmds :: "'b i2c \<Rightarrow> u8 list \<Rightarrow> 'b ssd1306 \<Rightarrow> 'b ssd1306 \<times> esp_err" where
  "send_cmds i cmds d =
     (if length cmds > 32 then (d, ESP_ERR_INVALID_SIZE)
      else (case transmit i (panel_bus d) (CTRL_CMD # cmds) of
              (b, ok) \<Rightarrow> (d\<lparr>panel_bus := b\<rparr>, if ok then ESP_OK else ESP_FAIL)))"

definition init_seq :: "u8 list" where
  "init_seq = [0xAE, 0xD5, 0x80, 0xA8, 0x3F, 0xD3, 0x00, 0x40, 0x8D, 0x14, 0x20, 0x02, 0xA1, 0xC8, 0xDA, 0x12,
     0x81, 0xCF, 0xD9, 0xF1, 0xDB, 0x40, 0xA4, 0xA6, 0xAF]"

definition ssd1306_init ::
  "'b i2c \<Rightarrow> esp_err \<Rightarrow> ssd1306_config option \<Rightarrow> 'b ssd1306 \<Rightarrow> 'b ssd1306 \<times> esp_err" where
  "ssd1306_init i add_device_err cfg d =
     (case cfg of
        None \<Rightarrow> (d, ESP_ERR_INVALID_ARG)
      | Some cfg \<Rightarrow>
          (let d = d\<lparr>panel_cfg := cfg\<rparr>
           in if add_device_err \<noteq> ESP_OK then (d, add_device_err)
              else (case send_cmds i init_seq d of
                      (d, err) \<Rightarrow> if err \<noteq> ESP_OK then (d, err) else (d\<lparr>shadow_valid := False\<rparr>, ESP_OK))))"

definition flush_page :: "'b i2c \<Rightarrow> oled_fb \<Rightarrow> nat \<Rightarrow> 'b ssd1306 \<Rightarrow> 'b ssd1306 \<times> esp_err" where
  "flush_page i fb page d =
     (let col = col_offset (panel_cfg d);
          addr = [0xB0 OR of_nat page, 0x00 OR (col AND 0x0F), 0x10 OR drop_bit 4 col];
          (d, err) = send_cmds i addr d
      in if err \<noteq> ESP_OK then (d, err)
         else (case transmit i (panel_bus d) (CTRL_DATA # fb_page fb page) of
                 (b, ok) \<Rightarrow> (d\<lparr>panel_bus := b\<rparr>, if ok then ESP_OK else ESP_FAIL)))"

text \<open>The loop over the pages, stopped by the first error.\<close>

fun flush_loop :: "'b i2c \<Rightarrow> oled_fb \<Rightarrow> u8 \<Rightarrow> nat list \<Rightarrow> 'b ssd1306 \<Rightarrow> 'b ssd1306 \<times> esp_err" where
  "flush_loop i fb dirty [] d = (d\<lparr>shadow := fb, shadow_valid := True\<rparr>, ESP_OK)"
| "flush_loop i fb dirty (p # ps) d =
     (if drop_bit p dirty AND 1 \<noteq> 0
      then (case flush_page i fb p d of
              (d, err) \<Rightarrow> if err \<noteq> ESP_OK then (d\<lparr>shadow_valid := False\<rparr>, err) else flush_loop i fb dirty ps d)
      else flush_loop i fb dirty ps d)"

definition ssd1306_flush :: "'b i2c \<Rightarrow> oled_fb option \<Rightarrow> 'b ssd1306 \<Rightarrow> 'b ssd1306 \<times> esp_err" where
  "ssd1306_flush i fb d =
     (case fb of
        None \<Rightarrow> (d, ESP_ERR_INVALID_ARG)
      | Some fb \<Rightarrow>
          (let dirty = (if shadow_valid d then oled_fb_dirty_pages (Some (shadow d)) (Some fb) else 0xFF)
           in if dirty = 0 then (d, ESP_OK) else flush_loop i fb dirty [0..<OLED_PAGES] d))"

definition ssd1306_invalidate :: "'b ssd1306 \<Rightarrow> 'b ssd1306" where
  "ssd1306_invalidate d = d\<lparr>shadow_valid := False\<rparr>"

definition ssd1306_power :: "'b i2c \<Rightarrow> bool \<Rightarrow> 'b ssd1306 \<Rightarrow> 'b ssd1306 \<times> esp_err" where
  "ssd1306_power i on d = send_cmds i [if on then 0xAF else 0xAE] d"

definition ssd1306_contrast :: "'b i2c \<Rightarrow> u8 \<Rightarrow> 'b ssd1306 \<Rightarrow> 'b ssd1306 \<times> esp_err" where
  "ssd1306_contrast i level d = send_cmds i [0x81, level] d"


section \<open>The panel\<close>

text \<open>A memory of pages and columns.  A command transfer never writes it; one that addresses a
  page and a column, followed by one with a row of data at most, writes the data there.\<close>

definition panel_obeys :: "'b i2c \<Rightarrow> ('b \<Rightarrow> nat \<Rightarrow> nat \<Rightarrow> u8) \<Rightarrow> bool" where
  "panel_obeys i ram \<longleftrightarrow>
     (\<forall>b cmds b' ok. transmit i b (CTRL_CMD # cmds) = (b', ok) \<longrightarrow> ram b' = ram b) \<and>
     (\<forall>b p col b1 data b2. p < 8 \<longrightarrow> length data \<le> 128 \<longrightarrow>
        transmit i b [CTRL_CMD, 0xB0 OR of_nat p, 0x00 OR (col AND 0x0F), 0x10 OR drop_bit 4 col] = (b1, True) \<longrightarrow>
        transmit i b1 (CTRL_DATA # data) = (b2, True) \<longrightarrow>
        ram b2 = (ram b)(p := (\<lambda>x. if unat col \<le> x \<and> x < unat col + length data then data ! (x - unat col)
                                   else ram b p x)))"

text \<open>A page of the panel shows that page of a frame.\<close>

definition page_shown :: "('b \<Rightarrow> nat \<Rightarrow> nat \<Rightarrow> u8) \<Rightarrow> 'b ssd1306 \<Rightarrow> oled_fb \<Rightarrow> nat \<Rightarrow> bool" where
  "page_shown ram d fb p \<longleftrightarrow>
     (\<forall>x<128. ram (panel_bus d) p (unat (col_offset (panel_cfg d)) + x) = fb_page fb p ! x)"

definition shadow_inv :: "('b \<Rightarrow> nat \<Rightarrow> nat \<Rightarrow> u8) \<Rightarrow> 'b ssd1306 \<Rightarrow> bool" where
  "shadow_inv ram d \<longleftrightarrow> (shadow_valid d \<longrightarrow> (\<forall>p<OLED_PAGES. page_shown ram d (shadow d) p))"

lemma length_fb_page: "fb_ok fb \<Longrightarrow> p < 8 \<Longrightarrow> length (fb_page fb p) = 128"
  by (simp add: fb_page_def fb_ok_def)

lemma panel_cmds: "panel_obeys i ram \<Longrightarrow> transmit i b (CTRL_CMD # cmds) = (b', ok) \<Longrightarrow> ram b' = ram b"
  unfolding panel_obeys_def by blast

lemma panel_page:
  "panel_obeys i ram \<Longrightarrow> p < 8 \<Longrightarrow> length data \<le> 128 \<Longrightarrow>
   transmit i b [CTRL_CMD, 0xB0 OR of_nat p, 0x00 OR (col AND 0x0F), 0x10 OR drop_bit 4 col] = (b1, True) \<Longrightarrow>
   transmit i b1 (CTRL_DATA # data) = (b2, True) \<Longrightarrow>
   ram b2 = (ram b)(p := (\<lambda>x. if unat col \<le> x \<and> x < unat col + length data then data ! (x - unat col) else ram b p x))"
  unfolding panel_obeys_def by blast

lemma send_cmds_keeps:
  assumes "panel_obeys i ram" "send_cmds i cmds d = (d', err)"
  shows "ram (panel_bus d') = ram (panel_bus d)" "d' = d\<lparr>panel_bus := panel_bus d'\<rparr>"
  using assms(2) by (auto simp: send_cmds_def split: prod.splits if_splits dest: panel_cmds [OF assms(1)])

lemma flush_page_shown:
  assumes "panel_obeys i ram" "flush_page i fb p d = (d', ESP_OK)" "fb_ok fb" "p < 8"
  shows "page_shown ram d' fb p" "q \<noteq> p \<Longrightarrow> page_shown ram d' g q = page_shown ram d g q"
    "d' = d\<lparr>panel_bus := panel_bus d'\<rparr>"
proof -
  let ?col = "col_offset (panel_cfg d)"
  obtain b1 ok1 where t1: "transmit i (panel_bus d) [CTRL_CMD, 0xB0 OR of_nat p, 0x00 OR (?col AND 0x0F), 0x10 OR drop_bit 4 ?col]
      = (b1, ok1)" by fastforce
  obtain b2 ok2 where t2: "transmit i b1 (CTRL_DATA # fb_page fb p) = (b2, ok2)" by fastforce
  have ok: "ok1" "ok2" "d' = d\<lparr>panel_bus := b2\<rparr>"
    using assms(2) t1 t2 by (auto simp: flush_page_def send_cmds_def Let_def split: if_splits)
  have r: "ram b2 = (ram (panel_bus d))(p := (\<lambda>x. if unat ?col \<le> x \<and> x < unat ?col + length (fb_page fb p)
      then fb_page fb p ! (x - unat ?col) else ram (panel_bus d) p x))"
    using t1 t2 ok(1,2) length_fb_page [OF assms(3,4)] by (intro panel_page [OF assms(1,4)]) simp_all
  show "page_shown ram d' fb p" using length_fb_page [OF assms(3,4)] by (simp add: page_shown_def ok(3) r)
  show "q \<noteq> p \<Longrightarrow> page_shown ram d' g q = page_shown ram d g q" by (simp add: page_shown_def ok(3) r)
  show "d' = d\<lparr>panel_bus := panel_bus d'\<rparr>" by (simp add: ok(3))
qed

text \<open>The mask of dirty pages.\<close>

lemma dirty_bit: "p < 8 \<Longrightarrow> drop_bit p (oled_fb_dirty_pages (Some a) (Some b)) AND 1 \<noteq> 0 \<longleftrightarrow> fb_page a p \<noteq> fb_page b p"
proof -
  have "bit (fold (\<lambda>p mask. if fb_page a p \<noteq> fb_page b p then mask OR push_bit p 1 else mask) ps (m :: u8)) k \<longleftrightarrow>
      bit m k \<or> k \<in> set ps \<and> k < 8 \<and> fb_page a k \<noteq> fb_page b k" for ps m k
    by (induction ps arbitrary: m) (auto simp: bit_simps)
  then show "p < 8 \<Longrightarrow> ?thesis" by (simp add: bit_of_get oled_fb_dirty_pages_def)
qed

lemma flush_loop_shown:
  assumes "panel_obeys i ram" "fb_ok fb" "distinct ps" "set ps \<subseteq> {..<8}"
    "flush_loop i fb dirty ps d = (d', err)"
    "\<forall>p<8. p \<notin> set ps \<or> drop_bit p dirty AND 1 = 0 \<longrightarrow> page_shown ram d fb p"
  shows "err = ESP_OK \<Longrightarrow> (\<forall>p<8. page_shown ram d' fb p) \<and> shadow d' = fb \<and> shadow_valid d'"
    "err \<noteq> ESP_OK \<Longrightarrow> \<not> shadow_valid d'"
proof -
  have "(err = ESP_OK \<longrightarrow> (\<forall>p<8. page_shown ram d' fb p) \<and> shadow d' = fb \<and> shadow_valid d') \<and>
      (err \<noteq> ESP_OK \<longrightarrow> \<not> shadow_valid d')"
    using assms(3-6)
  proof (induction ps arbitrary: d)
    case Nil
    then show ?case by (auto simp: page_shown_def)
  next
    case (Cons p ps)
    show ?case
    proof (cases "drop_bit p dirty AND 1 \<noteq> 0")
      case False
      then show ?thesis using Cons.prems by (intro Cons.IH [of d]) auto
    next
      case True
      obtain d1 err1 where f: "flush_page i fb p d = (d1, err1)" by fastforce
      show ?thesis
      proof (cases "err1 = ESP_OK")
        case ok: True
        have p8: "p < 8" using Cons.prems(2) by simp
        note F = flush_page_shown [OF assms(1) f [unfolded ok] assms(2) p8]
        have "\<forall>q<8. q \<notin> set ps \<or> drop_bit q dirty AND 1 = 0 \<longrightarrow> page_shown ram d1 fb q"
          using Cons.prems(4) F(1,2) by (metis set_ConsD)
        then show ?thesis using Cons.prems(1-3) True f ok by (intro Cons.IH [of d1]) auto
      next
        case False
        then show ?thesis using Cons.prems(3) True f by auto
      qed
    qed
  qed
  then show "err = ESP_OK \<Longrightarrow> (\<forall>p<8. page_shown ram d' fb p) \<and> shadow d' = fb \<and> shadow_valid d'"
    "err \<noteq> ESP_OK \<Longrightarrow> \<not> shadow_valid d'" by simp_all
qed

lemma page_shown_same: "fb_page a p = fb_page b p \<Longrightarrow> page_shown ram d a p = page_shown ram d b p"
  by (simp add: page_shown_def)

lemma flush_shown:
  assumes "panel_obeys i ram" "fb_ok fb" "shadow_inv ram d" "ssd1306_flush i (Some fb) d = (d', err)"
  shows "err = ESP_OK \<Longrightarrow> \<forall>p<8. page_shown ram d' fb p" "shadow_inv ram d'"
proof -
  define dirty where "dirty = (if shadow_valid d then oled_fb_dirty_pages (Some (shadow d)) (Some fb) else 0xFF)"
  have clean: "page_shown ram d fb p" if "p < 8" "drop_bit p dirty AND 1 = 0" for p
  proof (cases "shadow_valid d")
    case True
    then have "fb_page (shadow d) p = fb_page fb p" using that dirty_bit [of p "shadow d" fb] by (simp add: dirty_def)
    from page_shown_same [OF this, of ram d] show ?thesis using True assms(3) that(1) by (simp add: shadow_inv_def)
  next
    case False
    have "p \<in> {0, 1, 2, 3, 4, 5, 6, 7}" using that(1) by auto
    then have "drop_bit p (0xFF :: u8) AND 1 \<noteq> 0" by auto
    then show ?thesis using that(2) False by (simp add: dirty_def)
  qed
  have "(err = ESP_OK \<longrightarrow> (\<forall>p<8. page_shown ram d' fb p)) \<and> shadow_inv ram d'"
  proof (cases "dirty = 0")
    case True
    then have "d' = d" "\<forall>p<8. page_shown ram d fb p"
      using assms(4) clean by (auto simp: ssd1306_flush_def dirty_def [symmetric] Let_def)
    then show ?thesis using assms(3) by simp
  next
    case False
    then have f: "flush_loop i fb dirty [0..<8] d = (d', err)"
      using assms(4) by (simp add: ssd1306_flush_def dirty_def [symmetric] Let_def)
    have "distinct [0..<8]" "set [0..<8] \<subseteq> {..<8}" by auto
    from flush_loop_shown [OF assms(1,2) this f] clean
    show ?thesis by (cases "err = ESP_OK") (auto simp: shadow_inv_def)
  qed
  then show "err = ESP_OK \<Longrightarrow> \<forall>p<8. page_shown ram d' fb p" "shadow_inv ram d'" by simp_all
qed


text \<open>Everything that is done to the panel.\<close>

datatype panel_op = Flush "oled_fb option" | Invalidate | Power bool | Contrast u8

fun panel_step :: "'b i2c \<Rightarrow> 'b ssd1306 \<Rightarrow> panel_op \<Rightarrow> 'b ssd1306" where
  "panel_step i d (Flush fb) = fst (ssd1306_flush i fb d)"
| "panel_step i d Invalidate = ssd1306_invalidate d"
| "panel_step i d (Power on) = fst (ssd1306_power i on d)"
| "panel_step i d (Contrast level) = fst (ssd1306_contrast i level d)"

fun op_ok :: "panel_op \<Rightarrow> bool" where
  "op_ok (Flush (Some fb)) = fb_ok fb"
| "op_ok _ = True"

lemma send_cmds_inv:
  assumes "panel_obeys i ram" "shadow_inv ram d"
  shows "shadow_inv ram (fst (send_cmds i cmds d))"
proof -
  obtain d' err where s: "send_cmds i cmds d = (d', err)" by fastforce
  obtain b where "d' = d\<lparr>panel_bus := b\<rparr>" "ram b = ram (panel_bus d)"
    using send_cmds_keeps [OF assms(1) s] by metis
  with assms(2) show ?thesis by (simp add: s shadow_inv_def page_shown_def)
qed

lemma panel_step_inv:
  assumes "panel_obeys i ram" "shadow_inv ram d" "op_ok op"
  shows "shadow_inv ram (panel_step i d op)"
proof (cases op)
  case (Flush fb)
  show ?thesis
  proof (cases fb)
    case None
    then show ?thesis using assms(2) by (simp add: Flush ssd1306_flush_def)
  next
    case (Some g)
    with assms(3) Flush show ?thesis using flush_shown(2) [OF assms(1) _ assms(2) prod.collapse [symmetric], of g] by simp
  qed
next
  case Invalidate
  then show ?thesis by (simp add: ssd1306_invalidate_def shadow_inv_def)
next
  case (Power on)
  then show ?thesis using send_cmds_inv [OF assms(1,2)] by (simp add: ssd1306_power_def)
next
  case (Contrast level)
  then show ?thesis using send_cmds_inv [OF assms(1,2)] by (simp add: ssd1306_contrast_def)
qed

lemma panel_machine:
  "panel_obeys i ram \<Longrightarrow> machine (panel_step i) (shadow_inv ram) op_ok"
  by unfold_locales (rule panel_step_inv)


section \<open>Properties\<close>

text \<open>C29: the panel shows the frame.  However many frames, power and contrast commands went before, and
  whichever of them failed, after a flush that succeeds every page of the panel shows that page of
  the frame, although only the pages that differ from the shadow were sent.\<close>

theorem flush_shows_the_frame:
  assumes "panel_obeys i ram" "\<not> shadow_valid d" "list_all op_ok ops" "fb_ok fb"
    "ssd1306_flush i (Some fb) (foldl (panel_step i) d ops) = (d', ESP_OK)"
  shows "\<forall>p<OLED_PAGES. page_shown ram d' fb p"
proof -
  have "shadow_inv ram d" using assms(2) by (simp add: shadow_inv_def)
  from machine.run_inv [OF panel_machine [OF assms(1)] this assms(3)]
  show ?thesis using flush_shown(1) [OF assms(1,4) _ assms(5)] by simp
qed

text \<open>A panel that is its memory and its address.\<close>

definition page_of :: "u8 \<Rightarrow> nat" where
  "page_of c = unat (c AND 0x0F)"

definition column_of :: "u8 \<Rightarrow> u8 \<Rightarrow> nat" where
  "column_of lo hi = unat (lo OR push_bit 4 (hi AND 0x0F))"

lemma page_of: "p < 8 \<Longrightarrow> page_of (0xB0 OR of_nat p) = p"
proof -
  assume "p < 8"
  then have "p \<in> {0, 1, 2, 3, 4, 5, 6, 7}" by auto
  then show "page_of (0xB0 OR of_nat p) = p" by (auto simp: page_of_def)
qed

lemma column_of: "column_of (0x00 OR (col AND 0x0F)) (0x10 OR drop_bit 4 col) = unat col"
proof -
  have "(0x00 OR (col AND 0x0F)) OR push_bit 4 ((0x10 OR drop_bit 4 col) AND 0x0F) = col"
  proof (rule bit_word_eqI)
    fix n assume n: "n < LENGTH(8)"
    then have "n \<in> {0, 1, 2, 3, 4, 5, 6, 7}" by auto
    then show "bit ((0x00 OR (col AND 0x0F)) OR push_bit 4 ((0x10 OR drop_bit 4 col) AND 0x0F)) n = bit col n"
      by (auto simp: bit_simps)
  qed
  then show ?thesis by (simp only: column_of_def)
qed

fun demo_transmit :: "(nat \<Rightarrow> nat \<Rightarrow> u8) \<times> nat \<times> nat \<Rightarrow> u8 list \<Rightarrow> ((nat \<Rightarrow> nat \<Rightarrow> u8) \<times> nat \<times> nat) \<times> bool" where
  "demo_transmit (m, p, c) (ctrl # w) =
     (if ctrl = CTRL_CMD
      then (case w of [pg, lo, hi] \<Rightarrow> ((m, page_of pg, column_of lo hi), True) | _ \<Rightarrow> ((m, p, c), True))
      else ((m(p := (\<lambda>x. if c \<le> x \<and> x < c + length w then w ! (x - c) else m p x)), p, c), True))"
| "demo_transmit b [] = (b, False)"

definition demo_panel :: "((nat \<Rightarrow> nat \<Rightarrow> u8) \<times> nat \<times> nat) i2c" where
  "demo_panel = \<lparr>transmit_receive = (\<lambda>b w n. (b, None)), transmit = demo_transmit, probe = (\<lambda>b. (b, True))\<rparr>"

lemma demo_panel_obeys: "panel_obeys demo_panel fst"
  unfolding panel_obeys_def
proof (intro conjI allI impI)
  fix b cmds b' ok assume "transmit demo_panel b (CTRL_CMD # cmds) = (b', ok)"
  then show "fst b' = fst b" by (cases b) (auto simp: demo_panel_def split: list.splits)
next
  fix b p col b1 data b2 assume a: "p < (8 :: nat)"
    and "length data \<le> 128" and t:
    "transmit demo_panel b [CTRL_CMD, 0xB0 OR of_nat p, 0x00 OR (col AND 0x0F), 0x10 OR drop_bit 4 col] = (b1, True)"
    "transmit demo_panel b1 (CTRL_DATA # data) = (b2, True)"
  obtain m q c where b: "b = (m, q, c)" by (rule prod_cases3)
  have "b1 = (m, p, unat col)" using t(1)
    by (simp only: b demo_panel_def i2c.simps demo_transmit.simps if_True list.case page_of [OF a] column_of prod.inject simp_thms)
  then show "fst b2 = (fst b)(p := (\<lambda>x. if unat col \<le> x \<and> x < unat col + length data then data ! (x - unat col) else fst b p x))"
    using t(2) unfolding b fst_conv by (auto simp: demo_panel_def)
qed

definition demo_display :: "((nat \<Rightarrow> nat \<Rightarrow> u8) \<times> nat \<times> nat) ssd1306" where
  "demo_display = \<lparr>panel_bus = (\<lambda>_ _. 7, 0, 0), panel_cfg = \<lparr>address = 0x3C, col_offset = 0, scl_hz = 400000\<rparr>,
     shadow = [], shadow_valid = False\<rparr>"

lemma demo_flush_ok: "snd (ssd1306_flush demo_panel fb d) = ESP_OK \<or> fb = None"
proof -
  have pg: "snd (flush_page demo_panel fb p d) = ESP_OK" for fb p d
    by (cases "panel_bus d") (simp add: flush_page_def send_cmds_def demo_panel_def Let_def split_def split: list.split)
  have "snd (flush_loop demo_panel fb dirty ps d) = ESP_OK" for fb dirty ps d
  proof (induction ps arbitrary: d)
    case (Cons p ps)
    then show ?case using pg [of fb p d] by (auto simp: split_def)
  qed simp
  then show ?thesis by (cases fb) (auto simp: ssd1306_flush_def Let_def)
qed

theorem flush_shows_the_frame_witness:
  "page_shown fst (fst (ssd1306_flush demo_panel (Some (replicate 1024 0)) (foldl (panel_step demo_panel) demo_display
     [Power False, Flush (Some (replicate 1024 255)), Contrast 9]))) (replicate 1024 0) 3"
proof -
  let ?d = "foldl (panel_step demo_panel) demo_display [Power False, Flush (Some (replicate 1024 255)), Contrast 9]"
  have "ssd1306_flush demo_panel (Some (replicate 1024 0)) ?d = (fst (ssd1306_flush demo_panel (Some (replicate 1024 0)) ?d), ESP_OK)"
    using demo_flush_ok [of "Some (replicate 1024 0)" ?d] by (metis option.distinct(1) prod.collapse)
  from flush_shows_the_frame [OF demo_panel_obeys _ _ _ this] show ?thesis
    by (simp add: demo_display_def fb_ok_def)
qed

end
