(* ===== verification/Gate_Guard.thy ===== *)
theory Gate_Guard
  imports Cred_Check
begin

text \<open>
  \<^verbatim>\<open>main/gate_guard.c\<close>: what a failed credential check means for the build.  The credentials are
  the macros of \<^verbatim>\<open>admin_credentials.h\<close>, which is not in the repository, so they are data here.
  A production image that fails halts in an endless loop; that is \<open>None\<close>.
\<close>

record secrets =
  ADMIN_USERNAME :: string
  ADMIN_PASSWORD :: string
  PROV_AP_PASSWORD :: string
  SYNC_URL :: string
  SYNC_GATE_ID :: string
  SYNC_DELIVERY_KEY :: string
  TG_BOT_TOKEN :: string
  GATE_DEVICE_SALT :: string

definition report :: "cred_result \<Rightarrow> bool" where
  "report r \<longleftrightarrow> r = CRED_OK"

definition gate_guard_check :: "bool \<Rightarrow> secrets \<Rightarrow> bool option" where
  "gate_guard_check dev_build s =
     (let ok = True;
          ok = (ok \<and> report (cred_check_admin_password (Some (ADMIN_PASSWORD s))));
          ok = (ok \<and> report (cred_check_ap_password (Some (PROV_AP_PASSWORD s))));
          ok = (ok \<and> report (cred_check_delivery_key (Some (SYNC_DELIVERY_KEY s))));
          ok = (ok \<and> report (cred_check_device_salt (Some (GATE_DEVICE_SALT s))));
          ok = (ok \<and> report (cred_check_identity (Some (SYNC_GATE_ID s)) (Some (SYNC_URL s))))
      in if ok then Some True else if dev_build then Some False else None)"

text \<open>A production image runs only with credentials that all pass.\<close>

lemma guard_passes:
  "gate_guard_check dev s = Some r \<Longrightarrow> dev \<or>
     cred_check_admin_password (Some (ADMIN_PASSWORD s)) = CRED_OK \<and>
     cred_check_ap_password (Some (PROV_AP_PASSWORD s)) = CRED_OK \<and>
     cred_check_delivery_key (Some (SYNC_DELIVERY_KEY s)) = CRED_OK \<and>
     cred_check_device_salt (Some (GATE_DEVICE_SALT s)) = CRED_OK"
  by (auto simp: gate_guard_check_def report_def Let_def split: if_splits)

end
