(* ===== verification/App_Main.thy ===== *)
theory App_Main
  imports Gate_Ctrl Keypad Lock_Logic Persist_Store Sync_Client Tg_Client Prov_Http Rtc_Ds3231 Status_Led
    Oled_Screens Ssd1306 Gate_Guard "HOL-Library.Monad_Syntax"
begin

text \<open>
  \<^verbatim>\<open>main/app_main.c\<close>: the boot and the main loop, which read the clocks, move events between the
  components and touch the hardware.

  One record holds the statics of the file and of every component.  The three devices on the I2C
  bus answer at addresses of their own, so each driver carries the state of its device.  What the
  platform answers is data: the board (radio, buses, stores, hash, HMAC, JSON) is fixed, the rest
  is an argument of the call it belongs to.  Logging, the heap and version messages, the task
  watchdog and the delay at the end of a turn are left out.
\<close>

section \<open>State\<close>

abbreviation LOOP_PERIOD_MS :: u32 where "LOOP_PERIOD_MS \<equiv> 20"
abbreviation PIN_PROV_BUTTON :: int where "PIN_PROV_BUTTON \<equiv> 21"
abbreviation LOCK_DRIVER_DEFAULT_CONFIG :: lock_driver_config where
  "LOCK_DRIVER_DEFAULT_CONFIG \<equiv> \<lparr>active_high = True, cfg_pulse_ms = LOCK_DEFAULT_PULSE_MS\<rparr>"
abbreviation SSD1306_DEFAULT_CONFIG :: ssd1306_config where
  "SSD1306_DEFAULT_CONFIG \<equiv> \<lparr>address = 0x3C, col_offset = 0, scl_hz = 400000\<rparr>"

text \<open>The board: everything outside the repository that stays the same.\<close>

record ('w, 's, 'e, 'r, 'd, 'n) board =
  radio_ops :: "'w wifi_ops"
  creds_ops :: "'s str_ops"
  eeprom_i2c :: "'e i2c"
  rtc_i2c :: "'r i2c"
  panel_i2c :: "'d i2c"
  num_ops :: "'n nvs_ops"
  sha256 :: "u8 list \<Rightarrow> u8 list"
  hmac_sha256 :: hmac_fn
  cJSON :: json_fn

text \<open>\<open>a_gate\<close> is \<open>s_gate\<close> with the \<open>s_access\<close> and \<open>s_ui\<close> it points to; \<open>a_sync\<close> includes \<open>s_sync\<close>.\<close>

record ('w, 's, 'e, 'r, 'd, 'n) app =
  a_gate :: gate_ctrl
  a_boot_count :: u32
  a_border_until_ms :: u32
  a_salt :: string
  a_sync :: "'n sync_client"
  a_tg :: "'n tg_client"
  a_keypad :: keypad
  a_lock :: lock_driver
  a_persist :: "'e persist"
  a_rtc :: "'r rtc"
  a_portal :: "'w portal"
  a_creds :: 's
  a_led :: led_driver
  a_panel :: "'d ssd1306"
  a_fb :: oled_fb
  a_oled_ok :: bool
  a_panel_on :: bool

abbreviation access :: "('w, 's, 'e, 'r, 'd, 'n) app \<Rightarrow> ac_ctx" where
  "access a \<equiv> g_ac (a_gate a)"

abbreviation link :: "('w, 's, 'e, 'r, 'd, 'n) app \<Rightarrow> 'w net_link" where
  "link a \<equiv> p_link (a_portal a)"

abbreviation set_access :: "ac_ctx \<Rightarrow> ('w, 's, 'e, 'r, 'd, 'n) app \<Rightarrow> ('w, 's, 'e, 'r, 'd, 'n) app" where
  "set_access ac a \<equiv> a\<lparr>a_gate := (a_gate a)\<lparr>g_ac := ac\<rparr>\<rparr>"


section \<open>The calls of the other tasks\<close>

text \<open>SHA-256 of the characters and the salt.\<close>

definition hash_code :: "(u8 list \<Rightarrow> u8 list) \<Rightarrow> string \<Rightarrow> string \<Rightarrow> u8 list" where
  "hash_code sha salt code = sha (map byte_of (cstr code) @ map byte_of salt)"

definition gate_app_hash :: "('w, 's, 'e, 'r, 'd, 'n) board \<Rightarrow> ('w, 's, 'e, 'r, 'd, 'n) app \<Rightarrow> string \<Rightarrow> u8 list" where
  "gate_app_hash B a code = hash_code (sha256 B) (a_salt a) code"

text \<open>The callback of the link when SNTP has the time.\<close>

definition on_network_time ::
  "('w, 's, 'e, 'r, 'd, 'n) board \<Rightarrow> i64 \<Rightarrow> ('w, 's, 'e, 'r, 'd, 'n) app \<Rightarrow> ('w, 's, 'e, 'r, 'd, 'n) app" where
  "on_network_time B secs a = a\<lparr>a_rtc := fst (rtc_ds3231_set_time (rtc_i2c B) secs (a_rtc a))\<rparr>"

definition gate_app_set_clock_trusted ::
  "bool \<Rightarrow> ('w, 's, 'e, 'r, 'd, 'n) app \<Rightarrow> ('w, 's, 'e, 'r, 'd, 'n) app" where
  "gate_app_set_clock_trusted trusted a =
     a\<lparr>a_gate := (a_gate a)\<lparr>g_ac := (access a)\<lparr>ac_clock_trusted := trusted\<rparr>,
         g_ui := ui_set_clock_trusted (g_ui (a_gate a)) trusted\<rparr>\<rparr>"

definition gate_app_show_border :: "u32 \<Rightarrow> u32 \<Rightarrow> ('w, 's, 'e, 'r, 'd, 'n) app \<Rightarrow> ('w, 's, 'e, 'r, 'd, 'n) app" where
  "gate_app_show_border now_ms duration_ms a = a\<lparr>a_border_until_ms := now_ms + duration_ms\<rparr>"


section \<open>Verdicts\<close>

definition attempts_record :: "('w, 's, 'e, 'r, 'd, 'n) app \<Rightarrow> pr_state" where
  "attempts_record a = \<lparr>attempts = failed_attempts (access a),
     pr_lockout_until = word_of_int (lockout_until (access a)), boot_count = a_boot_count a\<rparr>"

definition persist_attempts_now ::
  "('w, 's, 'e, 'r, 'd, 'n) board \<Rightarrow> ('w, 's, 'e, 'r, 'd, 'n) app \<Rightarrow> ('w, 's, 'e, 'r, 'd, 'n) app" where
  "persist_attempts_now B a =
     a\<lparr>a_persist := fst (persist_save (eeprom_i2c B) (a_persist a) (Some (attempts_record a)))\<rparr>"

text \<open>\<open>open_ms\<close> is what the lock driver reads from the millisecond counter.\<close>

definition handle ::
  "('w, 's, 'e, 'r, 'd, 'n) board \<Rightarrow> u32 \<Rightarrow> gate_out \<Rightarrow> ('w, 's, 'e, 'r, 'd, 'n) app \<Rightarrow> ('w, 's, 'e, 'r, 'd, 'n) app" where
  "handle B open_ms out a =
     (let a = (if open_lock out then a\<lparr>a_lock := fst (lock_driver_open (a_lock a) open_ms)\<rparr> else a)
      in if persist_attempts out then persist_attempts_now B a else a)"


section \<open>One turn of the main loop\<close>

text \<open>
  What a turn reads: the two clocks at its start, the counter when the lock is opened and when it
  ticks, the level of the button, and what the platform answers if the portal goes up or down.
  The queue holds at most eight events, so a turn completes at most one entry of nine keys and one
  reading for opening is enough.
\<close>

record turn_env =
  t_now :: ui_now
  t_open_ms :: u32
  t_tick_ms :: u32
  t_button :: int
  t_portal :: portal_env

definition on_event ::
  "('w, 's, 'e, 'r, 'd, 'n) board \<Rightarrow> turn_env \<Rightarrow> ('w, 's, 'e, 'r, 'd, 'n) app \<Rightarrow> kp_event \<Rightarrow> ('w, 's, 'e, 'r, 'd, 'n) app" where
  "on_event B e a ev =
     (let (g, out) = (case ev of
                        KP_EV_LONG_PRESS k \<Rightarrow> gate_on_long_press (a_gate a) (t_now e)
                      | KP_EV_PRESS k \<Rightarrow> gate_on_key (hash_code (sha256 B) (a_salt a)) (a_gate a) k (t_now e))
      in handle B (t_open_ms e) out (a\<lparr>a_gate := g\<rparr>))"

definition gate_part ::
  "('w, 's, 'e, 'r, 'd, 'n) board \<Rightarrow> turn_env \<Rightarrow> ('w, 's, 'e, 'r, 'd, 'n) app \<Rightarrow> ('w, 's, 'e, 'r, 'd, 'n) app" where
  "gate_part B e a =
     (let (k, evs) = drain (a_keypad a);
          a = foldl (on_event B e) (a\<lparr>a_keypad := k\<rparr>) evs;
          (g, out) = gate_tick (a_gate a) (t_now e);
          a = handle B (t_open_ms e) out (a\<lparr>a_gate := g\<rparr>)
      in a\<lparr>a_lock := lock_driver_tick (a_lock a) (t_tick_ms e)\<rparr>)"

definition portal_part ::
  "('w, 's, 'e, 'r, 'd, 'n) board \<Rightarrow> turn_env \<Rightarrow> ('w, 's, 'e, 'r, 'd, 'n) app \<Rightarrow> ('w, 's, 'e, 'r, 'd, 'n) app" where
  "portal_part B e a =
     (let (p, evt) = wifi_prov_tick (radio_ops B) (t_portal e) (t_button e) (ms (t_now e)) (a_portal a);
          a = a\<lparr>a_portal := p\<rparr>;
          a = (case evt of
                 WIFI_PROV_EVT_CLOSED \<Rightarrow> set_access (fst (ac_revoke_transient (access a))) a
               | WIFI_PROV_EVT_OPENED \<Rightarrow> a
               | WIFI_PROV_EVT_NONE \<Rightarrow> a)
      in a\<lparr>a_portal := (a_portal a)\<lparr>p_link := net_link_tick (radio_ops B) (ms (t_now e)) (link a)\<rparr>\<rparr>)"

definition led_inputs_of :: "ui_now \<Rightarrow> ('w, 's, 'e, 'r, 'd, 'n) app \<Rightarrow> led_inputs" where
  "led_inputs_of now a = \<lparr>online = net_link_sta_connected (link a),
     sync_stale = sync_is_stale (sctx (a_sync a)) (ms now),
     portal_open = wifi_prov_is_open (a_portal a), led_clock_trusted = ac_clock_trusted (access a)\<rparr>"

definition led_part :: "turn_env \<Rightarrow> ('w, 's, 'e, 'r, 'd, 'n) app \<Rightarrow> ('w, 's, 'e, 'r, 'd, 'n) app" where
  "led_part e a = a\<lparr>a_led := status_led_tick (Some (led_inputs_of (t_now e) a)) (ms (t_now e)) (a_led a)\<rparr>"

text \<open>The panel, outside the lock, from the render taken inside it.\<close>

definition show_panel ::
  "('w, 's, 'e, 'r, 'd, 'n) board \<Rightarrow> ui_now \<Rightarrow> ui_render_t \<Rightarrow> ('w, 's, 'e, 'r, 'd, 'n) app \<Rightarrow> ('w, 's, 'e, 'r, 'd, 'n) app" where
  "show_panel B now r a =
     (if \<not> a_oled_ok a then a
      else
        (let border = (0 < sint (a_border_until_ms a - ms now));
             fb = (if border then oled_fb_border (oled_fb_clear (a_fb a)) else oled_compose (a_fb a) (Some r));
             want_on = (border \<or> panel_on r);
             a = a\<lparr>a_fb := fb\<rparr>
         in if want_on
            then
              (let (d, err) = ssd1306_flush (panel_i2c B) (Some fb) (a_panel a);
                   d = (if err \<noteq> ESP_OK then ssd1306_invalidate d else d)
               in if \<not> a_panel_on a
                  then (let (d, err) = ssd1306_power (panel_i2c B) True d
                        in a\<lparr>a_panel := d, a_panel_on := (err = ESP_OK)\<rparr>)
                  else a\<lparr>a_panel := d\<rparr>)
            else if a_panel_on a
            then (let (d, err) = ssd1306_power (panel_i2c B) False (a_panel a)
                  in a\<lparr>a_panel := d, a_panel_on := (err \<noteq> ESP_OK)\<rparr>)
            else a))"

definition main_turn ::
  "('w, 's, 'e, 'r, 'd, 'n) board \<Rightarrow> turn_env \<Rightarrow> ('w, 's, 'e, 'r, 'd, 'n) app \<Rightarrow> ('w, 's, 'e, 'r, 'd, 'n) app" where
  "main_turn B e a =
     (let a = led_part e (portal_part B e (gate_part B e a));
          r = ui_render (g_ui (a_gate a)) (access a) (t_now e)
      in show_panel B (t_now e) r a)"


section \<open>Boot\<close>

text \<open>The clock of the system is set when the chip has a plausible time; it is trusted then.\<close>

definition boot_clock ::
  "('w, 's, 'e, 'r, 'd, 'n) board \<Rightarrow> bool \<Rightarrow> ('w, 's, 'e, 'r, 'd, 'n) app \<Rightarrow> ('w, 's, 'e, 'r, 'd, 'n) app \<times> i64 option" where
  "boot_clock B ok a =
     (let (r, err) = rtc_ds3231_init (rtc_i2c B) ok (a_rtc a)
      in if err \<noteq> ESP_OK then (a\<lparr>a_rtc := r\<rparr>, None)
         else (case rtc_ds3231_get_time (rtc_i2c B) r of
                 (r, Inl _) \<Rightarrow> (a\<lparr>a_rtc := r\<rparr>, None)
               | (r, Inr secs) \<Rightarrow> (a\<lparr>a_rtc := r\<rparr>, Some secs)))"

definition boot_persist ::
  "('w, 's, 'e, 'r, 'd, 'n) board \<Rightarrow> bool \<Rightarrow> ('w, 's, 'e, 'r, 'd, 'n) app \<Rightarrow> ('w, 's, 'e, 'r, 'd, 'n) app" where
  "boot_persist B ok a =
     (let (p, err) = persist_init (eeprom_i2c B) ok (a_persist a);
          a = a\<lparr>a_persist := p\<rparr>
      in if err \<noteq> ESP_OK then a\<lparr>a_boot_count := 1\<rparr>
         else
           (let a = (case persist_load p of
                       Some st \<Rightarrow>
                         set_access (ac_restore_attempts (access a) (attempts st) (uint (pr_lockout_until st)))
                           (a\<lparr>a_boot_count := boot_count st + 1\<rparr>)
                     | None \<Rightarrow> a\<lparr>a_boot_count := 1\<rparr>);
                (p, ac, _) = persist_codes_load (eeprom_i2c B) (a_persist a) (access a)
            in persist_attempts_now B (set_access ac (a\<lparr>a_persist := p\<rparr>))))"

definition boot_panel ::
  "('w, 's, 'e, 'r, 'd, 'n) board \<Rightarrow> esp_err \<Rightarrow> ('w, 's, 'e, 'r, 'd, 'n) app \<Rightarrow> ('w, 's, 'e, 'r, 'd, 'n) app" where
  "boot_panel B add_err a =
     (case ssd1306_init (panel_i2c B) add_err (Some SSD1306_DEFAULT_CONFIG) (a_panel a) of
        (d, err) \<Rightarrow>
          (let a = a\<lparr>a_panel := d, a_oled_ok := (err = ESP_OK), a_panel_on := False\<rparr>
           in if \<not> a_oled_ok a then a
              else
                (let fb = oled_fb_clear (a_fb a);
                     d = fst (ssd1306_flush (panel_i2c B) (Some fb) d);
                     d = fst (ssd1306_power (panel_i2c B) False d)
                 in a\<lparr>a_panel := d, a_fb := fb\<rparr>)))"

text \<open>The configuration of the build, and what the platform answers at boot.\<close>

record kconfig =
  DEV_CONSOLE :: bool
  MAX_FAILED_ATTEMPTS :: u8
  LOCKOUT_SECONDS :: i32

record main_env =
  b_bus_err :: esp_err
  b_rtc_added :: bool
  b_eeprom_added :: bool
  b_panel_added :: esp_err
  b_lock_gpio_ok :: bool
  b_keypad :: keypad_env
  b_net :: boot_env
  b_button_err :: esp_err
  b_ms :: u32
  b_sync_task_made :: bool
  b_tg_task_made :: bool
  b_led_err :: esp_err
  b_wdt_err :: esp_err

definition error_check :: "esp_err \<Rightarrow> unit option" where
  "error_check err = (if err = ESP_OK then Some () else None)"

definition portal_config :: "secrets \<Rightarrow> wifi_prov_config" where
  "portal_config s = \<lparr>button_gpio = PIN_PROV_BUTTON, ap_password_cfg = Some (PROV_AP_PASSWORD s),
     admin_user = Some (ADMIN_USERNAME s), admin_password = Some (ADMIN_PASSWORD s)\<rparr>"

definition sync_config :: "secrets \<Rightarrow> sync_client_config" where
  "sync_config s = \<lparr>cfg_url = Some (SYNC_URL s), cfg_gate_id = Some (SYNC_GATE_ID s),
     cfg_delivery_key = Some (SYNC_DELIVERY_KEY s), cfg_lock = True, cfg_unlock = True, cfg_online = True,
     cfg_now_ms = True\<rparr>"

definition tg_config :: "secrets \<Rightarrow> tg_client_config" where
  "tg_config s = \<lparr>cfg_bot_token = Some (TG_BOT_TOKEN s), tg_cfg_key = Some (SYNC_DELIVERY_KEY s),
     tg_cfg_lock = True, tg_cfg_unlock = True, tg_cfg_online = True, tg_cfg_now_ms = True\<rparr>"

text \<open>The two delivery tasks.\<close>

definition boot_tasks ::
  "('w, 's, 'e, 'r, 'd, 'n) board \<Rightarrow> secrets \<Rightarrow> main_env \<Rightarrow> ('w, 's, 'e, 'r, 'd, 'n) app \<Rightarrow> ('w, 's, 'e, 'r, 'd, 'n) app" where
  "boot_tasks B s e a =
     (let c = fst (sync_client_init (num_ops B) (sync_config s) (a_sync a));
          c = fst (sync_client_start c (b_sync_task_made e));
          (t, err) = tg_client_init (num_ops B) (tg_config s) (b_ms e) (a_tg a);
          t = (if err = ESP_OK then fst (tg_client_start t (b_tg_task_made e)) else t)
      in a\<lparr>a_sync := c, a_tg := t\<rparr>)"

text \<open>\<open>None\<close> is an image that halts in the guard or aborts in \<open>ESP_ERROR_CHECK\<close>.\<close>

definition app_boot ::
  "('w, 's, 'e, 'r, 'd, 'n) board \<Rightarrow> kconfig \<Rightarrow> secrets \<Rightarrow> main_env \<Rightarrow> ('w, 's, 'e, 'r, 'd, 'n) app \<Rightarrow>
     ('w, 's, 'e, 'r, 'd, 'n) app option" where
  "app_boot B cfg s e a = do {
     gate_guard_check (DEV_CONSOLE cfg) s;
     error_check (b_bus_err e);
     let a = set_access (ac_init (MAX_FAILED_ATTEMPTS cfg) (LOCKOUT_SECONDS cfg)) (a\<lparr>a_salt := GATE_DEVICE_SALT s\<rparr>);
     let (a, clock) = boot_clock B (b_rtc_added e) a;
     let a = boot_persist B (b_eeprom_added e) a;
     let a = gate_app_set_clock_trusted (clock \<noteq> None) (a\<lparr>a_gate := (a_gate a)\<lparr>g_ui := ui_init\<rparr>\<rparr>);
     let a = boot_panel B (b_panel_added e) (a\<lparr>a_gate := gate_init (access a) (g_ui (a_gate a))\<rparr>);
     let (lock, lock_ok) = lock_driver_init (b_lock_gpio_ok e) (Some LOCK_DRIVER_DEFAULT_CONFIG) (a_lock a);
     (if lock_ok then Some () else None);
     (k, err) \<leftarrow> keypad_start (b_keypad e) (Some KEYPAD_DEFAULT_CONFIG) True (a_keypad a);
     error_check err;
     (p, err) \<leftarrow> wifi_prov_init (b_net e) (b_button_err e) (portal_config s) (a_portal a);
     error_check err;
     (l, err) \<leftarrow> net_link_init (b_net e) True (p_link p);
     error_check err;
     let l = fst (net_link_sta_start (radio_ops B) (creds_ops B) (a_creds a) l);
     let a = boot_tasks B s e (a\<lparr>a_lock := lock, a_keypad := k, a_portal := p\<lparr>p_link := l\<rparr>\<rparr>);
     let a = a\<lparr>a_led := fst (status_led_init (b_led_err e) (a_led a))\<rparr>;
     error_check (b_wdt_err e);
     Some a
   }"

end
