(* ===== verification/Code_Origin.thy ===== *)
theory Code_Origin
  imports Sync_Client Tg_Client
begin

text \<open>
  Where the codes in the table come from.  The hashes the table holds, what each operation adds to
  them, and which hashes the two delivery channels can bring: those that a text authenticated
  under the delivery key spells, as read off the text itself.
\<close>

section \<open>The hashes of a table\<close>

definition table_hashes :: "ac_ctx \<Rightarrow> u8 list set" where
  "table_hashes ctx = slot_hash ` {s \<in> set (slots ctx). occupied s}"

lemma table_hashes_slots: "slots a = slots b \<Longrightarrow> table_hashes a = table_hashes b"
  by (simp add: table_hashes_def)

lemma table_hashes_clear: "table_hashes (fst (clear_slots P ctx)) \<subseteq> table_hashes ctx"
  by (auto simp: table_hashes_def clear_slots_def)

lemma table_hashes_upsert:
  "table_hashes (fst (upsert ctx (Some i) (Some h) f u tr)) \<subseteq> insert (take AC_HASH_LEN h) (table_hashes ctx)"
proof -
  have "set (xs[k := s]) \<subseteq> insert s (set xs)" for xs :: "ac_slot list" and k s
    by (rule set_update_subset_insert)
  then show ?thesis
    by (fastforce simp: table_hashes_def upsert_def Let_def split: option.splits if_splits)
qed

lemma table_hashes_revoke: "table_hashes (fst (ac_revoke ctx i)) \<subseteq> table_hashes ctx"
proof -
  have "set ((slots ctx)[k := zero_slot]) \<subseteq> insert zero_slot (set (slots ctx))" for k
    by (rule set_update_subset_insert)
  then show ?thesis
    by (fastforce simp: table_hashes_def ac_revoke_def split: option.splits)
qed

lemma table_hashes_dropped: "table_hashes (dropped ctx) \<subseteq> table_hashes ctx"
  by (auto simp: table_hashes_def drop_guest_def split: if_splits)

lemma table_entry_hash: "ac_inv ctx \<Longrightarrow> ac_table ctx k = Some (h, f, u, tr) \<Longrightarrow> h \<in> table_hashes ctx"
  by (fastforce simp: ac_table_Some table_hashes_def names_slot_def entry_of_def ac_inv_def)


section \<open>The polled set\<close>

lemma table_hashes_upserts:
  "table_hashes (fst (upsert_loop ctx es ov)) \<subseteq> table_hashes ctx \<union> (take AC_HASH_LEN \<circ> entry_hash) ` set es"
proof (induction es arbitrary: ctx ov)
  case (Cons e es)
  obtain ctx1 r where u: "ac_upsert ctx (Some (entry_id e)) (Some (entry_hash e)) (entry_from e) (entry_until e) = (ctx1, r)"
    by fastforce
  have "table_hashes ctx1 \<subseteq> insert (take AC_HASH_LEN (entry_hash e)) (table_hashes ctx)"
    using u table_hashes_upsert [of ctx "entry_id e"] by (metis ac_upsert_def fst_conv)
  with Cons.IH [of ctx1] show ?case by (fastforce simp: u)
qed simp

lemma good_upserts:
  assumes "ac_good ctx" "\<forall>e\<in>set es. entry_wf e \<and> \<not> entry_refused e"
  shows "ac_good (fst (upsert_loop ctx es ov))"
  using assms
proof (induction es arbitrary: ctx ov)
  case (Cons e es)
  have f: "id_fits (cstr (entry_id e))" "length (entry_hash e) = AC_HASH_LEN"
    using Cons.prems(2) backend_id_fits by (auto simp: entry_refused_def entry_wf_def split: if_splits)
  have "ac_good (fst (ac_upsert ctx (Some (entry_id e)) (Some (entry_hash e)) (entry_from e) (entry_until e)))"
    unfolding ac_upsert_def upsert_cstr [of _ "entry_id e"]
    using ac_good_upsert [OF Cons.prems(1) f] by simp
  with Cons show ?case by (simp add: split_def Let_def)
qed simp

text \<open>
  The hashes an answer of the server can bring, read off its text and not through the parser: the
  text is a region, the word \<open>mac\<close> and the digits of the MAC of that region under the delivery
  key, then nothing but line ends; the region is addressed to this gate, carries a generation
  that is not older than the last one applied, and has a line that spells the hash.
\<close>

definition sync_brings :: "hmac_fn \<Rightarrow> http_fn \<Rightarrow> 'n sync_client \<Rightarrow> u8 list set" where
  "sync_brings hmac http c = {h. s_key_ok c \<and> (\<exists>body region digest tail gen e.
     sync_fetch http c = Inr body \<and> cstr body = region @ ''mac '' @ hex_text digest @ tail \<and>
     set tail \<subseteq> {LF, CR} \<and> hmac (s_key c) region = Some digest \<and>
     set_says region (gate_id c) gen e \<and> generation (sctx c) \<le> gen \<and> h = entry_hash e)}"

lemma accepted_is_brought:
  assumes "hmac_sized hmac" "s_key_ok c" "sync_fetch http c = Inr body"
    "sync_parse (Some body) (Some (gate_id c)) (sync_compute_mac hmac c) zero_set = (SYNC_PARSE_OK, st)"
    "set_acceptable (sctx c) st" "e \<in> set (set_used st)"
  shows "entry_hash e \<in> sync_brings hmac http c"
proof (rule sync_parse_signed [OF sync_mac_fills [OF assms(1)] assms(4)])
  fix region tail d assume r: "cstr body = region @ ''mac '' @ take 64 d @ tail" "set tail \<subseteq> {LF, CR}"
    "sync_compute_mac hmac c region = Some d" "parse_region region (gate_id c) zero_set = (SYNC_PARSE_OK, st)"
  obtain digest where d: "hmac (s_key c) region = Some digest" "d = hex_text digest @ [NUL]"
    using r(3) assms(2) by (auto simp: sync_compute_mac_def)
  then have "take 64 d = hex_text digest" using assms(1) by (simp add: hmac_sized_def)
  moreover have "set_says region (gate_id c) (set_generation st) e" by (rule parse_region_says [OF r(4) assms(6)])
  moreover have "generation (sctx c) \<le> set_generation st" using assms(5) by (simp add: set_acceptable_def)
  ultimately show ?thesis using assms(2,3) r(1,2) d(1) unfolding sync_brings_def by fastforce
qed

lemma parsed_sound:
  assumes "hmac_sized hmac" "sync_parse (Some body) (Some g) (sync_compute_mac hmac c) zero_set = (SYNC_PARSE_OK, st)"
  shows "set_sound st"
  using sync_parse_signed [OF sync_mac_fills [OF assms(1)] assms(2)] parse_region_sound by metis

lemma used_wf: "set_sound st \<Longrightarrow> \<forall>e\<in>set (set_used st). entry_wf e \<and> \<not> entry_refused e"
  by (auto simp: set_sound_def set_wf_def set_used_def dest: in_set_takeD)

lemma do_sync_table:
  assumes "hmac_sized hmac" "ac_good table"
  shows "ac_good (fst (snd (do_sync hmac N http c table t)))"
    "table_hashes (fst (snd (do_sync hmac N http c table t))) \<subseteq> table_hashes table \<union> sync_brings hmac http c"
proof -
  let ?t = "fst (snd (do_sync hmac N http c table t))"
  have "ac_good ?t \<and> table_hashes ?t \<subseteq> table_hashes table \<union> sync_brings hmac http c"
  proof (cases rule: do_sync_cases [of hmac N http c table t])
    case kept
    then show ?thesis using assms(2) by auto
  next
    case (applied body st)
    have sound: "set_sound st" using parsed_sound [OF assms(1) applied(3)] .
    have inv: "ac_inv table" using assms(2) by (simp add: ac_good_def)
    have d: "ac_good (dropped table)"
      using ac_good_shrink [OF assms(2) dropped_inv [OF inv]] by (simp add: dropped_table [OF inv] transients_sub)
    have "?t = fst (upsert_loop (dropped table) (set_used st) False)"
      using applied(4,6) by (simp add: sync_apply_accepted upsert_loop_install)
    moreover have "(take AC_HASH_LEN \<circ> entry_hash) ` set (set_used st) \<subseteq> sync_brings hmac http c"
      using accepted_is_brought [OF assms(1) applied(1-4)] used_wf [OF sound] by (fastforce simp: entry_wf_def)
    moreover note good_upserts [OF d used_wf [OF sound], of False]
    moreover note table_hashes_upserts [of "dropped table" "set_used st" False]
    moreover note table_hashes_dropped [of table]
    ultimately show ?thesis by simp blast
  qed
  then show "ac_good ?t" "table_hashes ?t \<subseteq> table_hashes table \<union> sync_brings hmac http c" by simp_all
qed

lemma sync_turn_table: "snd (sync_task_turn hmac N http on t c table) \<in> {table, fst (snd (do_sync hmac N http c table t))}"
  by (simp add: sync_task_turn_def split_def Let_def)

lemma poll_table:
  assumes "hmac_sized hmac" "ac_good table"
  shows "ac_good (snd (sync_task_turn hmac N http on t c table))"
    "table_hashes (snd (sync_task_turn hmac N http on t c table)) \<subseteq> table_hashes table \<union> sync_brings hmac http c"
  using do_sync_table [OF assms, of N http c t] sync_turn_table [of hmac N http on t c table] assms(2) by auto


section \<open>The courier\<close>

text \<open>
  The hashes a reply of the bot API can bring: those that a text of that reply, signed under the
  delivery key and with a counter above the last one accepted, orders to add.
\<close>

definition courier_brings :: "hmac_fn \<Rightarrow> json_fn \<Rightarrow> http_fn \<Rightarrow> 'n tg_client \<Rightarrow> u8 list set" where
  "courier_brings hmac cjson http c = {h. \<exists>t m. t \<in> set (reply_texts cjson http c) \<and>
     signed_for hmac (tg_key c) t m \<and> tg_counter c < msg_counter m \<and> msg_op m = TG_OP_ADD \<and> h = msg_hash m}"

lemma tg_apply_table:
  assumes "msg_sound k m"
  shows "ac_good table \<Longrightarrow> ac_good (tg_apply table m)"
    "table_hashes (tg_apply table m) \<subseteq> table_hashes table \<union> (if msg_op m = TG_OP_ADD then {msg_hash m} else {})"
proof -
  have f: "id_fits (msg_id m)" "length (msg_hash m) = AC_HASH_LEN"
    using assms by (auto simp: msg_sound_def id_fits_def)
  have "ac_good table \<Longrightarrow> ac_good (fst (ac_revoke table (Some (msg_id m))))"
    using ac_step_good [of table "Revoke (msg_id m)"] by simp
  then show "ac_good table \<Longrightarrow> ac_good (tg_apply table m)"
    using ac_good_upsert [OF _ f] by (simp add: tg_apply_def ac_upsert_def)
  show "table_hashes (tg_apply table m) \<subseteq> table_hashes table \<union> (if msg_op m = TG_OP_ADD then {msg_hash m} else {})"
    using table_hashes_upsert [of table "msg_id m" "msg_hash m"] table_hashes_revoke [of table "Some (msg_id m)"] f(2)
    by (auto simp: tg_apply_def ac_upsert_def)
qed

lemma tg_applies_table:
  assumes "\<forall>m\<in>set ms. \<exists>k. msg_sound k m"
  shows "ac_good table \<Longrightarrow> ac_good (foldl tg_apply table ms)"
    "table_hashes (foldl tg_apply table ms) \<subseteq> table_hashes table \<union> {msg_hash m | m. m \<in> set ms \<and> msg_op m = TG_OP_ADD}"
proof -
  have "(ac_good table \<longrightarrow> ac_good (foldl tg_apply table ms)) \<and>
      table_hashes (foldl tg_apply table ms) \<subseteq> table_hashes table \<union> {msg_hash m | m. m \<in> set ms \<and> msg_op m = TG_OP_ADD}"
    using assms
  proof (induction ms arbitrary: table)
    case (Cons m ms)
    then obtain k where k: "msg_sound k m" by auto
    from Cons.IH [of "tg_apply table m"] Cons.prems tg_apply_table [OF k, of table] show ?case
      by (auto split: if_splits)
  qed simp
  then show "ac_good table \<Longrightarrow> ac_good (foldl tg_apply table ms)"
    "table_hashes (foldl tg_apply table ms) \<subseteq> table_hashes table \<union> {msg_hash m | m. m \<in> set ms \<and> msg_op m = TG_OP_ADD}"
    by blast+
qed

lemma courier_table:
  assumes "hmac_sized hmac" "ac_good table"
  shows "ac_good (snd (tg_task_turn hmac cjson N http on now t c table))"
    "table_hashes (snd (tg_task_turn hmac cjson N http on now t c table)) \<subseteq>
       table_hashes table \<union> courier_brings hmac cjson http c"
proof -
  let ?t = "snd (poll_once hmac cjson N http t c table)"
  obtain us ms c' where o: "obeys hmac (tg_key c) (tg_counter c) us ms c'" "?t = foldl tg_apply table ms"
    and us: "us = [] \<or> reply_texts cjson http c = List.map_filter update_text us"
    using poll_once_obeys [OF assms(1) prod.collapse [symmetric]] by blast
  have sound: "\<forall>m\<in>set ms. \<exists>k. msg_sound k m" using obeys_sound [OF o(1)] by blast
  obtain ts where ts: "subseq ts (List.map_filter update_text us)" "list_all2 (signed_for hmac (tg_key c)) ts ms"
    using obeys_texts [OF o(1)] by blast
  have "msg_hash m \<in> courier_brings hmac cjson http c" if m: "m \<in> set ms" "msg_op m = TG_OP_ADD" for m
  proof -
    obtain t where t: "t \<in> set ts" "signed_for hmac (tg_key c) t m"
      using ts(2) m(1) by (metis in_set_conv_nth list_all2_conv_all_nth)
    have tu: "t \<in> set (List.map_filter update_text us)" using list_emb_set [OF ts(1) t(1)] by blast
    then have "us \<noteq> []" by auto
    with us tu have "t \<in> set (reply_texts cjson http c)" by simp
    moreover have "tg_counter c < msg_counter m" using obeys_increasing [OF o(1)] m(1) by auto
    ultimately show ?thesis using t(2) m(2) unfolding courier_brings_def by blast
  qed
  then have "ac_good ?t \<and> table_hashes ?t \<subseteq> table_hashes table \<union> courier_brings hmac cjson http c"
    using tg_applies_table [OF sound, of table] assms(2) unfolding o(2) by blast
  then show "ac_good (snd (tg_task_turn hmac cjson N http on now t c table))"
    "table_hashes (snd (tg_task_turn hmac cjson N http on now t c table)) \<subseteq>
       table_hashes table \<union> courier_brings hmac cjson http c"
    using assms(2) by (auto simp: tg_task_turn_def)
qed


section \<open>The clock and the counter\<close>

text \<open>No delivery makes the clock trusted, and none touches the attempt counter or a lockout.\<close>

definition judging :: "ac_ctx \<Rightarrow> bool \<times> u8 \<times> i64" where
  "judging ctx = (ac_clock_trusted ctx, failed_attempts ctx, lockout_until ctx)"

lemma upsert_judging: "judging (fst (upsert ctx i h f u tr)) = judging ctx"
  by (simp add: judging_def upsert_keeps)

lemma slots_judging [simp]: "judging (ctx\<lparr>slots := xs\<rparr>) = judging ctx"
  by (simp add: judging_def)

lemma clear_judging [simp]: "judging (fst (clear_slots P ctx)) = judging ctx"
  by (simp add: judging_def clear_slots_def)

lemma upserts_judging: "judging (fst (upsert_loop ctx es ov)) = judging ctx"
proof (induction es arbitrary: ctx ov)
  case (Cons e es)
  obtain ctx1 r where u: "ac_upsert ctx (Some (entry_id e)) (Some (entry_hash e)) (entry_from e) (entry_until e) = (ctx1, r)"
    by fastforce
  have "judging ctx1 = judging ctx" using u upsert_judging by (metis ac_upsert_def fst_conv)
  then show ?case using Cons by (simp add: u)
qed simp

lemma revoke_judging [simp]: "judging (fst (ac_revoke ctx i)) = judging ctx"
  by (simp add: judging_def ac_revoke_def split: option.split)

lemma apply_judging: "judging (foldl tg_apply table ms) = judging table"
proof (induction ms arbitrary: table)
  case (Cons m ms)
  then show ?case by (simp add: tg_apply_def ac_upsert_def upsert_judging)
qed simp

lemma do_sync_judging: "judging (fst (snd (do_sync hmac N http c table t))) = judging table"
proof (cases rule: do_sync_cases [of hmac N http c table t])
  case (applied body st)
  then have "fst (snd (do_sync hmac N http c table t)) = fst (upsert_loop (dropped table) (set_used st) False)"
    by (simp add: sync_apply_accepted upsert_loop_install)
  then show ?thesis by (simp add: upserts_judging)
qed simp

lemma poll_judging:
  assumes "hmac_sized hmac"
  shows "judging (snd (sync_task_turn hmac N http on t c table)) = judging table"
  using do_sync_judging [of hmac N http c table t] sync_turn_table [of hmac N http on t c table] by auto

lemma courier_judging:
  assumes "hmac_sized hmac"
  shows "judging (snd (tg_task_turn hmac cjson N http on now t c table)) = judging table"
proof -
  obtain ms where "snd (poll_once hmac cjson N http t c table) = foldl tg_apply table ms"
    using poll_once_obeys [OF assms prod.collapse [symmetric]] by blast
  then show ?thesis by (simp add: tg_task_turn_def apply_judging)
qed

end
