(* ===== verification/Gate_System.thy ===== *)
theory Gate_System
  imports App_Main Code_Origin
begin

text \<open>
  The running program: the main loop, the keypad task, the sync and courier tasks, the web server
  and the handlers of the radio, interleaved.  Everything that touches the code table does so under
  the one mutex, so a turn of the main loop and the table call of a task are single steps.

  The lemmas follow the three things that cross the components: what the lock is opened for and
  where the code behind it came from, what the EEPROM knows of the attempt counter, and what the
  panel shows.
\<close>

section \<open>Steps\<close>

text \<open>What happens next, with what the world answers.  \<open>Courier\<close> has the clock before and after
  its request.\<close>

datatype sys_event =
    Key_scan sense_fn u32
  | Main_loop turn_env
  | Sync_task http_fn u32
  | Courier http_fn u32 u32
  | Web route http_req http_env
  | Radio net_event

definition radio_event ::
  "('w, 's, 'e, 'r, 'd, 'n) board \<Rightarrow> net_event \<Rightarrow> ('w, 's, 'e, 'r, 'd, 'n) app \<Rightarrow> ('w, 's, 'e, 'r, 'd, 'n) app" where
  "radio_event B ev a =
     (let a' = a\<lparr>a_portal := (a_portal a)\<lparr>p_link := handle_event (radio_ops B) ev (link a)\<rparr>\<rparr>
      in case ev of
           Got_ip addr sntp \<Rightarrow>
             (case snd (on_ip addr sntp (link a)) of None \<Rightarrow> a' | Some secs \<Rightarrow> on_network_time B secs a')
         | _ \<Rightarrow> a')"

fun sys_step ::
  "('w, 's, 'e, 'r, 'd, 'n) board \<Rightarrow> ('w, 's, 'e, 'r, 'd, 'n) app \<Rightarrow> sys_event \<Rightarrow> ('w, 's, 'e, 'r, 'd, 'n) app" where
  "sys_step B a (Key_scan sense now) = a\<lparr>a_keypad := keypad_turn sense now (a_keypad a)\<rparr>"
| "sys_step B a (Main_loop e) = main_turn B e a"
| "sys_step B a (Sync_task http now) =
     (if sync_task (a_sync a)
      then (case sync_task_turn (hmac_sha256 B) (num_ops B) http (net_link_sta_connected (link a)) now (a_sync a) (access a) of
              (c, table) \<Rightarrow> set_access table (a\<lparr>a_sync := c\<rparr>))
      else a)"
| "sys_step B a (Courier http now done_ms) =
     (if tg_task (a_tg a)
      then (case tg_task_turn (hmac_sha256 B) (cJSON B) (num_ops B) http (net_link_sta_connected (link a)) now done_ms
                   (a_tg a) (access a) of
              (c, table) \<Rightarrow> set_access table (a\<lparr>a_tg := c\<rparr>))
      else a)"
| "sys_step B a (Web r req e) =
     (if http_server (a_portal a)
      then (case http_handle (radio_ops B) (creds_ops B) e r req (a_portal a, a_creds a) of
              ((p, st), _) \<Rightarrow> a\<lparr>a_portal := p, a_creds := st\<rparr>)
      else a)"
| "sys_step B a (Radio ev) = radio_event B ev a"


section \<open>The gate part of a turn as a trace\<close>

text \<open>The steps of the controller, each with the state before and after it and its output.\<close>

fun gate_trace :: "gate_hash_fn \<Rightarrow> gate_ctrl \<Rightarrow> gate_event list \<Rightarrow> (gate_ctrl \<times> gate_event \<times> gate_ctrl \<times> gate_out) list" where
  "gate_trace hash g [] = []"
| "gate_trace hash g (ev # evs) =
     (case gate_step hash g ev of (g', out) \<Rightarrow> (g, ev, g', out) # gate_trace hash g' evs)"

fun key_event :: "ui_now \<Rightarrow> kp_event \<Rightarrow> gate_event" where
  "key_event now (KP_EV_PRESS k) = Key k now"
| "key_event now (KP_EV_LONG_PRESS k) = Long_press now"

definition turn_events :: "turn_env \<Rightarrow> ('w, 's, 'e, 'r, 'd, 'n) app \<Rightarrow> gate_event list" where
  "turn_events e a = map (key_event (t_now e)) (snd (drain (a_keypad a))) @ [Gate_tick (t_now e)]"

abbreviation turn_trace ::
  "('w, 's, 'e, 'r, 'd, 'n) board \<Rightarrow> turn_env \<Rightarrow> ('w, 's, 'e, 'r, 'd, 'n) app \<Rightarrow>
     (gate_ctrl \<times> gate_event \<times> gate_ctrl \<times> gate_out) list" where
  "turn_trace B e a \<equiv> gate_trace (hash_code (sha256 B) (a_salt a)) (a_gate a) (turn_events e a)"

definition handled ::
  "('w, 's, 'e, 'r, 'd, 'n) board \<Rightarrow> u32 \<Rightarrow> ('w, 's, 'e, 'r, 'd, 'n) app \<Rightarrow>
     gate_ctrl \<times> gate_event \<times> gate_ctrl \<times> gate_out \<Rightarrow> ('w, 's, 'e, 'r, 'd, 'n) app" where
  "handled B open_ms a st = (case st of (g, ev, g', out) \<Rightarrow> handle B open_ms out (a\<lparr>a_gate := g'\<rparr>))"

lemma handle_keeps [simp]:
  "a_gate (handle B t out a) = a_gate a" "a_salt (handle B t out a) = a_salt a"
  "a_keypad (handle B t out a) = a_keypad a" "a_portal (handle B t out a) = a_portal a"
  "a_sync (handle B t out a) = a_sync a" "a_tg (handle B t out a) = a_tg a" "a_led (handle B t out a) = a_led a"
  "a_fb (handle B t out a) = a_fb a" "a_panel (handle B t out a) = a_panel a" "a_boot_count (handle B t out a) = a_boot_count a"
  "a_oled_ok (handle B t out a) = a_oled_ok a" "a_panel_on (handle B t out a) = a_panel_on a"
  "a_border_until_ms (handle B t out a) = a_border_until_ms a"
  by (simp_all add: handle_def persist_attempts_now_def Let_def)

lemma handle_lock: "a_lock (handle B t out a) = (if open_lock out then fst (lock_driver_open (a_lock a) t) else a_lock a)"
  by (simp add: handle_def persist_attempts_now_def Let_def)

lemma on_event_handled:
  "on_event B e a ev = handled B (t_open_ms e) a
     (a_gate a, key_event (t_now e) ev, gate_step (hash_code (sha256 B) (a_salt a)) (a_gate a) (key_event (t_now e) ev))"
  by (cases ev) (simp_all add: on_event_def handled_def split_def Let_def)

lemma events_trace:
  "foldl (on_event B e) a evs =
     foldl (handled B (t_open_ms e)) a (gate_trace (hash_code (sha256 B) (a_salt a)) (a_gate a) (map (key_event (t_now e)) evs))"
proof (induction evs arbitrary: a)
  case (Cons ev evs)
  obtain g out where s: "gate_step (hash_code (sha256 B) (a_salt a)) (a_gate a) (key_event (t_now e) ev) = (g, out)"
    by fastforce
  have "on_event B e a ev = handled B (t_open_ms e) a (a_gate a, key_event (t_now e) ev, g, out)"
    by (simp add: on_event_handled s)
  moreover have "a_gate (on_event B e a ev) = g" "a_salt (on_event B e a ev) = a_salt a"
    by (simp_all add: on_event_handled s handled_def)
  ultimately show ?case by (simp add: Cons.IH s)
qed simp

lemma trace_append:
  "gate_trace hash g (xs @ ys) =
     gate_trace hash g xs @ gate_trace hash (foldl (\<lambda>g e. fst (gate_step hash g e)) g xs) ys"
  by (induction xs arbitrary: g) (simp_all add: split_def)

lemma handled_gate:
  "a_gate (foldl (handled B t) a (gate_trace hash (a_gate a) xs)) = foldl (\<lambda>g e. fst (gate_step hash g e)) (a_gate a) xs \<and>
   a_salt (foldl (handled B t) a (gate_trace hash (a_gate a) xs)) = a_salt a"
proof (induction xs arbitrary: a)
  case (Cons x xs)
  obtain g out where s: "gate_step hash (a_gate a) x = (g, out)" by fastforce
  let ?a = "handled B t a (a_gate a, x, g, out)"
  have "a_gate ?a = g" "a_salt ?a = a_salt a" by (simp_all add: handled_def)
  with Cons [of ?a] show ?case by (simp add: s)
qed simp

lemma gate_part_trace:
  "gate_part B e a =
     (let a' = foldl (handled B (t_open_ms e)) (a\<lparr>a_keypad := fst (drain (a_keypad a))\<rparr>) (turn_trace B e a)
      in a'\<lparr>a_lock := lock_driver_tick (a_lock a') (t_tick_ms e)\<rparr>)"
proof -
  obtain k evs where d: "drain (a_keypad a) = (k, evs)" by fastforce
  let ?h = "hash_code (sha256 B) (a_salt a)" and ?a = "a\<lparr>a_keypad := k\<rparr>"
  let ?b = "foldl (handled B (t_open_ms e)) ?a (gate_trace ?h (a_gate a) (map (key_event (t_now e)) evs))"
  have g: "a_gate ?b = foldl (\<lambda>g e. fst (gate_step ?h g e)) (a_gate a) (map (key_event (t_now e)) evs)"
    using handled_gate [of B "t_open_ms e" ?a ?h "map (key_event (t_now e)) evs"] by simp
  have "foldl (on_event B e) ?a evs = ?b" using events_trace [of B e ?a evs] by simp
  then show ?thesis
    by (simp add: gate_part_def d turn_events_def trace_append g [symmetric] handled_def split_def Let_def)
qed


lemma trace_steps:
  assumes "st \<in> set (gate_trace hash g evs)" "gate_inv g"
  obtains g1 ev g2 out where "st = (g1, ev, g2, out)" "ev \<in> set evs" "gate_inv g1" "gate_step hash g1 ev = (g2, out)"
    "slots (g_ac g1) = slots (g_ac g)" "ac_clock_trusted (g_ac g1) = ac_clock_trusted (g_ac g)"
  using assms
proof (induction evs arbitrary: g thesis)
  case (Cons e evs)
  obtain g' out where s: "gate_step hash g e = (g', out)" by fastforce
  have g': "gate_inv g'" "slots (g_ac g') = slots (g_ac g)" "ac_clock_trusted (g_ac g') = ac_clock_trusted (g_ac g)"
    using gate_step_inv [OF Cons.prems(3), of hash e] gate_step_table [of hash g e] by (simp_all add: s)
  show ?case
  proof (cases "st = (g, e, g', out)")
    case True
    then show ?thesis using Cons.prems(1) [OF _ _ Cons.prems(3) s] by simp
  next
    case False
    then have "st \<in> set (gate_trace hash g' evs)" using Cons.prems(2) s by simp
    then obtain g1 ev g2 o2 where t: "st = (g1, ev, g2, o2)" "ev \<in> set evs" "gate_inv g1" "gate_step hash g1 ev = (g2, o2)"
      "slots (g_ac g1) = slots (g_ac g')" "ac_clock_trusted (g_ac g1) = ac_clock_trusted (g_ac g')"
      using Cons.IH [OF _ _ g'(1)] by blast
    then show ?thesis using Cons.prems(1) [OF t(1)] g' by simp
  qed
qed simp


section \<open>What a turn leaves alone\<close>

lemma portal_part_keeps [simp]:
  "a_lock (portal_part B e a) = a_lock a" "a_keypad (portal_part B e a) = a_keypad a"
  "a_persist (portal_part B e a) = a_persist a" "a_salt (portal_part B e a) = a_salt a"
  "a_sync (portal_part B e a) = a_sync a" "a_tg (portal_part B e a) = a_tg a" "a_led (portal_part B e a) = a_led a"
  "a_fb (portal_part B e a) = a_fb a" "a_panel (portal_part B e a) = a_panel a" "a_oled_ok (portal_part B e a) = a_oled_ok a"
  "a_panel_on (portal_part B e a) = a_panel_on a" "a_border_until_ms (portal_part B e a) = a_border_until_ms a"
  "a_boot_count (portal_part B e a) = a_boot_count a"
  "g_ui (a_gate (portal_part B e a)) = g_ui (a_gate a)" "buf (a_gate (portal_part B e a)) = buf (a_gate a)"
  by (simp_all add: portal_part_def split_def Let_def split: wifi_prov_evt.split)

lemma portal_part_access:
  "access (portal_part B e a) =
     (case snd (wifi_prov_tick (radio_ops B) (t_portal e) (t_button e) (ms (t_now e)) (a_portal a)) of
        WIFI_PROV_EVT_CLOSED \<Rightarrow> fst (ac_revoke_transient (access a))
      | _ \<Rightarrow> access a)"
  by (simp add: portal_part_def split_def Let_def split: wifi_prov_evt.split)

lemma portal_part_portal:
  "p_ctx (a_portal (portal_part B e a)) =
     p_ctx (fst (wifi_prov_tick (radio_ops B) (t_portal e) (t_button e) (ms (t_now e)) (a_portal a)))"
  "ap_running (a_portal (portal_part B e a)) =
     ap_running (fst (wifi_prov_tick (radio_ops B) (t_portal e) (t_button e) (ms (t_now e)) (a_portal a)))"
  "http_server (a_portal (portal_part B e a)) =
     http_server (fst (wifi_prov_tick (radio_ops B) (t_portal e) (t_button e) (ms (t_now e)) (a_portal a)))"
  by (simp_all add: portal_part_def split_def Let_def split: wifi_prov_evt.split)

lemma led_part_keeps [simp]:
  "a_gate (led_part e a) = a_gate a" "a_lock (led_part e a) = a_lock a" "a_keypad (led_part e a) = a_keypad a"
  "a_persist (led_part e a) = a_persist a" "a_portal (led_part e a) = a_portal a" "a_salt (led_part e a) = a_salt a"
  "a_fb (led_part e a) = a_fb a" "a_panel (led_part e a) = a_panel a" "a_oled_ok (led_part e a) = a_oled_ok a"
  "a_panel_on (led_part e a) = a_panel_on a" "a_border_until_ms (led_part e a) = a_border_until_ms a"
  "a_sync (led_part e a) = a_sync a" "a_tg (led_part e a) = a_tg a" "a_boot_count (led_part e a) = a_boot_count a"
  by (simp_all add: led_part_def)

lemma show_panel_keeps [simp]:
  "a_gate (show_panel B n r a) = a_gate a" "a_lock (show_panel B n r a) = a_lock a"
  "a_keypad (show_panel B n r a) = a_keypad a" "a_persist (show_panel B n r a) = a_persist a"
  "a_portal (show_panel B n r a) = a_portal a" "a_salt (show_panel B n r a) = a_salt a"
  "a_led (show_panel B n r a) = a_led a" "a_sync (show_panel B n r a) = a_sync a" "a_tg (show_panel B n r a) = a_tg a"
  "a_boot_count (show_panel B n r a) = a_boot_count a"
  by (simp_all add: show_panel_def split_def Let_def)

lemma main_turn_parts:
  "a_lock (main_turn B e a) = a_lock (gate_part B e a)" "a_keypad (main_turn B e a) = a_keypad (gate_part B e a)"
  "a_persist (main_turn B e a) = a_persist (gate_part B e a)" "a_salt (main_turn B e a) = a_salt (gate_part B e a)"
  "a_gate (main_turn B e a) = a_gate (portal_part B e (gate_part B e a))"
  "a_portal (main_turn B e a) = a_portal (portal_part B e (gate_part B e a))"
  by (simp_all add: main_turn_def Let_def)



section \<open>The invariant of the program\<close>

definition queue_ok :: "keypad \<Rightarrow> bool" where
  "queue_ok k \<longleftrightarrow> (\<forall>q. kp_queue k = Some q \<longrightarrow> length q \<le> queue_depth (kp_cfg k))"

definition app_inv :: "('w, 's, 'e, 'r, 'd, 'n) app \<Rightarrow> bool" where
  "app_inv a \<longleftrightarrow> gate_inv (a_gate a) \<and> lock_ok (a_lock a) \<and> portal_inv (a_portal a) \<and> led_inv (a_led a) \<and>
     queue_ok (a_keypad a)"

declare app_inv_def [inv_defs] queue_ok_def [inv_defs]

lemma handled_lock_ok: "lock_ok (a_lock a) \<Longrightarrow> lock_ok (a_lock (foldl (handled B t) a tr))"
proof (induction tr arbitrary: a)
  case (Cons st tr)
  obtain g ev g' out where st: "st = (g, ev, g', out)" by (cases st)
  have "lock_ok (a_lock (handled B t a st))"
    using Cons.prems lock_ok_open by (simp add: st handled_def handle_lock)
  then show ?case using Cons.IH [of "handled B t a st"] by simp
qed simp

lemma handled_keeps [simp]:
  "a_keypad (foldl (handled B t) a tr) = a_keypad a" "a_portal (foldl (handled B t) a tr) = a_portal a"
  "a_led (foldl (handled B t) a tr) = a_led a" "a_boot_count (foldl (handled B t) a tr) = a_boot_count a"
  "a_sync (foldl (handled B t) a tr) = a_sync a" "a_tg (foldl (handled B t) a tr) = a_tg a"
  "a_fb (foldl (handled B t) a tr) = a_fb a" "a_panel (foldl (handled B t) a tr) = a_panel a"
  "a_oled_ok (foldl (handled B t) a tr) = a_oled_ok a" "a_panel_on (foldl (handled B t) a tr) = a_panel_on a"
  "a_border_until_ms (foldl (handled B t) a tr) = a_border_until_ms a"
  by (induction tr arbitrary: a) (auto simp: handled_def split: prod.splits)

lemma gate_part_keeps [simp]:
  "a_portal (gate_part B e a) = a_portal a" "a_led (gate_part B e a) = a_led a"
  "a_boot_count (gate_part B e a) = a_boot_count a" "a_keypad (gate_part B e a) = fst (drain (a_keypad a))"
  "a_sync (gate_part B e a) = a_sync a" "a_tg (gate_part B e a) = a_tg a"
  "a_fb (gate_part B e a) = a_fb a" "a_panel (gate_part B e a) = a_panel a" "a_oled_ok (gate_part B e a) = a_oled_ok a"
  "a_panel_on (gate_part B e a) = a_panel_on a" "a_border_until_ms (gate_part B e a) = a_border_until_ms a"
  by (simp_all add: gate_part_trace Let_def)

lemma gate_part_gate:
  "a_gate (gate_part B e a) =
     foldl (\<lambda>g ev. fst (gate_step (hash_code (sha256 B) (a_salt a)) g ev)) (a_gate a) (turn_events e a)"
  "a_salt (gate_part B e a) = a_salt a"
  using handled_gate [of B "t_open_ms e" "a\<lparr>a_keypad := fst (drain (a_keypad a))\<rparr>" "hash_code (sha256 B) (a_salt a)" "turn_events e a"]
  by (simp_all add: gate_part_trace Let_def)

lemma gate_part_lock:
  "a_lock (gate_part B e a) = lock_driver_tick
     (a_lock (foldl (handled B (t_open_ms e)) (a\<lparr>a_keypad := fst (drain (a_keypad a))\<rparr>) (turn_trace B e a))) (t_tick_ms e)"
  by (simp add: gate_part_trace Let_def)

lemma gate_steps_table:
  "slots (g_ac (foldl (\<lambda>g ev. fst (gate_step hash g ev)) g evs)) = slots (g_ac g)"
  "ac_clock_trusted (g_ac (foldl (\<lambda>g ev. fst (gate_step hash g ev)) g evs)) = ac_clock_trusted (g_ac g)"
  by (induction evs arbitrary: g) (simp_all add: gate_step_table)

lemma gate_part_inv:
  assumes "gate_inv (a_gate a)" "lock_ok (a_lock a)"
  shows "gate_inv (a_gate (gate_part B e a))" "lock_ok (a_lock (gate_part B e a))"
    "slots (access (gate_part B e a)) = slots (access a)"
    "ac_clock_trusted (access (gate_part B e a)) = ac_clock_trusted (access a)"
proof -
  show "gate_inv (a_gate (gate_part B e a))"
    using gate_run.run_inv [OF assms(1), of "turn_events e a"] by (simp add: gate_part_gate list_all_iff)
  show "lock_ok (a_lock (gate_part B e a))"
    unfolding gate_part_lock using assms(2) by (intro lock_ok_tick handled_lock_ok) simp
qed (simp_all add: gate_part_gate gate_steps_table)

lemma set_access_inv: "gate_inv g \<Longrightarrow> ac_good t \<Longrightarrow> gate_inv (g\<lparr>g_ac := t\<rparr>)"
  by (simp add: gate_inv_def)

lemma portal_part_gate: "a_gate (portal_part B e a) = (a_gate a)\<lparr>g_ac := access (portal_part B e a)\<rparr>"
  by (simp add: portal_part_def split_def Let_def split: wifi_prov_evt.split)

lemma revoke_transient_judging [simp]: "judging (fst (ac_revoke_transient ctx)) = judging ctx"
  by (simp add: ac_revoke_transient_def)

lemma main_turn_access:
  "access (main_turn B e a) = access (gate_part B e a) \<or> access (main_turn B e a) = fst (ac_revoke_transient (access (gate_part B e a)))"
  by (simp add: main_turn_parts portal_part_access split: wifi_prov_evt.split)

lemma portal_link: "portal_inv (p\<lparr>p_link := l\<rparr>) = portal_inv p"
  by (simp add: portal_inv_def)

lemma drain_ok: "queue_ok k \<Longrightarrow> queue_ok (fst (drain k))"
  by (auto simp: queue_ok_def drain_def split: option.splits)

lemma post_ok: "length q \<le> n \<Longrightarrow> length (foldl (post n) q es) \<le> n"
  by (induction es arbitrary: q) (auto simp: post_def)

lemma keypad_turn_ok: "queue_ok k \<Longrightarrow> queue_ok (keypad_turn sense now k)"
  by (auto simp: queue_ok_def keypad_turn_def split_def Let_def intro: post_ok)

lemma main_turn_inv:
  assumes "app_inv a"
  shows "app_inv (main_turn B e a)"
proof -
  let ?g = "gate_part B e a" and ?p = "portal_part B e (gate_part B e a)"
  have i: "gate_inv (a_gate a)" "lock_ok (a_lock a)" "portal_inv (a_portal a)" "led_inv (a_led a)" "queue_ok (a_keypad a)"
    using assms by (simp_all add: app_inv_def)
  note G = gate_part_inv [OF i(1,2), of B e]
  have ac: "ac_good (access ?g)" using G(1) by (simp add: gate_inv_def)
  have "ac_good (fst (ac_revoke_transient (access ?g)))" using ac_step_good [OF ac, of Revoke_transient] by simp
  with ac have "ac_good (access ?p)" by (simp add: portal_part_access split: wifi_prov_evt.split)
  with G(1) have gate: "gate_inv (a_gate ?p)" by (subst portal_part_gate) (rule set_access_inv)
  have portal: "portal_inv (a_portal ?p)"
    using tick_portal(1) [OF i(3) prod.collapse [symmetric], of "radio_ops B" "t_portal e" "t_button e" "ms (t_now e)"]
      portal_part_portal [of B e ?g] by (auto simp: portal_inv_def)
  have "led_inv (a_led (main_turn B e a))"
    using led_step_inv [OF i(4), of "Led_tick (Some (led_inputs_of (t_now e) ?p)) (ms (t_now e))"]
    by (simp add: main_turn_def led_part_def Let_def)
  with gate portal G(2) i(5) show ?thesis by (simp add: app_inv_def main_turn_parts drain_ok)
qed


section \<open>Reachable states\<close>

text \<open>The hashes a step can put into the table: what its answer brings, if it is a delivery.\<close>

fun brought :: "('w, 's, 'e, 'r, 'd, 'n) board \<Rightarrow> ('w, 's, 'e, 'r, 'd, 'n) app \<Rightarrow> sys_event \<Rightarrow> u8 list set" where
  "brought B a (Sync_task http now) = sync_brings (hmac_sha256 B) http (a_sync a)"
| "brought B a (Courier http now done_ms) = courier_brings (hmac_sha256 B) (cJSON B) http (a_tg a)"
| "brought B a _ = {}"

text \<open>\<open>sys_reach B s0 H a\<close>: from \<open>s0\<close> some interleaving has led to \<open>a\<close>, and \<open>H\<close> is what
  the deliveries on the way could bring.\<close>

inductive sys_reach ::
  "('w, 's, 'e, 'r, 'd, 'n) board \<Rightarrow> ('w, 's, 'e, 'r, 'd, 'n) app \<Rightarrow> u8 list set \<Rightarrow> ('w, 's, 'e, 'r, 'd, 'n) app \<Rightarrow> bool"
  for B s0 where
  reach_start: "sys_reach B s0 {} s0"
| reach_step: "sys_reach B s0 H a \<Longrightarrow> sys_reach B s0 (H \<union> brought B a ev) (sys_step B a ev)"

inductive_cases sys_reachE: "sys_reach B s0 H a"

lemma wifi_page_portal [simp]:
  "ap_running (fst (wifi_page W req m q)) = ap_running q" "http_server (fst (wifi_page W req m q)) = http_server q"
  "p_ctx (fst (wifi_page W req m q)) = p_ctx q"
  by (simp_all add: wifi_page_def split_def Let_def)

lemma wifi_post_portal [simp]:
  "ap_running (fst (fst (wifi_post W N e req (p, st)))) = ap_running p"
  "http_server (fst (fst (wifi_post W N e req (p, st)))) = http_server p"
  "p_ctx (fst (fst (wifi_post W N e req (p, st)))) = p_ctx p"
  by (simp_all add: wifi_post_def split_def Let_def split: option.split)

lemma login_post_portal:
  obtains "fst (login_post e req p) = p"
    | user pass where "fst (login_post e req p) = fst (prov_session_login user pass p)"
    | user pass sid where "fst (login_post e req p) = (fst (prov_session_login user pass p))\<lparr>http_sid := sid\<rparr>"
proof (cases "read_body req 512")
  case None
  then show thesis using that(1) by (simp add: login_post_def)
next
  case (Some body)
  obtain user gu where u: "prov_form_field (Some body) (Some ''u'') 64 = (user, gu)" by fastforce
  obtain pass gp where p: "prov_form_field (Some body) (Some ''p'') 128 = (pass, gp)" by fastforce
  obtain q ok where l: "prov_session_login (Some user) (Some pass) p = (q, ok)" by fastforce
  show thesis
  proof (cases "gu \<and> gp")
    case False
    then show thesis using that(1) Some u p by (cases gu) (simp_all add: login_post_def)
  next
    case True
    then have "fst (login_post e req p) = (if ok then new_sid (randoms e) q else q)"
      using Some u p l by (simp add: login_post_def Let_def)
    then show thesis using that(2) [of "Some user" "Some pass"] that(3) [of _ "Some user" "Some pass"] l by (cases ok) (simp_all add: new_sid_def)
  qed
qed

lemma http_handle_portal:
  assumes "portal_inv p"
  shows "portal_inv (fst (fst (http_handle W N e r req (p, st))))"
proof -
  have sid: "portal_inv (q\<lparr>http_sid := sid\<rparr>) = portal_inv q" for q :: "'c portal" and sid by (simp add: portal_inv_def)
  have l: "portal_inv (fst (prov_session_login user pass p))" for user pass
    using portal_step_inv [OF assms, of W "Log_in user pass"] by simp
  have lo: "portal_inv (prov_session_logout p)" using portal_step_inv [OF assms, of W Log_out] by simp
  have fi: "portal_inv (prov_session_finish p)" using portal_step_inv [OF assms, of W Finish] by simp
  have w: "portal_inv (fst (fst (wifi_post W N e req (p, st))))" "portal_inv (fst (wifi_page W req m p))" for m
    using assms by (auto simp: portal_inv_def)
  have "portal_inv (fst (login_post e req p))"
    by (cases rule: login_post_portal [of e req p]) (use assms l in \<open>simp_all add: sid\<close>)
  with assms lo fi w show ?thesis
    by (cases r) (simp_all add: root_get_def finish_get_def console_get_def catch_all_def wifi_get_def logout_get_def split_def sid)
qed


lemma sys_step_inv:
  assumes "hmac_sized (hmac_sha256 B)" "app_inv a"
  shows "app_inv (sys_step B a ev)"
proof -
  have i: "gate_inv (a_gate a)" "ac_good (access a)" using assms(2) by (simp_all add: app_inv_def gate_inv_def)
  have table: "app_inv (set_access t (a\<lparr>a_sync := c\<rparr>))" "app_inv (set_access t (a\<lparr>a_tg := d\<rparr>))" if "ac_good t" for t c d
    using assms(2) set_access_inv [OF i(1) that] by (simp_all add: app_inv_def)
  show ?thesis
  proof (cases ev)
    case (Key_scan sense now)
    then show ?thesis using assms(2) by (simp add: app_inv_def keypad_turn_ok)
  next
    case (Main_loop e)
    then show ?thesis using assms(2) by (simp add: main_turn_inv)
  next
    case (Sync_task http now)
    then show ?thesis using assms(2) table(1) poll_table(1) [OF assms(1) i(2), of "num_ops B"] by (simp add: split_def)
  next
    case (Courier http now done_ms)
    then show ?thesis using assms(2) table(2) courier_table(1) [OF assms(1) i(2), of "cJSON B" "num_ops B"] by (simp add: split_def)
  next
    case (Web r req e)
    have "portal_inv (a_portal a)" using assms(2) by (simp add: app_inv_def)
    from http_handle_portal [OF this, of "radio_ops B" "creds_ops B"] Web show ?thesis using assms(2) by (simp add: app_inv_def split_def)
  next
    case (Radio nev)
    then show ?thesis using assms(2)
      by (cases nev) (auto simp: radio_event_def on_network_time_def app_inv_def portal_link Let_def split: option.split)
  qed
qed

lemma sys_machine: "hmac_sized (hmac_sha256 B) \<Longrightarrow> machine (sys_step B) app_inv (\<lambda>_. True)"
  by unfold_locales (rule sys_step_inv)

lemma reach_app_inv:
  assumes "hmac_sized (hmac_sha256 B)" "app_inv s0"
  shows "sys_reach B s0 H a \<Longrightarrow> app_inv a"
  by (induction rule: sys_reach.induct) (auto intro: assms(2) sys_step_inv [OF assms(1)])

text \<open>What a step does to the table and to the trust in the clock.\<close>

lemma radio_access [simp]: "access (radio_event B ev a) = access a" "a_salt (radio_event B ev a) = a_salt a"
  "a_lock (radio_event B ev a) = a_lock a" "a_persist (radio_event B ev a) = a_persist a"
  "a_boot_count (radio_event B ev a) = a_boot_count a" "a_gate (radio_event B ev a) = a_gate a"
  by (cases ev; simp add: radio_event_def on_network_time_def Let_def split: option.split)+

lemma delivery_judging:
  assumes "hmac_sized (hmac_sha256 B)" "\<forall>e. ev \<noteq> Main_loop e"
  shows "judging (access (sys_step B a ev)) = judging (access a)"
proof (cases ev)
  case (Sync_task http now)
  then show ?thesis using poll_judging [OF assms(1), of "num_ops B"] by (simp add: split_def)
next
  case (Courier http now done_ms)
  then show ?thesis using courier_judging [OF assms(1), of "cJSON B" "num_ops B"] by (simp add: split_def)
qed (use assms(2) in \<open>simp_all add: split_def\<close>)

lemma sys_step_table:
  assumes "hmac_sized (hmac_sha256 B)" "app_inv a"
  shows "table_hashes (access (sys_step B a ev)) \<subseteq> table_hashes (access a) \<union> brought B a ev"
    "ac_clock_trusted (access (sys_step B a ev)) = ac_clock_trusted (access a)"
proof -
  have i: "gate_inv (a_gate a)" "lock_ok (a_lock a)" "ac_good (access a)"
    using assms(2) by (simp_all add: app_inv_def gate_inv_def)
  note G = gate_part_inv(3,4) [OF i(1,2), of B]
  show "table_hashes (access (sys_step B a ev)) \<subseteq> table_hashes (access a) \<union> brought B a ev"
  proof (cases ev)
    case (Main_loop e)
    have "table_hashes (access (main_turn B e a)) \<subseteq> table_hashes (access (gate_part B e a))"
      using main_turn_access [of B e a] table_hashes_clear by (metis ac_revoke_transient_def order_refl)
    then show ?thesis using table_hashes_slots [OF G(1)] by (simp add: Main_loop)
  next
    case (Sync_task http now)
    then show ?thesis using poll_table(2) [OF assms(1) i(3), of "num_ops B"] by (auto simp: split_def)
  next
    case (Courier http now done_ms)
    then show ?thesis using courier_table(2) [OF assms(1) i(3), of "cJSON B" "num_ops B"] by (auto simp: split_def)
  qed (simp_all add: split_def)
  show "ac_clock_trusted (access (sys_step B a ev)) = ac_clock_trusted (access a)"
  proof (cases "\<exists>e. ev = Main_loop e")
    case True
    then obtain e where e: "ev = Main_loop e" by blast
    have "judging (access (main_turn B e a)) = judging (access (gate_part B e a))"
      using main_turn_access [of B e a] by auto
    then show ?thesis using G(2) [of e] by (simp add: e judging_def)
  next
    case False
    then show ?thesis using delivery_judging [OF assms(1), of ev a] by (auto simp: judging_def)
  qed
qed

lemma reach_table:
  assumes "hmac_sized (hmac_sha256 B)" "app_inv s0" "sys_reach B s0 H a"
  shows "table_hashes (access a) \<subseteq> table_hashes (access s0) \<union> H" "ac_clock_trusted (access a) = ac_clock_trusted (access s0)"
proof -
  have "table_hashes (access a) \<subseteq> table_hashes (access s0) \<union> H \<and> ac_clock_trusted (access a) = ac_clock_trusted (access s0)"
    using assms(3)
  proof (induction rule: sys_reach.induct)
    case (reach_step H a ev)
    have "app_inv a" using reach_app_inv [OF assms(1,2) reach_step.hyps] .
    from sys_step_table [OF assms(1) this, of ev] reach_step.IH show ?case by blast
  qed simp
  then show "table_hashes (access a) \<subseteq> table_hashes (access s0) \<union> H" "ac_clock_trusted (access a) = ac_clock_trusted (access s0)"
    by simp_all
qed


section \<open>The door\<close>

text \<open>Only a turn of the main loop energises the coil, and only on an order to open.\<close>

lemma opened_by:
  assumes "\<not> energised (a_lock a)" "energised (a_lock (foldl (handled B t) a tr))"
  shows "\<exists>(g, ev, g', out) \<in> set tr. open_lock out"
  using assms
proof (induction tr arbitrary: a)
  case (Cons st tr)
  obtain g ev g' out where st: "st = (g, ev, g', out)" by (cases st)
  show ?case
  proof (cases "open_lock out")
    case False
    then have "\<not> energised (a_lock (handled B t a st))" using Cons.prems(1) by (simp add: st handled_def handle_lock)
    with Cons.IH [of "handled B t a st"] Cons.prems(2) show ?thesis by auto
  qed (auto simp: st)
qed simp

lemma energised_by_order:
  assumes "app_inv a" "\<not> energised (a_lock a)" "energised (a_lock (sys_step B a ev))"
  obtains e g1 gev g2 out where "ev = Main_loop e" "(g1, gev, g2, out) \<in> set (turn_trace B e a)" "open_lock out"
proof -
  have "\<exists>e. ev = Main_loop e"
    using assms(2,3) by (cases ev) (auto simp: split_def split: if_splits)
  then obtain e where e: "ev = Main_loop e" by blast
  let ?a = "a\<lparr>a_keypad := fst (drain (a_keypad a))\<rparr>"
  let ?b = "foldl (handled B (t_open_ms e)) ?a (turn_trace B e a)"
  have "energised (lock_driver_tick (a_lock ?b) (t_tick_ms e))"
    using assms(3) by (simp add: e main_turn_parts gate_part_lock)
  moreover have "lock_ok (a_lock ?b)" using assms(1) by (intro handled_lock_ok) (simp add: app_inv_def)
  ultimately have "energised (a_lock ?b)" by (intro tick_energises_nothing [of "a_lock ?b"])
  with opened_by [of ?a] assms(2) that [OF e] show thesis by fastforce
qed



section \<open>A board for the witnesses\<close>

definition demo_sha :: "u8 list \<Rightarrow> u8 list" where
  "demo_sha bs = take 32 (bs @ replicate 32 0)"

definition demo_board ::
  "(radio, string \<times> string \<Rightarrow> string option, u8 list \<times> nat, nat \<Rightarrow> u8, (nat \<Rightarrow> nat \<Rightarrow> u8) \<times> nat \<times> nat,
    string \<times> string \<Rightarrow> u64 option) board" where
  "demo_board = \<lparr>radio_ops = demo_wifi, creds_ops = demo_creds_store, eeprom_i2c = demo_bus, rtc_i2c = demo_rtc,
     panel_i2c = demo_panel, num_ops = map_nvs, sha256 = demo_sha, hmac_sha256 = demo_hmac, cJSON = demo_json\<rparr>"

text \<open>The program at rest, with a controller and the events in the queue.\<close>

definition demo_app ::
  "gate_ctrl \<Rightarrow> kp_event list \<Rightarrow>
     (radio, string \<times> string \<Rightarrow> string option, u8 list \<times> nat, nat \<Rightarrow> u8, (nat \<Rightarrow> nat \<Rightarrow> u8) \<times> nat \<times> nat,
      string \<times> string \<Rightarrow> u64 option) app" where
  "demo_app g q = \<lparr>a_gate = g, a_boot_count = 1, a_border_until_ms = 0, a_salt = [], a_sync = demo_client,
     a_tg = demo_courier, a_keypad = demo_keypad\<lparr>kp_queue := Some q\<rparr>,
     a_lock = \<lparr>s_cfg = LOCK_DRIVER_DEFAULT_CONFIG, s_logic = lock_logic_init 800, s_ready = True, coil_level = False\<rparr>,
     a_persist = demo_store, a_rtc = \<lparr>rtc_bus = (\<lambda>_. 0), rtc_trusted = False\<rparr>, a_portal = demo_portal,
     a_creds = Map.empty, a_led = led_statics, a_panel = demo_display, a_fb = replicate 1024 0, a_oled_ok = True,
     a_panel_on = False\<rparr>"

lemma demo_board_fields [simp]:
  "hmac_sha256 demo_board = demo_hmac" "sha256 demo_board = demo_sha" "eeprom_i2c demo_board = demo_bus"
  "panel_i2c demo_board = demo_panel" "rtc_i2c demo_board = demo_rtc" "radio_ops demo_board = demo_wifi"
  by (simp_all add: demo_board_def)

lemma demo_sized: "hmac_sized (hmac_sha256 demo_board)" "\<forall>m. length (sha256 demo_board m) = AC_HASH_LEN"
  by (auto simp: hmac_sized_def demo_hmac_def demo_sha_def min_def)

lemma demo_app_fields [simp]:
  "a_gate (demo_app g q) = g" "a_keypad (demo_app g q) = demo_keypad\<lparr>kp_queue := Some q\<rparr>" "a_salt (demo_app g q) = []"
  "a_persist (demo_app g q) = demo_store" "a_portal (demo_app g q) = demo_portal" "a_boot_count (demo_app g q) = 1"
  "a_oled_ok (demo_app g q)" "\<not> a_panel_on (demo_app g q)" "a_panel (demo_app g q) = demo_display"
  "a_border_until_ms (demo_app g q) = 0" "a_sync (demo_app g q) = demo_client"
  "a_lock (demo_app g q) = \<lparr>s_cfg = LOCK_DRIVER_DEFAULT_CONFIG, s_logic = lock_logic_init 800, s_ready = True, coil_level = False\<rparr>"
  by (simp_all add: demo_app_def)

lemma demo_app_inv: "gate_inv g \<Longrightarrow> length q \<le> 8 \<Longrightarrow> app_inv (demo_app g q)"
  by (auto simp: app_inv_def demo_app_def lock_ok_def lock_logic_init_def energised_def portal_inv_def demo_portal_def
      prov_is_open_def prov_init_def led_inv_def led_statics_def queue_ok_def demo_keypad_def)

end
