(* ===== verification/System_Door.thy ===== *)
theory System_Door
  imports Gate_System
begin

text \<open>
  What the whole program promises about the door: which steps can energise the coil, where the
  code behind an opening came from, and what a boot without a clock means.
\<close>

section \<open>The order to open\<close>

lemma hash_code_length: "\<forall>m. length (sha m) = n \<Longrightarrow> length (hash_code sha salt code) = n"
  by (simp add: hash_code_def)

lemma event_in_turn:
  assumes "Key k now \<in> set (turn_events e a)"
  obtains q where "kp_queue (a_keypad a) = Some q" "KP_EV_PRESS k \<in> set q" "now = t_now e"
proof -
  have "\<exists>ev \<in> set (snd (drain (a_keypad a))). Key k now = key_event (t_now e) ev"
    using assms by (auto simp: turn_events_def)
  then obtain ev where ev: "ev \<in> set (snd (drain (a_keypad a)))" "Key k now = key_event (t_now e) ev" by blast
  from ev(2) have p: "ev = KP_EV_PRESS k \<and> now = t_now e" by (cases ev) simp_all
  show thesis
  proof (cases "kp_queue (a_keypad a)")
    case None
    then show thesis using ev(1) by (simp add: drain_def)
  next
    case (Some q)
    then show thesis using ev(1) p by (intro that [of q]) (simp_all add: drain_def)
  qed
qed

lemma table_same_slots: "slots a = slots b \<Longrightarrow> ac_table a = ac_table b"
  by (simp add: ac_table_def fun_eq_iff)

text \<open>What an opening says about the state it happens in.\<close>

lemma opening_spec:
  assumes "\<forall>m. length (sha256 B m) = AC_HASH_LEN" "app_inv a" "\<not> energised (a_lock a)"
    "energised (a_lock (sys_step B a (Main_loop e)))" "0 \<le> epoch (t_now e)"
  shows "\<exists>q k g g' out code cid f u tr. kp_queue (a_keypad a) = Some q \<and> KP_EV_PRESS k \<in> set q \<and>
    (g, Key k (t_now e), g', out) \<in> set (turn_trace B e a) \<and> code = cstr ((stored g AC_CODE_LEN k)[AC_CODE_LEN := NUL]) \<and>
    ac_table (access a) cid = Some (hash_code (sha256 B) (a_salt a) code, f, u, tr) \<and>
    f \<le> epoch (t_now e) \<and> epoch (t_now e) \<le> u \<and> hash_code (sha256 B) (a_salt a) code \<in> table_hashes (access a)"
proof -
  let ?h = "hash_code (sha256 B) (a_salt a)"
  have g: "gate_inv (a_gate a)" "ac_inv (access a)" using assms(2) by (simp_all add: app_inv_def gate_inv_def ac_good_def)
  from energised_by_order [OF assms(2-4)] obtain g1 gev g2 out where
    tr: "(g1, gev, g2, out) \<in> set (turn_trace B e a)" and o: "open_lock out" by (metis sys_event.inject(2))
  from trace_steps [OF tr g(1)] have t: "gev \<in> set (turn_events e a)" "gate_inv g1" "gate_step ?h g1 gev = (g2, out)"
    "slots (g_ac g1) = slots (access a)" by auto
  have ep: "\<forall>key now. gev = Key key now \<longrightarrow> 0 \<le> epoch now"
    using t(1) assms(5) event_in_turn by metis
  have hl: "\<forall>s. length (?h s) = AC_HASH_LEN" using hash_code_length [OF assms(1)] by blast
  from open_order_sound [OF t(2) hl t(3) o ep] obtain k now cid f u tb where
    k: "gev = Key k now" "f \<le> epoch now" "epoch now \<le> u"
    and en: "ac_table (g_ac g1) (cstr cid) = Some (?h (cstr ((stored g1 AC_CODE_LEN k)[AC_CODE_LEN := NUL])), f, u, tb)"
    by blast
  obtain q where q: "kp_queue (a_keypad a) = Some q" "KP_EV_PRESS k \<in> set q" "now = t_now e"
    using event_in_turn [of k now e a] t(1) k(1) by blast
  have en': "ac_table (access a) (cstr cid) = Some (?h (cstr ((stored g1 AC_CODE_LEN k)[AC_CODE_LEN := NUL])), f, u, tb)"
    using en table_same_slots [OF t(4)] by simp
  from table_entry_hash [OF g(2) en'] show ?thesis using q k tr en' by blast
qed


section \<open>Properties\<close>

text \<open>C1: the door opens only for a code that was delivered.  However the scans of the keypad, the
  turns of the main loop, the polls, the courier's requests, the portal's requests and the radio's
  events interleave, the coil is energised only by a turn of the main loop that takes a key press
  from the queue; the nine characters then typed hash to an entry of the table whose window
  contains the time; and that hash was in the table at the start or in a text that came from the
  backend or the courier authenticated under the delivery key.\<close>

theorem door_opens_only_for_delivered_codes:
  assumes "hmac_sized (hmac_sha256 B)" "\<forall>m. length (sha256 B m) = AC_HASH_LEN" "app_inv s0" "sys_reach B s0 H a"
    "\<not> energised (a_lock a)" "energised (a_lock (sys_step B a ev))" "\<forall>e. ev = Main_loop e \<longrightarrow> 0 \<le> epoch (t_now e)"
  shows "\<exists>e q k g g' out code cid f u tr. ev = Main_loop e \<and> kp_queue (a_keypad a) = Some q \<and> KP_EV_PRESS k \<in> set q \<and>
    (g, Key k (t_now e), g', out) \<in> set (turn_trace B e a) \<and> code = cstr ((stored g AC_CODE_LEN k)[AC_CODE_LEN := NUL]) \<and>
    ac_table (access a) cid = Some (hash_code (sha256 B) (a_salt a) code, f, u, tr) \<and>
    f \<le> epoch (t_now e) \<and> epoch (t_now e) \<le> u \<and> hash_code (sha256 B) (a_salt a) code \<in> table_hashes (access s0) \<union> H"
proof -
  have inv: "app_inv a" by (rule reach_app_inv [OF assms(1,3,4)])
  obtain e where e: "ev = Main_loop e" using energised_by_order [OF inv assms(5,6)] by metis
  have "energised (a_lock (sys_step B a (Main_loop e)))" "0 \<le> epoch (t_now e)" using assms(6,7) e by simp_all
  from opening_spec [OF assms(2) inv assms(5) this] reach_table(1) [OF assms(1,3,4)] e show ?thesis by blast
qed

text \<open>Eight keys are in and the ninth is in the queue.\<close>

abbreviation demo_now :: ui_now where "demo_now \<equiv> \<lparr>ms = 5, epoch = 150\<rparr>"

definition demo_turn :: turn_env where
  "demo_turn = \<lparr>t_now = demo_now, t_open_ms = 5, t_tick_ms = 5, t_button = 1, t_portal = demo_env\<rparr>"

abbreviation ninth_key where "ninth_key \<equiv> demo_app eight_keys [KP_EV_PRESS CHR ''#'']"

lemma demo_turn_opens: "energised (a_lock (main_turn demo_board demo_turn ninth_key))"
  by (simp add: main_turn_parts gate_part_lock) code_simp

theorem door_opens_only_for_delivered_codes_witness:
  "\<exists>code cid f u tr. ac_table (g_ac eight_keys) cid = Some (hash_code demo_sha [] code, f, u, tr) \<and> f \<le> 150 \<and> 150 \<le> u"
proof -
  have "app_inv ninth_key" using eight_keys_inv by (simp add: demo_app_inv)
  moreover have "\<not> energised (a_lock ninth_key)" by (simp add: energised_def)
  moreover have "energised (a_lock (sys_step demo_board ninth_key (Main_loop demo_turn)))" using demo_turn_opens by simp
  ultimately show ?thesis
    using door_opens_only_for_delivered_codes [OF demo_sized _ reach_start, of ninth_key "Main_loop demo_turn"]
    by (auto simp: demo_turn_def) blast
qed

text \<open>C6: a boot without a clock never opens the door.  When the clock was not trusted at the start,
  no interleaving energises the coil, whatever is typed and delivered: not even after the network
  has brought the time.\<close>

theorem untrusted_boot_never_opens:
  assumes "hmac_sized (hmac_sha256 B)" "app_inv s0" "\<not> ac_clock_trusted (access s0)" "\<not> energised (a_lock s0)"
    "sys_reach B s0 H a"
  shows "\<not> energised (a_lock a) \<and> \<not> ac_clock_trusted (access a)"
  using assms(5)
proof (induction rule: sys_reach.induct)
  case (reach_step H a ev)
  have inv: "app_inv a" by (rule reach_app_inv [OF assms(1,2) reach_step.hyps])
  then have g: "gate_inv (a_gate a)" by (simp add: app_inv_def)
  have "\<not> energised (a_lock (sys_step B a ev))"
  proof
    assume "energised (a_lock (sys_step B a ev))"
    with reach_step.IH energised_by_order [OF inv] obtain e g1 gev g2 out where
      tr: "(g1, gev, g2, out) \<in> set (turn_trace B e a)" "open_lock out" by metis
    from trace_steps [OF tr(1) g] have "gate_inv g1" "gate_step (hash_code (sha256 B) (a_salt a)) g1 gev = (g2, out)"
      "ac_clock_trusted (g_ac g1) = ac_clock_trusted (access a)" by auto
    with open_needs_clock tr(2) reach_step.IH show False by metis
  qed
  with sys_step_table(2) [OF assms(1) inv] reach_step.IH show ?case by simp
qed (use assms in simp)


theorem untrusted_boot_never_opens_witness:
  "\<not> energised (a_lock (main_turn demo_board demo_turn (radio_event demo_board (Got_ip ''10.0.0.7'' (True, Some 1790000000))
     (demo_app (eight_keys\<lparr>g_ac := (g_ac eight_keys)\<lparr>ac_clock_trusted := False\<rparr>\<rparr>) [KP_EV_PRESS CHR ''#'']))))"
proof -
  let ?g = "eight_keys\<lparr>g_ac := (g_ac eight_keys)\<lparr>ac_clock_trusted := False\<rparr>\<rparr>"
  let ?a = "demo_app ?g [KP_EV_PRESS CHR ''#'']"
  have "ac_good (g_ac ?g)"
    using ac_good_slots [of "g_ac ?g" "g_ac eight_keys"] eight_keys_inv by (simp add: gate_inv_def)
  then have "gate_inv ?g" using eight_keys_inv by (simp add: gate_inv_def)
  then have i: "app_inv ?a" by (simp add: demo_app_inv)
  have "sys_reach demo_board ?a ({} \<union> brought demo_board ?a (Radio (Got_ip ''10.0.0.7'' (True, Some 1790000000))))
      (sys_step demo_board ?a (Radio (Got_ip ''10.0.0.7'' (True, Some 1790000000))))"
    by (intro reach_step reach_start)
  from reach_step [OF this, of "Main_loop demo_turn"]
    untrusted_boot_never_opens [OF demo_sized(1) i, of _ "main_turn demo_board demo_turn
      (radio_event demo_board (Got_ip ''10.0.0.7'' (True, Some 1790000000)) ?a)"]
  show ?thesis by (simp add: energised_def)
qed

end
