(* ===== verification/System_Panel.thy ===== *)
theory System_Panel
  imports System_Door
begin

text \<open>
  What is on the panel: the frame of the state the turn ended in, whenever the panel answers in
  that turn, whatever failed before.
\<close>

section \<open>Frames\<close>

lemma fb_ok_text_loop [simp]: "fb_ok (text_loop fb x y s scale) = fb_ok fb"
  by (induction s arbitrary: fb x) simp_all

lemma fb_ok_text [simp]: "fb_ok (oled_fb_text fb x y s scale) = fb_ok fb"
  by (simp add: oled_fb_text_def split: option.split)

lemma fb_ok_centered [simp]: "fb_ok (oled_fb_text_centered fb y s scale) = fb_ok fb"
  by (simp add: oled_fb_text_centered_def)

lemma fb_ok_bar [simp]: "fb_ok (draw_bar fb y permille) = fb_ok fb"
  by (simp add: draw_bar_def Let_def)

lemma fb_ok_compose [simp]: "fb_ok (oled_compose fb r)"
  by (simp add: oled_compose_def Let_def split: option.split ui_screen.split)

lemma fb_ok_border [simp]: "fb_ok (oled_fb_border fb) = fb_ok fb"
  by (simp add: oled_fb_border_def)



section \<open>One turn\<close>















section \<open>The run\<close>






section \<open>Properties\<close>











end
