(* ===== verification/System_Portal.thy ===== *)
theory System_Portal
  imports System_Door
begin

text \<open>
  The portal in the running program: its session ends on time and takes the codes it created with
  it, and a request that no handler wants leaves the connection at the next one.
\<close>

section \<open>Requests and the session\<close>

lemma login_session:
  "prov_is_open (p_ctx (fst (prov_session_login user pass p))) \<Longrightarrow>
     prov_is_open (p_ctx p) \<and> opened_ms (p_ctx (fst (prov_session_login user pass p))) = opened_ms (p_ctx p)"
  "p_button (fst (prov_session_login user pass p)) = p_button p"
  by (auto simp: prov_session_login_def prov_login_def close_session_def prov_is_open_def Let_def split_def split: if_splits)

lemma http_session:
  "prov_is_open (p_ctx (fst (fst (http_handle W N e r req (p, st))))) \<Longrightarrow>
     prov_is_open (p_ctx p) \<and> opened_ms (p_ctx (fst (fst (http_handle W N e r req (p, st))))) = opened_ms (p_ctx p)"
  "p_button (fst (fst (http_handle W N e r req (p, st)))) = p_button p"
proof -
  have page: "p_button (fst (wifi_page W req m q)) = p_button q" for m and q :: "'a portal"
    by (simp add: wifi_page_def split_def Let_def)
  have post: "p_button (fst (fst (wifi_post W N e req (p, st)))) = p_button p"
    by (simp add: wifi_post_def split_def Let_def page split: option.split)
  have login: "p_button (fst (login_post e req p)) = p_button p \<and> (prov_is_open (p_ctx (fst (login_post e req p))) \<longrightarrow>
      prov_is_open (p_ctx p) \<and> opened_ms (p_ctx (fst (login_post e req p))) = opened_ms (p_ctx p))"
    by (cases rule: login_post_portal [of e req p]) (use login_session in \<open>auto\<close>)
  have "p_button (fst (fst (http_handle W N e r req (p, st)))) = p_button p \<and>
    (prov_is_open (p_ctx (fst (fst (http_handle W N e r req (p, st))))) \<longrightarrow>
      prov_is_open (p_ctx p) \<and> opened_ms (p_ctx (fst (fst (http_handle W N e r req (p, st))))) = opened_ms (p_ctx p))"
    using login page post
    by (cases r) (simp_all add: root_get_def finish_get_def console_get_def catch_all_def wifi_get_def logout_get_def split_def
        prov_session_finish_def prov_session_logout_def prov_is_open_def)
  then show "prov_is_open (p_ctx (fst (fst (http_handle W N e r req (p, st))))) \<Longrightarrow>
     prov_is_open (p_ctx p) \<and> opened_ms (p_ctx (fst (fst (http_handle W N e r req (p, st))))) = opened_ms (p_ctx p)"
    "p_button (fst (fst (http_handle W N e r req (p, st)))) = p_button p" by blast+
qed

text \<open>Between two turns the session is at most ended.\<close>

lemma between_turns:
  assumes "\<forall>ev\<in>set evs. \<forall>e. ev \<noteq> Main_loop e" "prov_is_open (p_ctx (a_portal (foldl (sys_step B) a evs)))"
  shows "prov_is_open (p_ctx (a_portal a)) \<and>
    opened_ms (p_ctx (a_portal (foldl (sys_step B) a evs))) = opened_ms (p_ctx (a_portal a)) \<and>
    p_button (a_portal (foldl (sys_step B) a evs)) = p_button (a_portal a)"
  using assms
proof (induction evs arbitrary: a)
  case (Cons ev evs)
  let ?b = "sys_step B a ev"
  have b: "prov_is_open (p_ctx (a_portal ?b)) \<and> opened_ms (p_ctx (a_portal (foldl (sys_step B) ?b evs))) = opened_ms (p_ctx (a_portal ?b)) \<and>
    p_button (a_portal (foldl (sys_step B) ?b evs)) = p_button (a_portal ?b)"
    using Cons.prems by (intro Cons.IH) simp_all
  have "prov_is_open (p_ctx (a_portal a)) \<and> opened_ms (p_ctx (a_portal ?b)) = opened_ms (p_ctx (a_portal a)) \<and>
      p_button (a_portal ?b) = p_button (a_portal a)"
  proof (cases ev)
    case (Web r req e)
    then show ?thesis using b http_session [of "radio_ops B" "creds_ops B" e r req "a_portal a" "a_creds a"]
      by (cases "http_server (a_portal a)") (simp_all add: split_def)
  next
    case (Radio nev)
    then show ?thesis using b by (cases nev) (auto simp: radio_event_def on_network_time_def Let_def split: option.splits)
  next
    case (Main_loop e)
    then show ?thesis using Cons.prems(1) by simp
  qed (use b in \<open>simp_all add: split_def split: if_splits\<close>)
  with b show ?case by simp
qed simp


section \<open>The end of a session\<close>

lemma overdue_tick:
  assumes "prov_is_open (p_ctx p)" "p_button p \<noteq> GPIO_NUM_NC" "PROV_SESSION_MS \<le> now - opened_ms (p_ctx p)"
  shows "snd (wifi_prov_tick W e level now p) = WIFI_PROV_EVT_CLOSED"
  using assms
  by (auto simp: wifi_prov_tick_def prov_button_def prov_tick_def prov_close_def close_session_def prov_is_open_def Let_def
      split_def split: if_splits)


lemma turn_closes:
  assumes "app_inv a" "snd (wifi_prov_tick (radio_ops B) (t_portal e) (t_button e) (ms (t_now e)) (a_portal a)) = WIFI_PROV_EVT_CLOSED"
  shows "\<not> wifi_prov_is_open (a_portal (main_turn B e a))" "\<not> ap_running (a_portal (main_turn B e a))"
    "\<not> http_server (a_portal (main_turn B e a))"
    "ac_table (access (main_turn B e a)) i = Some (h, f, u, tr) \<Longrightarrow> \<not> tr"
proof -
  let ?g = "gate_part B e a"
  have i: "gate_inv (a_gate a)" "lock_ok (a_lock a)" "portal_inv (a_portal a)" using assms(1) by (simp_all add: app_inv_def)
  note t = tick_portal(3) [OF i(3) prod.collapse [symmetric], of "radio_ops B" "t_portal e" "t_button e" "ms (t_now e)"]
  from t assms(2) portal_part_portal [of B e ?g]
  show "\<not> wifi_prov_is_open (a_portal (main_turn B e a))" "\<not> ap_running (a_portal (main_turn B e a))"
    "\<not> http_server (a_portal (main_turn B e a))"
    by (simp_all add: main_turn_parts wifi_prov_is_open_def)
  have ac: "ac_inv (access ?g)" using gate_part_inv(1) [OF i(1,2), of B e] by (simp add: gate_inv_def ac_good_def)
  have "access (main_turn B e a) = fst (ac_revoke_transient (access ?g))"
    using assms(2) by (simp add: main_turn_parts portal_part_access)
  then show "ac_table (access (main_turn B e a)) i = Some (h, f, u, tr) \<Longrightarrow> \<not> tr"
    by (auto simp: revoke_transient_table [OF ac] split: option.splits if_splits)
qed


section \<open>Properties\<close>

text \<open>C16: a session of the portal ends on time, whatever the visitor does.  Requests, logins, events of
  the radio, deliveries and scans between two turns never reopen or prolong it: the first turn that
  reads the clock five minutes or more after the opening finds it ended or ends it, and if that turn
  ends it, the access point and the web server are down and no code that the session created is in
  the table.\<close>

theorem portal_session_ends:
  assumes "hmac_sized (hmac_sha256 B)" "app_inv a" "p_button (a_portal a) \<noteq> GPIO_NUM_NC"
    "\<forall>ev\<in>set evs. \<forall>e. ev \<noteq> Main_loop e" "a' = foldl (sys_step B) a evs" "t_button e \<noteq> 0"
    "PROV_SESSION_MS \<le> ms (t_now e) - opened_ms (p_ctx (a_portal a))"
  shows "\<not> wifi_prov_is_open (a_portal (main_turn B e a')) \<and>
    (wifi_prov_is_open (a_portal a') \<longrightarrow> \<not> ap_running (a_portal (main_turn B e a')) \<and> \<not> http_server (a_portal (main_turn B e a')) \<and>
      (\<forall>i h f u tr. ac_table (access (main_turn B e a')) i = Some (h, f, u, tr) \<longrightarrow> \<not> tr))"
proof (cases "prov_is_open (p_ctx (a_portal a'))")
  case True
  have inv: "app_inv a'" using machine.run_inv [OF sys_machine [OF assms(1)] assms(2), of evs] by (simp add: assms(5) list_all_iff)
  have "opened_ms (p_ctx (a_portal a')) = opened_ms (p_ctx (a_portal a)) \<and> p_button (a_portal a') = p_button (a_portal a)"
    using between_turns [OF assms(4), of B a] True by (simp add: assms(5))
  then have "snd (wifi_prov_tick (radio_ops B) (t_portal e) (t_button e) (ms (t_now e)) (a_portal a')) = WIFI_PROV_EVT_CLOSED"
    using assms(3,7) by (intro overdue_tick [OF True]) simp_all
  from turn_closes [OF inv this] show ?thesis by blast
next
  case False
  obtain ctx b where "wifi_prov_tick (radio_ops B) (t_portal e) (t_button e) (ms (t_now e)) (a_portal a') =
      ((a_portal a')\<lparr>p_finish_requested := b, p_ctx := ctx\<rparr>, WIFI_PROV_EVT_NONE)" "\<not> prov_is_open ctx"
    using closed_tick [OF False assms(6)] by blast
  with False portal_part_portal(1) [of B e "gate_part B e a'"] show ?thesis
    by (simp add: main_turn_parts wifi_prov_is_open_def)
qed

text \<open>A portal opened at 0 with its access point up, and a visitor who logs in after five minutes.\<close>

definition open_app where
  "open_app = (demo_app demo_gate [])\<lparr>a_portal := demo_portal\<lparr>p_ctx := prov_init\<lparr>state := PROV_STATE_OPEN\<rparr>,
     ap_running := True, http_server := True\<rparr>\<rparr>"

theorem portal_session_ends_witness:
  "\<not> wifi_prov_is_open (a_portal (main_turn demo_board (demo_turn\<lparr>t_now := \<lparr>ms = 300000, epoch = 450\<rparr>\<rparr>)
     (foldl (sys_step demo_board) open_app [Web Login_form login_req demo_http_env])))"
proof -
  have "app_inv open_app"
    using demo_app_inv [OF demo_gate_inv, of "[]"] by (auto simp: open_app_def app_inv_def portal_inv_def)
  from portal_session_ends [OF demo_sized(1) this _ _ refl, of "[Web Login_form login_req demo_http_env]"
      "demo_turn\<lparr>t_now := \<lparr>ms = 300000, epoch = 450\<rparr>\<rparr>"]
  show ?thesis by (simp add: open_app_def demo_portal_def demo_turn_def prov_init_def)
qed

end
