(* ===== verification/System_Guest.thy ===== *)
theory System_Guest
  imports System_Door
begin

text \<open>
  The guest at the door: a code the table holds opens it, within the turn that takes its last key
  from the queue.
\<close>

section \<open>The last key\<close>

lemma entry_decides:
  assumes "typing g p" "length p + length ks = AC_CODE_LEN" "ks \<noteq> []" "NUL \<notin> set ks"
    "\<not> ac_is_locked_out (g_ac g) (epoch n)" "ac_evaluate (g_ac g) (Some (hash (p @ ks))) (epoch n) = (ac', r, cid)"
  shows "map open_lock (snd (type_keys hash g (map (\<lambda>k. (k, n)) ks))) = replicate (length ks - 1) False @ [r = AC_GRANTED]"
    "g_ac (fst (type_keys hash g (map (\<lambda>k. (k, n)) ks))) = ac'"
proof -
  define xs k where "xs = butlast ks" and "k = last ks"
  have ks: "ks = xs @ [k]" using assms(3) by (simp add: xs_def k_def)
  let ?kns = "map (\<lambda>k. (k, n)) xs" and ?q = "p @ xs"
  let ?g1 = "fst (type_keys hash g ?kns)"
  have len: "length p + length xs = 8" using assms(2) by (simp add: ks)
  have k: "k \<noteq> NUL" "NUL \<notin> set xs" using assms(4) by (auto simp: ks)
  have t8: "typing ?g1 (p @ map fst ?kns) \<and> g_ac ?g1 = g_ac g \<and> snd (type_keys hash g ?kns) = replicate (length ?kns) zero_out"
    by (rule type_keys_typing [OF assms(1)]) (use len k assms(5) in \<open>auto simp: image_image\<close>)
  moreover have "map fst ?kns = xs" by (simp add: comp_def)
  ultimately have t: "typing ?g1 ?q" and ac: "g_ac ?g1 = g_ac g" and o: "snd (type_keys hash g ?kns) = replicate (length xs) zero_out"
    by simp_all
  have q: "length ?q = 8" "length ?q < AC_CODE_LEN" using len by simp_all
  have locked: "\<not> ac_is_locked_out (g_ac ?g1) (epoch n)" using assms(5) ac by simp
  from key_typing [OF t q(2) k(1) locked, of hash] q(1) ac obtain g2 where
    g2: "g_ac g2 = g_ac g" "buf g2 = ?q @ [k, NUL]" and on: "gate_on_key hash ?g1 k n = submit hash g2 n zero_out"
    by (auto simp: numeral_eq_Suc)
  have "NUL \<notin> set ?q" using t by (simp add: typing_def)
  moreover have "(?q @ [k, NUL])[AC_CODE_LEN := NUL] = ?q @ [k, NUL]"
    using len by (subst list_update_append) simp
  ultimately have code: "cstr ((buf g2)[AC_CODE_LEN := NUL]) = p @ ks"
    using k(1) by (simp add: g2(2) ks cstr_append cstr_id)
  have ty: "type_keys hash g (map (\<lambda>k. (k, n)) ks) =
      (fst (submit hash g2 n zero_out), replicate (length xs) zero_out @ [snd (submit hash g2 n zero_out)])"
    using o on by (simp add: ks type_keys_snoc split_def Let_def)
  have e: "ac_evaluate (g_ac g2) (Some (hash (cstr ((buf g2)[AC_CODE_LEN := NUL])))) (epoch n) = (ac', r, cid)"
    using assms(6) by (simp only: g2(1) code)
  have "open_lock (snd (submit hash g2 n zero_out)) \<longleftrightarrow> r = AC_GRANTED" "g_ac (fst (submit hash g2 n zero_out)) = ac'"
    by (simp_all only: submit_def e Let_def split_conv) simp_all
  then show "map open_lock (snd (type_keys hash g (map (\<lambda>k. (k, n)) ks))) = replicate (length ks - 1) False @ [r = AC_GRANTED]"
    "g_ac (fst (type_keys hash g (map (\<lambda>k. (k, n)) ks))) = ac'"
    unfolding ty by (simp_all add: ks) (simp add: zero_out_def)
qed

lemma keys_trace:
  "map (\<lambda>(g, ev, g', out). out) (gate_trace hash g (map (\<lambda>k. Key k n) ks @ evs)) =
     snd (type_keys hash g (map (\<lambda>k. (k, n)) ks)) @
     map (\<lambda>(g, ev, g', out). out) (gate_trace hash (fst (type_keys hash g (map (\<lambda>k. (k, n)) ks))) evs)"
  by (induction ks arbitrary: g) (simp_all add: split_def Let_def)

text \<open>The lock sees only the orders.\<close>

lemma lock_of_trace:
  "a_lock (foldl (handled B t) a tr) =
     foldl (\<lambda>d out. if open_lock out then fst (lock_driver_open d t) else d) (a_lock a) (map (\<lambda>(g, ev, g', out). out) tr)"
proof (induction tr arbitrary: a)
  case (Cons st tr)
  obtain g ev g' out where st: "st = (g, ev, g', out)" by (cases st)
  then show ?case using Cons [of "handled B t a st"] by (simp add: handled_def handle_lock)
qed simp

lemma lock_orders:
  "foldl (\<lambda>d out. if open_lock out then f d else d) d outs = foldl (\<lambda>d b. if b then f d else d) d (map open_lock outs)"
  by (induction outs arbitrary: d) simp_all

lemma no_orders: "foldl (\<lambda>d b. if b then f d else d) d (replicate n False) = d"
  by (induction n) simp_all


section \<open>The pulse\<close>

lemma idle_lock_opens:
  assumes "lock_ok d" "s_ready d" "lock_state (lock_logic_tick (s_logic d) t) = LOCK_IDLE" "t' - t < pulse_ms (s_logic d)"
  shows "energised (lock_driver_tick (fst (lock_driver_open d t)) t')"
    "pulse_started_ms (s_logic (lock_driver_tick (fst (lock_driver_open d t)) t')) = t"
proof -
  let ?u = "lock_logic_tick (s_logic d) t"
  let ?st = "?u\<lparr>lock_state := LOCK_PULSING, pulse_started_ms := t, pulses_total := pulses_total ?u + 1\<rparr>"
  have r: "lock_logic_request (s_logic d) t = (?st, True)" using assms(3) by (simp add: request_spec Let_def)
  have p: "pulse_ms ?st = pulse_ms (s_logic d)" by (simp add: pulse_ms_tick)
  have op: "s_logic (fst (lock_driver_open d t)) = ?st" "s_ready (fst (lock_driver_open d t))"
    using assms(2) by (simp_all add: lock_driver_open_def r)
  have "\<not> elapsed t' (pulse_started_ms ?st) (pulse_ms ?st)" using assms(4) p by (simp add: elapsed_def)
  then have tick: "lock_logic_tick ?st t' = ?st" by (simp add: lock_logic_tick_def)
  have "lock_logic_output ?st t'" using output_after_tick [of ?st t'] by (simp add: tick)
  then show "energised (lock_driver_tick (fst (lock_driver_open d t)) t')"
    "pulse_started_ms (s_logic (lock_driver_tick (fst (lock_driver_open d t)) t')) = t"
    using op by (simp_all add: lock_driver_tick_def tick)
qed

lemma evaluate_grants:
  assumes "ac_inv ctx" "length h = AC_HASH_LEN" "0 \<le> now" "ac_clock_trusted ctx" "lockout_until ctx \<le> now" "hash_unique ctx h"
    "ac_table ctx k = Some (h, f, u, tr)" "f \<le> now" "now \<le> u"
  obtains cid where "ac_evaluate ctx (Some h) now = (ctx\<lparr>failed_attempts := 0, lockout_until := 0\<rparr>, AC_GRANTED, cid)"
proof -
  from evaluate_match [OF assms(1-5)] obtain cid f' u' tr' where
    m: "ac_table ctx (cstr cid) = Some (h, f', u', tr')"
      "ac_evaluate ctx (Some h) now =
          (if now < f' then (ac_tick ctx now, AC_DENIED_NOT_YET, None)
           else if u' < now then (ac_tick ctx now, AC_DENIED_EXPIRED, None)
           else (ctx\<lparr>failed_attempts := 0, lockout_until := 0\<rparr>, AC_GRANTED, Some cid))"
    using assms(7) by blast
  have "f' = f" "u' = u" using hash_uniqueD [OF assms(6,7) m(1)] by simp_all
  then show thesis using that m(2) assms(8,9) by simp
qed


section \<open>Properties\<close>

text \<open>C2: a valid code opens the door.  When the clock is trusted, no lockout runs and the table holds,
  once, the hash of a code whose window contains the time, then in any state of the program with the
  first keys of the code typed and the rest in the queue, the turn that takes them energises the
  coil, provided the lock is ready and past its cooldown; the pulse counts from the reading of the
  counter at the opening.\<close>

theorem valid_code_opens_the_door:
  assumes "\<forall>m. length (sha256 B m) = AC_HASH_LEN" "app_inv a" "typing (a_gate a) p" "length p + length ks = AC_CODE_LEN"
    "ks \<noteq> []" "NUL \<notin> set ks" "kp_queue (a_keypad a) = Some (map KP_EV_PRESS ks)"
    "ac_clock_trusted (access a)" "lockout_until (access a) \<le> epoch (t_now e)" "0 \<le> epoch (t_now e)"
    "ac_table (access a) cid = Some (hash_code (sha256 B) (a_salt a) (p @ ks), f, u, tr)" "f \<le> epoch (t_now e)" "epoch (t_now e) \<le> u"
    "hash_unique (access a) (hash_code (sha256 B) (a_salt a) (p @ ks))"
    "s_ready (a_lock a)" "lock_state (lock_logic_tick (s_logic (a_lock a)) (t_open_ms e)) = LOCK_IDLE"
    "t_tick_ms e - t_open_ms e < pulse_ms (s_logic (a_lock a))"
  shows "energised (a_lock (main_turn B e a)) \<and> pulse_started_ms (s_logic (a_lock (main_turn B e a))) = t_open_ms e"
proof -
  let ?h = "hash_code (sha256 B) (a_salt a)" and ?n = "t_now e"
  let ?a = "a\<lparr>a_keypad := fst (drain (a_keypad a))\<rparr>"
  let ?kns = "map (\<lambda>k. (k, ?n)) ks"
  let ?orders = "map (\<lambda>(g, ev, g', out). out) (turn_trace B e a)"
  have inv: "ac_inv (access a)" "lock_ok (a_lock a)" using assms(2) by (simp_all add: app_inv_def gate_inv_def ac_good_def)
  have h: "length (?h (p @ ks)) = AC_HASH_LEN" by (rule hash_code_length [OF assms(1)])
  obtain ac c where ev: "ac_evaluate (access a) (Some (?h (p @ ks))) (epoch ?n) = (ac, AC_GRANTED, c)"
    by (rule evaluate_grants [OF inv(1) h assms(10,8,9,14,11,12,13)])
  have "\<not> ac_is_locked_out (access a) (epoch ?n)" using assms(9) by (simp add: ac_is_locked_out_def)
  from entry_decides(1) [where hash = ?h, OF assms(3-6) this ev] have
    o: "map open_lock (snd (type_keys ?h (a_gate a) ?kns)) = replicate (length ks - 1) False @ [True]" by simp
  have evs: "turn_events e a = map (\<lambda>k. Key k ?n) ks @ [Gate_tick ?n]"
    by (simp add: turn_events_def drain_def assms(7) comp_def)
  have tick: "\<not> open_lock (snd (gate_tick g ?n))" for g by (simp add: gate_tick_def zero_out_def split_def Let_def)
  have "map open_lock (map (\<lambda>(g, ev, g', out). out) (gate_trace ?h g [Gate_tick ?n])) = [False]" for g
    using tick by (simp add: split_def)
  then have "map open_lock ?orders = (replicate (length ks - 1) False @ [True]) @ [False]"
    by (simp only: evs keys_trace map_append o)
  then have "a_lock (foldl (handled B (t_open_ms e)) ?a (turn_trace B e a)) = fst (lock_driver_open (a_lock a) (t_open_ms e))"
    by (simp add: lock_of_trace lock_orders no_orders)
  then have "a_lock (main_turn B e a) = lock_driver_tick (fst (lock_driver_open (a_lock a) (t_open_ms e))) (t_tick_ms e)"
    by (simp add: main_turn_parts gate_part_lock)
  with idle_lock_opens [OF inv(2) assms(15,16,17)] show ?thesis by simp
qed

text \<open>Eight keys of the code of the demonstration are in, the ninth is in the queue.\<close>

lemma demo_entry:
  "ac_table (g_ac eight_keys) ''0000002a'' = Some (hash_code demo_sha [] ''12A34B56#'', 100, 200, False)"
  "ac_clock_trusted (g_ac eight_keys)" "lockout_until (g_ac eight_keys) = 0"
  "ac_count (g_ac eight_keys) = 1"
  by code_simp+

lemma demo_only: "hash_unique (g_ac eight_keys) h"
proof -
  have "ac_table (g_ac eight_keys) c = None" if "c \<noteq> ''0000002a''" for c
  proof (rule ccontr)
    assume "ac_table (g_ac eight_keys) c \<noteq> None"
    then have d: "{c, ''0000002a''} \<subseteq> dom (ac_table (g_ac eight_keys))" using demo_entry(1) by auto
    have inv: "ac_inv (g_ac eight_keys)" using eight_keys_inv by (simp add: gate_inv_def ac_good_def)
    have "card (dom (ac_table (g_ac eight_keys))) = 1" using card_ac_table [OF inv] demo_entry(4) by simp
    moreover have "card {c, ''0000002a''} = 2" using that by simp
    ultimately show False using card_mono [OF finite_ac_table [OF inv] d] by simp
  qed
  then show ?thesis unfolding hash_unique_def by (metis option.distinct(1))
qed

theorem valid_code_opens_the_door_witness:
  "energised (a_lock (main_turn demo_board demo_turn ninth_key))"
proof -
  have t: "typing (a_gate ninth_key) ''12A34B56''"
    using type_keys_typing [of demo_gate "[]" "take 8 demo_keys" demo_hash] typing_fresh [of demo_gate]
    by (simp add: eight_keys_def demo_gate_inv demo_gate_fields ac_is_locked_out_def del: type_keys.simps)
  have inv: "app_inv ninth_key" using eight_keys_inv by (simp add: demo_app_inv)
  have en: "ac_table (access ninth_key) ''0000002a'' =
      Some (hash_code (sha256 demo_board) (a_salt ninth_key) (''12A34B56'' @ ''#''), 100, 200, False)"
    using demo_entry(1) by simp
  show ?thesis
    by (rule valid_code_opens_the_door [OF demo_sized(2) inv t _ _ _ _ _ _ _ en, THEN conjunct1])
      (simp_all add: demo_entry demo_only demo_turn_def lock_logic_init_def lock_logic_tick_def)
qed

end
