(* ===== verification/System_Boot.thy ===== *)
theory System_Boot
  imports System_Door
begin

text \<open>
  The boot: it leaves the program in a state that satisfies the invariant, with the coil off, and
  decides there whether the clock is trusted.
\<close>

section \<open>What each stage leaves alone\<close>

text \<open>The statics before the first instruction of \<open>app_main\<close>: nothing is running.\<close>

definition power_on :: "('w, 's, 'e, 'r, 'd, 'n) app \<Rightarrow> bool" where
  "power_on a \<longleftrightarrow> \<not> kp_running (a_keypad a) \<and> \<not> ap_running (a_portal a) \<and> \<not> http_server (a_portal a) \<and>
     \<not> led_valid (a_led a)"

lemma boot_clock_keeps [simp]:
  "a_gate (fst (boot_clock B ok a)) = a_gate a" "a_keypad (fst (boot_clock B ok a)) = a_keypad a"
  "a_portal (fst (boot_clock B ok a)) = a_portal a" "a_led (fst (boot_clock B ok a)) = a_led a"
  "a_lock (fst (boot_clock B ok a)) = a_lock a" "a_salt (fst (boot_clock B ok a)) = a_salt a"
  "a_persist (fst (boot_clock B ok a)) = a_persist a" "a_creds (fst (boot_clock B ok a)) = a_creds a"
  by (simp_all add: boot_clock_def split_def Let_def split: sum.split)

lemma boot_clock_rtc: "a_rtc a = a_rtc b \<Longrightarrow> snd (boot_clock B ok a) = snd (boot_clock B ok b)"
  by (simp add: boot_clock_def split_def Let_def split: sum.split)

lemma boot_persist_keeps [simp]:
  "g_ui (a_gate (boot_persist B ok a)) = g_ui (a_gate a)" "a_keypad (boot_persist B ok a) = a_keypad a"
  "a_portal (boot_persist B ok a) = a_portal a" "a_led (boot_persist B ok a) = a_led a"
  "a_lock (boot_persist B ok a) = a_lock a" "a_salt (boot_persist B ok a) = a_salt a"
  "a_creds (boot_persist B ok a) = a_creds a"
  by (simp_all add: boot_persist_def persist_attempts_now_def split_def Let_def split: option.split)

lemma boot_panel_keeps [simp]:
  "a_gate (boot_panel B err a) = a_gate a" "a_keypad (boot_panel B err a) = a_keypad a"
  "a_portal (boot_panel B err a) = a_portal a" "a_led (boot_panel B err a) = a_led a"
  "a_lock (boot_panel B err a) = a_lock a" "a_salt (boot_panel B err a) = a_salt a" "a_creds (boot_panel B err a) = a_creds a"
  "a_persist (boot_panel B err a) = a_persist a" "a_boot_count (boot_panel B err a) = a_boot_count a"
  by (simp_all add: boot_panel_def split_def Let_def)

lemma boot_tasks_keeps [simp]:
  "a_gate (boot_tasks B s e a) = a_gate a" "a_keypad (boot_tasks B s e a) = a_keypad a"
  "a_portal (boot_tasks B s e a) = a_portal a" "a_led (boot_tasks B s e a) = a_led a"
  "a_lock (boot_tasks B s e a) = a_lock a" "a_salt (boot_tasks B s e a) = a_salt a"
  "a_persist (boot_tasks B s e a) = a_persist a" "a_boot_count (boot_tasks B s e a) = a_boot_count a"
  by (simp_all add: boot_tasks_def split_def Let_def)

lemma keypad_start_ok:
  assumes "keypad_start e (Some c) True k = Some (k', ESP_OK)" "\<not> kp_running k"
  shows "kp_queue k' = Some [] \<and> kp_running k' \<and> kp_cfg k' = c"
  using assms by (auto simp: keypad_start_def Let_def split: if_splits)

lemma wifi_prov_init_keeps:
  "wifi_prov_init e err cfg p = Some (p', ESP_OK) \<Longrightarrow>
     p_ctx p' = prov_init \<and> ap_running p' = ap_running p \<and> http_server p' = http_server p"
  by (auto simp: wifi_prov_init_def Let_def split: if_splits)

lemma led_init_valid: "\<not> led_valid d \<Longrightarrow> led_inv (fst (status_led_init err d))"
  by (simp add: led_inv_def status_led_init_def strip_clear_def show_colour_def Let_def pixel_of_def)


section \<open>The stages together\<close>

text \<open>The state of a boot before the first driver of the door is started.\<close>

definition booted_table ::
  "('w, 's, 'e, 'r, 'd, 'n) board \<Rightarrow> kconfig \<Rightarrow> secrets \<Rightarrow> main_env \<Rightarrow> ('w, 's, 'e, 'r, 'd, 'n) app \<Rightarrow>
     ('w, 's, 'e, 'r, 'd, 'n) app" where
  "booted_table B cfg s e a0 =
     (let a = set_access (ac_init (MAX_FAILED_ATTEMPTS cfg) (LOCKOUT_SECONDS cfg)) (a0\<lparr>a_salt := GATE_DEVICE_SALT s\<rparr>);
          (a, clock) = boot_clock B (b_rtc_added e) a;
          a = boot_persist B (b_eeprom_added e) a
      in gate_app_set_clock_trusted (clock \<noteq> None) (a\<lparr>a_gate := (a_gate a)\<lparr>g_ui := ui_init\<rparr>\<rparr>))"

lemma app_boot_unfold:
  "app_boot B cfg s e a0 = do {
     gate_guard_check (DEV_CONSOLE cfg) s;
     error_check (b_bus_err e);
     let t = booted_table B cfg s e a0;
     let a = boot_panel B (b_panel_added e) (t\<lparr>a_gate := gate_init (access t) (g_ui (a_gate t))\<rparr>);
     let (lock, lock_ok) = lock_driver_init (b_lock_gpio_ok e) (Some LOCK_DRIVER_DEFAULT_CONFIG) (a_lock a);
     (if lock_ok then Some () else None);
     (k, err) \<leftarrow> keypad_start (b_keypad e) (Some KEYPAD_DEFAULT_CONFIG) True (a_keypad a);
     error_check err;
     (p, err) \<leftarrow> wifi_prov_init (b_net e) (b_button_err e) (portal_config s) (a_portal a);
     error_check err;
     (l, err) \<leftarrow> net_link_init (b_net e) True (p_link p);
     error_check err;
     let l = fst (net_link_sta_start (radio_ops B) (creds_ops B) (a_creds a) l);
     let a = boot_tasks B s e (a\<lparr>a_lock := lock, a_keypad := k, a_portal := p\<lparr>p_link := l\<rparr>\<rparr>);
     let a = a\<lparr>a_led := fst (status_led_init (b_led_err e) (a_led a))\<rparr>;
     error_check (b_wdt_err e);
     Some a
   }"
  unfolding app_boot_def booted_table_def Let_def split_def by (rule refl)

lemma booted_table_keeps [simp]:
  "a_keypad (booted_table B cfg s e a) = a_keypad a" "a_portal (booted_table B cfg s e a) = a_portal a"
  "a_led (booted_table B cfg s e a) = a_led a" "a_lock (booted_table B cfg s e a) = a_lock a"
  "a_salt (booted_table B cfg s e a) = GATE_DEVICE_SALT s" "a_creds (booted_table B cfg s e a) = a_creds a"
  by (simp_all add: booted_table_def gate_app_set_clock_trusted_def split_def Let_def)

lemma error_check_Some [simp]: "error_check err = Some u \<longleftrightarrow> err = ESP_OK"
  by (cases u) (simp add: error_check_def)

lemma app_boot_stages:
  assumes "app_boot B cfg s e a0 = Some a"
  obtains k p l where "gate_guard_check (DEV_CONSOLE cfg) s \<noteq> None"
    "keypad_start (b_keypad e) (Some KEYPAD_DEFAULT_CONFIG) True (a_keypad a0) = Some (k, ESP_OK)"
    "wifi_prov_init (b_net e) (b_button_err e) (portal_config s) (a_portal a0) = Some (p, ESP_OK)"
    "a_gate a = gate_init (access (booted_table B cfg s e a0)) (g_ui (a_gate (booted_table B cfg s e a0)))"
    "a_lock a = fst (lock_driver_init (b_lock_gpio_ok e) (Some LOCK_DRIVER_DEFAULT_CONFIG) (a_lock a0))"
    "snd (lock_driver_init (b_lock_gpio_ok e) (Some LOCK_DRIVER_DEFAULT_CONFIG) (a_lock a0))"
    "a_keypad a = k" "a_portal a = p\<lparr>p_link := l\<rparr>" "a_led a = fst (status_led_init (b_led_err e) (a_led a0))"
    "a_salt a = GATE_DEVICE_SALT s" "a_persist a = a_persist (booted_table B cfg s e a0)"
    "a_boot_count a = a_boot_count (booted_table B cfg s e a0)"
proof -
  note b = assms [unfolded app_boot_unfold]
  obtain g where g: "gate_guard_check (DEV_CONSOLE cfg) s = Some g" using b by (cases "gate_guard_check (DEV_CONSOLE cfg) s") simp_all
  obtain lock ok where lk: "lock_driver_init (b_lock_gpio_ok e) (Some LOCK_DRIVER_DEFAULT_CONFIG) (a_lock a0) = (lock, ok)"
    by fastforce
  note b1 = b [unfolded Let_def split_def, simplified g lk booted_table_keeps boot_panel_keeps app.simps]
  have be: "b_bus_err e = ESP_OK" "ok" using b1 by (auto simp: lk error_check_def split: if_splits)
  obtain k err where k: "keypad_start (b_keypad e) (Some KEYPAD_DEFAULT_CONFIG) True (a_keypad a0) = Some (k, err)"
    using b1 be by (cases "keypad_start (b_keypad e) (Some KEYPAD_DEFAULT_CONFIG) True (a_keypad a0)") (auto simp: lk error_check_def)
  have ke: "err = ESP_OK" using b1 be by (simp add: lk k error_check_def split: if_splits)
  obtain p err2 where p: "wifi_prov_init (b_net e) (b_button_err e) (portal_config s) (a_portal a0) = Some (p, err2)"
    using b1 be ke
    by (cases "wifi_prov_init (b_net e) (b_button_err e) (portal_config s) (a_portal a0)") (auto simp: lk k error_check_def)
  have pe: "err2 = ESP_OK" using b1 be ke by (simp add: lk k p error_check_def split: if_splits)
  obtain l err3 where l: "net_link_init (b_net e) True (p_link p) = Some (l, err3)"
    using b1 be ke pe by (cases "net_link_init (b_net e) True (p_link p)") (auto simp: lk k p error_check_def)
  have le: "err3 = ESP_OK" "b_wdt_err e = ESP_OK"
    using b1 be ke pe by (auto simp: lk k p l error_check_def split: if_splits)
  show thesis
    by (rule that [of k p "fst (net_link_sta_start (radio_ops B) (creds_ops B) (a_creds a0) l)"])
      (use b1 be ke pe le in \<open>auto simp: lk k p l g error_check_def\<close>)
qed


lemma booted_clock:
  "ac_clock_trusted (access (booted_table B cfg s e a0)) \<longleftrightarrow> snd (boot_clock B (b_rtc_added e) a0) \<noteq> None"
  "g_ui (a_gate (booted_table B cfg s e a0)) = ui_set_clock_trusted ui_init (snd (boot_clock B (b_rtc_added e) a0) \<noteq> None)"
proof -
  let ?a = "set_access (ac_init (MAX_FAILED_ATTEMPTS cfg) (LOCKOUT_SECONDS cfg)) (a0\<lparr>a_salt := GATE_DEVICE_SALT s\<rparr>)"
  have c: "snd (boot_clock B (b_rtc_added e) ?a) = snd (boot_clock B (b_rtc_added e) a0)"
    by (rule boot_clock_rtc) simp
  show "ac_clock_trusted (access (booted_table B cfg s e a0)) \<longleftrightarrow> snd (boot_clock B (b_rtc_added e) a0) \<noteq> None"
    "g_ui (a_gate (booted_table B cfg s e a0)) = ui_set_clock_trusted ui_init (snd (boot_clock B (b_rtc_added e) a0) \<noteq> None)"
    by (simp_all add: booted_table_def gate_app_set_clock_trusted_def split_def Let_def c [simplified])
qed

lemma boot_keeps_coil_off:
  "\<not> energised (fst (lock_driver_init ok (Some c) d))"
  "snd (lock_driver_init ok (Some c) d) \<Longrightarrow> s_ready (fst (lock_driver_init ok (Some c) d))"
  by (auto simp: lock_driver_init_def Let_def energised_def write_coil_def)


text \<open>The table a boot starts with is the empty one, or what it could read of the chip.\<close>

lemma boot_persist_table:
  assumes "eeprom_bus (eeprom_i2c B) mem" "chip_codes_ok (mem (bus (a_persist a)))" "slots (access a) = slots (ac_init m l)"
  shows "ac_good (access (boot_persist B ok a))"
proof -
  let ?img = "mem (bus (a_persist a))"
  obtain p err where q: "persist_init (eeprom_i2c B) ok (a_persist a) = (p, err)" by fastforce
  have p: "mem (bus p) = ?img" using init_keeps_mem [OF assms(1), of ok "a_persist a"] q by simp
  define ac where "ac = (case persist_load p of
      Some st \<Rightarrow> ac_restore_attempts (access a) (attempts st) (uint (pr_lockout_until st)) | None \<Rightarrow> access a)"
  have ac: "slots ac = slots (ac_init m l)"
    using assms(3) by (simp add: ac_def ac_restore_attempts_def split: option.split)
  obtain p2 ac2 n where l: "persist_codes_load (eeprom_i2c B) p ac = (p2, ac2, n)" by (rule prod_cases3)
  have chip: "from_chip (mem (bus p)) ac" by (simp add: from_chip_def ac ac_init_def)
  have "from_chip (mem (bus p)) ac2"
  proof (cases "dev_added p")
    case True
    have ss: "set [0..<PC_SLOTS] \<subseteq> {..<PC_SLOTS}" by auto
    have "fold (load_slot (eeprom_i2c B)) [0..<PC_SLOTS] (p, ac, 0) = (p2, ac2, n)"
      using l True by (simp add: persist_codes_load_def)
    from load_slots_from_chip [OF assms(1) ss this chip] show ?thesis .
  qed (use l chip in \<open>simp add: persist_codes_load_def\<close>)
  moreover have "length ?img = EEPROM_SIZE" using assms(1) by (simp add: eeprom_bus_def)
  ultimately have "ac_good ac2" using assms(2) p by (intro from_chip_good [of ?img]) simp_all
  moreover have "ac_good (access a)" using ac_good_slots [OF assms(3)] ac_good_init by simp
  moreover have "access (boot_persist B ok a) = (if err \<noteq> ESP_OK then access a else ac2)"
    using l by (simp add: boot_persist_def q ac_def persist_attempts_now_def Let_def split: option.splits)
  ultimately show ?thesis by simp
qed

lemma booted_table_good:
  assumes "eeprom_bus (eeprom_i2c B) mem" "chip_codes_ok (mem (bus (a_persist a0)))"
  shows "ac_good (access (booted_table B cfg s e a0))"
proof -
  let ?a = "fst (boot_clock B (b_rtc_added e)
    (set_access (ac_init (MAX_FAILED_ATTEMPTS cfg) (LOCKOUT_SECONDS cfg)) (a0\<lparr>a_salt := GATE_DEVICE_SALT s\<rparr>)))"
  have "ac_good (access (boot_persist B (b_eeprom_added e) ?a))"
    using assms(2) by (intro boot_persist_table [OF assms(1)]) simp_all
  moreover have "slots (access (booted_table B cfg s e a0)) = slots (access (boot_persist B (b_eeprom_added e) ?a))"
    by (simp add: booted_table_def gate_app_set_clock_trusted_def split_def Let_def)
  ultimately show ?thesis using ac_good_slots by blast
qed


section \<open>Properties\<close>

text \<open>C7: a boot that completes leaves a safe gate.  Whatever the buses, the stores and the radio
  answered, and whichever reads of the EEPROM failed, if the codes on the chip have ids and windows
  that are not empty and no two have the same id, then the program satisfies its invariant, the
  table included, the lock is ready with its coil off, the portal is closed, no key is waiting and
  none is typed; the credentials passed the guard or the build is for development; and the clock
  is trusted exactly when the clock chip gave a time.\<close>

theorem boot_is_safe:
  assumes "power_on a0" "app_boot B cfg s e a0 = Some a" "eeprom_bus (eeprom_i2c B) mem"
    "chip_codes_ok (mem (bus (a_persist a0)))"
  shows "app_inv a \<and> s_ready (a_lock a) \<and> \<not> energised (a_lock a) \<and> \<not> wifi_prov_is_open (a_portal a) \<and>
    kp_queue (a_keypad a) = Some [] \<and> entry_len (g_ui (a_gate a)) = 0 \<and> buf (a_gate a) = wiped_buf \<and>
    (DEV_CONSOLE cfg \<or> gate_guard_check False s = Some True) \<and>
    (ac_clock_trusted (access a) \<longleftrightarrow> snd (boot_clock B (b_rtc_added e) a0) \<noteq> None)"
proof (rule app_boot_stages [OF assms(2)])
  fix k p l
  let ?t = "booted_table B cfg s e a0"
  assume st: "gate_guard_check (DEV_CONSOLE cfg) s \<noteq> None"
    "keypad_start (b_keypad e) (Some KEYPAD_DEFAULT_CONFIG) True (a_keypad a0) = Some (k, ESP_OK)"
    "wifi_prov_init (b_net e) (b_button_err e) (portal_config s) (a_portal a0) = Some (p, ESP_OK)"
    "a_gate a = gate_init (access ?t) (g_ui (a_gate ?t))"
    "a_lock a = fst (lock_driver_init (b_lock_gpio_ok e) (Some LOCK_DRIVER_DEFAULT_CONFIG) (a_lock a0))"
    "snd (lock_driver_init (b_lock_gpio_ok e) (Some LOCK_DRIVER_DEFAULT_CONFIG) (a_lock a0))"
    "a_keypad a = k" "a_portal a = p\<lparr>p_link := l\<rparr>" "a_led a = fst (status_led_init (b_led_err e) (a_led a0))"
  have off: "\<not> kp_running (a_keypad a0)" "\<not> ap_running (a_portal a0)" "\<not> http_server (a_portal a0)" "\<not> led_valid (a_led a0)"
    using assms(1) by (simp_all add: power_on_def)
  have ui: "ui_inv (g_ui (a_gate ?t))" "entry_len (g_ui (a_gate ?t)) = 0"
    by (simp_all add: booted_clock(2) ui_set_clock_trusted_def ui_init_def ui_inv_def go_idle_def Let_def)
  have ac: "access a = access ?t" by (simp add: st(4) gate_init_def)
  from gate_inv_init [OF booted_table_good [OF assms(3,4)] ui(1)] have gate: "gate_inv (a_gate a)" by (simp add: st(4))
  have queue: "kp_queue (a_keypad a) = Some []" using keypad_start_ok [OF st(2) off(1)] st(7) by simp
  have portal: "\<not> prov_is_open (p_ctx (a_portal a))" "\<not> ap_running (a_portal a)" "\<not> http_server (a_portal a)"
    using wifi_prov_init_keeps [OF st(3)] off st(8) by (simp_all add: prov_is_open_def prov_init_def)
  have lock: "s_ready (a_lock a)" "\<not> energised (a_lock a)" "lock_ok (a_lock a)"
    using boot_keeps_coil_off st(5,6) lock_ok_init by simp_all
  have led: "led_inv (a_led a)" using led_init_valid [OF off(4)] st(9) by simp
  have guard: "DEV_CONSOLE cfg \<or> gate_guard_check False s = Some True"
    using st(1) by (auto simp: gate_guard_check_def Let_def split: if_splits)
  show ?thesis
    using gate queue portal lock led guard ui(2) ac booted_clock(1) [of B cfg s e a0]
    by (auto simp: app_inv_def portal_inv_def queue_ok_def wifi_prov_is_open_def st(4) gate_init_def)
qed


text \<open>A development board with an erased EEPROM, whose clock does not answer.\<close>

definition demo_secrets :: secrets where
  "demo_secrets = \<lparr>ADMIN_USERNAME = ''admin'', ADMIN_PASSWORD = ''hunter22'', PROV_AP_PASSWORD = ''portal-pass'',
     SYNC_URL = [], SYNC_GATE_ID = [], SYNC_DELIVERY_KEY = [], TG_BOT_TOKEN = [], GATE_DEVICE_SALT = []\<rparr>"

definition demo_kconfig :: kconfig where
  "demo_kconfig = \<lparr>DEV_CONSOLE = True, MAX_FAILED_ATTEMPTS = 5, LOCKOUT_SECONDS = 300\<rparr>"

definition demo_main_env :: main_env where
  "demo_main_env = \<lparr>b_bus_err = ESP_OK, b_rtc_added = False, b_eeprom_added = True, b_panel_added = ESP_FAIL,
     b_lock_gpio_ok = True, b_keypad = \<lparr>gpio_config_err = ESP_OK, queue_made = True, task_made = True\<rparr>,
     b_net = \<lparr>events_made = True, nvs_first = ESP_OK, nvs_erase = ESP_OK, nvs_second = ESP_OK, netif_init = ESP_OK,
       event_loop = ESP_OK\<rparr>,
     b_button_err = ESP_OK, b_ms = 0, b_sync_task_made = True, b_tg_task_made = True, b_led_err = ESP_OK,
     b_wdt_err = ESP_OK\<rparr>"

abbreviation cold_app where
  "cold_app \<equiv> (demo_app demo_gate [])\<lparr>a_keypad := demo_keypad\<lparr>kp_running := False, kp_queue := None\<rparr>\<rparr>"

lemma demo_boots: "\<exists>a. app_boot demo_board demo_kconfig demo_secrets demo_main_env cold_app = Some a"
proof -
  have "gate_guard_check True demo_secrets \<noteq> None" by (auto simp: gate_guard_check_def Let_def)
  then obtain g where g: "gate_guard_check True demo_secrets = Some g" by blast
  show ?thesis
    by (simp add: app_boot_unfold demo_kconfig_def g demo_main_env_def error_check_def lock_driver_init_def keypad_start_def
        wifi_prov_init_def portal_config_def net_link_init_def Let_def split_def)
qed

text \<open>An erased chip holds no record and no code.\<close>

definition erased :: "u8 list \<times> nat" where
  "erased = (replicate EEPROM_SIZE 0xFF, 0)"

lemma erased_regions: "ring_blank (ring_of (demo_mem erased))" "\<forall>k<PC_SLOTS. pc_slot_read (code_region (demo_mem erased) k) = None"
proof -
  have m: "demo_mem erased = replicate EEPROM_SIZE 0xFF" by (simp add: demo_mem_def erased_def EEPROM_SIZE_def)
  have "ring_of (demo_mem erased) = replicate (PR_SLOTS * PR_SLOT_SIZE) 0xFF"
    by (simp add: m ring_of_def EEPROM_SIZE_def)
  then show "ring_blank (ring_of (demo_mem erased))" using erased_blank by simp
  show "\<forall>k<PC_SLOTS. pc_slot_read (code_region (demo_mem erased) k) = None"
  proof (intro allI impI)
    fix k :: nat assume "k < PC_SLOTS"
    then have "code_region (demo_mem erased) k = replicate PC_SLOT_SIZE 0xFF"
      using code_region_bounds [of k] by (simp add: m code_region_def min_def)
    then show "pc_slot_read (code_region (demo_mem erased) k) = None" using pc_erased by (simp add: pc_slot_read_def)
  qed
qed

lemma erased_codes_ok: "chip_codes_ok (demo_mem erased)"
  using erased_regions(2) by (simp add: chip_codes_ok_def stored_at_def)

theorem boot_is_safe_witness:
  "\<exists>a. app_boot demo_board demo_kconfig demo_secrets demo_main_env cold_app = Some a \<and> app_inv a \<and>
     \<not> energised (a_lock a) \<and> \<not> ac_clock_trusted (access a)"
proof -
  obtain a where a: "app_boot demo_board demo_kconfig demo_secrets demo_main_env cold_app = Some a" using demo_boots by blast
  have off: "power_on cold_app" by (simp add: power_on_def demo_app_def demo_portal_def led_statics_def)
  have bus: "eeprom_bus (eeprom_i2c demo_board) demo_mem" by (simp add: demo_bus_ok)
  have chip: "chip_codes_ok (demo_mem (bus (a_persist cold_app)))"
    using erased_codes_ok by (simp add: erased_def demo_store_def persist_statics_def)
  have "snd (boot_clock demo_board (b_rtc_added demo_main_env) cold_app) = None"
    by (simp add: boot_clock_def rtc_ds3231_init_def demo_main_env_def split_def Let_def)
  with boot_is_safe [OF off a bus chip] a show ?thesis by blast
qed

end
