(* ===== verification/System_Power.thy ===== *)
theory System_Power
  imports System_Boot
begin

text \<open>
  What a power cut costs.  The attempt counter is in the EEPROM after every turn that changed it;
  the codes that were delivered are not, for nothing the running program does writes them (the
  console of a development build does: \<^verbatim>\<open>Console_Chip\<close>).
\<close>

section \<open>The store\<close>

lemma advance_lt: "snd (pr_advance cur PR_SLOTS) < PR_SLOTS" "cur_seq (fst (pr_advance cur PR_SLOTS)) = cur_seq cur + 1"
  by (simp_all add: pr_advance_def Let_def split: option.split)

lemma save_seq:
  assumes "persist_save i p (Some s) = (q, ESP_OK)" "dev_added p"
  shows "cur_seq (pcur q) = cur_seq (pcur p) + 1"
  using assms advance_lt(2) [of "pcur p"] by (auto simp: persist_save_def split_def Let_def split: if_splits)

text \<open>A save of the counter stays out of the code region, even when it is cut short.\<close>

lemma save_keeps_codes:
  assumes "eeprom_bus i mem" "k < PC_SLOTS"
  shows "code_region (mem (bus (fst (persist_save i p s)))) k = code_region (mem (bus p)) k"
proof (cases "dev_added p \<and> s \<noteq> None")
  case True
  then obtain st where st: "s = Some st" "dev_added p" by blast
  obtain nxt slot where n: "pr_advance (pcur p) PR_SLOTS = (nxt, slot)" by fastforce
  have slot: "slot < PR_SLOTS" using advance_lt(1) [of "pcur p"] n by simp
  let ?rec = "pr_encode st (cur_seq nxt)"
  obtain q err where w: "persist_raw_write i p (slot * PR_SLOT_SIZE) ?rec = (q, err)" by fastforce
  have b: "slot * PR_SLOT_SIZE + length ?rec \<le> EEPROM_SIZE" "slot * PR_SLOT_SIZE mod PAGE_SIZE + length ?rec \<le> PAGE_SIZE"
    using slot by (simp_all add: EEPROM_SIZE_def)
  obtain j where j: "j \<le> length ?rec" "mem (bus q) = blit (slot * PR_SLOT_SIZE) (take j ?rec) (mem (bus p))"
    by (rule raw_write [OF assms(1) b w st(2)])
  have lm: "length (mem (bus p)) = EEPROM_SIZE" using assms(1) by (simp add: eeprom_bus_def)
  have "code_region (mem (bus q)) k = code_region (mem (bus p)) k"
    unfolding code_region_def j(2) using slot j(1) code_region_bounds [OF assms(2)]
    by (intro region_blit [OF lm]) (auto simp: pc_offset_def EEPROM_SIZE_def)
  moreover have "bus (fst (persist_save i p s)) = bus q"
    using st by (simp add: persist_save_def n w Let_def)
  ultimately show ?thesis by simp
qed (cases s; auto simp: persist_save_def)


section \<open>The counter\<close>

text \<open>The chip is idle, and the newest record of the ring is what the program would save now.\<close>

definition kept :: "('e \<Rightarrow> u8 list) \<Rightarrow> ('e \<Rightarrow> nat) \<Rightarrow> ('w, 's, 'e, 'r, 'd, 'n) app \<Rightarrow> bool" where
  "kept mem busy a \<longleftrightarrow> ready busy (a_persist a) \<and>
     ring_inv (ring_of (mem (bus (a_persist a)))) (pcur (a_persist a)) (attempts_record a)"

abbreviation seq_of :: "('w, 's, 'e, 'r, 'd, 'n) app \<Rightarrow> nat" where
  "seq_of a \<equiv> unat (cur_seq (pcur (a_persist a)))"

lemma attempts_record_cong:
  "judging (access a) = judging (access b) \<Longrightarrow> a_boot_count a = a_boot_count b \<Longrightarrow> attempts_record a = attempts_record b"
  by (simp add: attempts_record_def judging_def)

lemma kept_cong:
  "kept mem busy b \<Longrightarrow> a_persist a = a_persist b \<Longrightarrow> judging (access a) = judging (access b) \<Longrightarrow> a_boot_count a = a_boot_count b \<Longrightarrow>
     kept mem busy a"
  using attempts_record_cong [of a b] by (simp add: kept_def)

lemma persist_now_kept:
  assumes "eeprom_bus (eeprom_i2c B) mem" "write_cycles (eeprom_i2c B) busy" "store_inv mem (a_persist a)"
    "ready busy (a_persist a)" "seq_of a < 2 ^ 32 - 1"
  shows "kept mem busy (persist_attempts_now B a)" "seq_of (persist_attempts_now B a) = Suc (seq_of a)"
proof -
  have d: "dev_added (a_persist a)" using assms(3) by (simp add: store_inv_def)
  obtain q where q: "persist_save (eeprom_i2c B) (a_persist a) (Some (attempts_record a)) = (q, ESP_OK)" "ready busy q"
    using save_ready [OF assms(2,4)] by (metis prod.collapse)
  from save_ring [OF assms(1,3,5) q(1)] have "ring_inv (ring_of (mem (bus q))) (pcur q) (attempts_record a)" by simp
  moreover have pb: "a_persist (persist_attempts_now B a) = q" by (simp add: persist_attempts_now_def q(1))
  moreover have "attempts_record (persist_attempts_now B a) = attempts_record a"
    by (simp add: attempts_record_def persist_attempts_now_def)
  ultimately show "kept mem busy (persist_attempts_now B a)" using q(2) by (simp add: kept_def)
  have "cur_seq (pcur q) = cur_seq (pcur (a_persist a)) + 1" by (rule save_seq [OF q(1) d])
  then show "seq_of (persist_attempts_now B a) = Suc (seq_of a)"
    using assms(5) unat_add_lem [of "cur_seq (pcur (a_persist a))" 1] by (simp add: pb)
qed

lemma kept_store: "kept mem busy a \<Longrightarrow> store_inv mem (a_persist a)"
  by (auto simp: kept_def store_inv_def ready_def)

text \<open>How often a turn and a run write the counter.\<close>

definition turn_saves :: "('w, 's, 'e, 'r, 'd, 'n) board \<Rightarrow> turn_env \<Rightarrow> ('w, 's, 'e, 'r, 'd, 'n) app \<Rightarrow> nat" where
  "turn_saves B e a = length (filter (\<lambda>(g, ev, g', out). persist_attempts out) (turn_trace B e a))"

fun run_saves :: "('w, 's, 'e, 'r, 'd, 'n) board \<Rightarrow> ('w, 's, 'e, 'r, 'd, 'n) app \<Rightarrow> sys_event list \<Rightarrow> nat" where
  "run_saves B a [] = 0"
| "run_saves B a (ev # evs) =
     (case ev of Main_loop e \<Rightarrow> turn_saves B e a | _ \<Rightarrow> 0) + run_saves B (sys_step B a ev) evs"

lemma step_kept:
  assumes "eeprom_bus (eeprom_i2c B) mem" "write_cycles (eeprom_i2c B) busy" "kept mem busy a"
    "persist_attempts out \<Longrightarrow> seq_of a < 2 ^ 32 - 1" "gate_step hash (a_gate a) ev = (g', out)"
  shows "kept mem busy (handled B t a (a_gate a, ev, g', out))"
    "seq_of (handled B t a (a_gate a, ev, g', out)) = seq_of a + (if persist_attempts out then 1 else 0)"
proof -
  let ?b = "(if open_lock out then a\<lparr>a_gate := g', a_lock := fst (lock_driver_open (a_lock a) t)\<rparr> else a\<lparr>a_gate := g'\<rparr>)"
  have h: "handled B t a (a_gate a, ev, g', out) = (if persist_attempts out then persist_attempts_now B ?b else ?b)"
    by (simp add: handled_def handle_def Let_def)
  have p: "a_persist ?b = a_persist a" by simp
  have st: "store_inv mem (a_persist ?b)" "ready busy (a_persist ?b)" using kept_store [OF assms(3)] assms(3) p by (simp_all add: kept_def)
  have "kept mem busy (handled B t a (a_gate a, ev, g', out)) \<and>
    seq_of (handled B t a (a_gate a, ev, g', out)) = seq_of a + (if persist_attempts out then 1 else 0)"
  proof (cases "persist_attempts out")
    case True
    have "seq_of ?b < 2 ^ 32 - 1" using assms(4) [OF True] p by simp
    from persist_now_kept [OF assms(1,2) st this] True show ?thesis unfolding h p by simp
  next
    case False
    have "judging (access ?b) = judging (access a)"
      using False persist_reported [OF assms(5)] gate_step_table(2) [of hash "a_gate a" ev] assms(5)
      by (simp add: judging_def)
    from kept_cong [OF assms(3) p this] False show ?thesis unfolding h by simp
  qed
  then show "kept mem busy (handled B t a (a_gate a, ev, g', out))"
    "seq_of (handled B t a (a_gate a, ev, g', out)) = seq_of a + (if persist_attempts out then 1 else 0)" by simp_all
qed

abbreviation saves_in :: "(gate_ctrl \<times> gate_event \<times> gate_ctrl \<times> gate_out) list \<Rightarrow> nat" where
  "saves_in tr \<equiv> length (filter (\<lambda>(g, ev, g', out). persist_attempts out) tr)"

lemma trace_kept:
  assumes "eeprom_bus (eeprom_i2c B) mem" "write_cycles (eeprom_i2c B) busy" "kept mem busy a"
    "seq_of a + saves_in (gate_trace hash (a_gate a) evs) < 2 ^ 32"
  shows "kept mem busy (foldl (handled B t) a (gate_trace hash (a_gate a) evs)) \<and>
    seq_of (foldl (handled B t) a (gate_trace hash (a_gate a) evs)) = seq_of a + saves_in (gate_trace hash (a_gate a) evs)"
  using assms(3,4)
proof (induction evs arbitrary: a)
  case (Cons ev evs)
  obtain g' out where s: "gate_step hash (a_gate a) ev = (g', out)" by fastforce
  define b where "b = handled B t a (a_gate a, ev, g', out)"
  have g: "a_gate b = g'" by (simp add: b_def handled_def)
  have n: "saves_in (gate_trace hash (a_gate a) (ev # evs)) = (if persist_attempts out then 1 else 0) + saves_in (gate_trace hash g' evs)"
    by (simp add: s)
  have f: "foldl (handled B t) a (gate_trace hash (a_gate a) (ev # evs)) = foldl (handled B t) b (gate_trace hash (a_gate b) evs)"
    by (simp add: s b_def g [unfolded b_def])
  have "seq_of a < 2 ^ 32 - 1" if "persist_attempts out" using Cons.prems(2) that unfolding n by simp
  then have b: "kept mem busy b" "seq_of b = seq_of a + (if persist_attempts out then 1 else 0)"
    unfolding b_def using step_kept [OF assms(1,2) Cons.prems(1) _ s] by blast+
  have "seq_of b + saves_in (gate_trace hash (a_gate b) evs) < 2 ^ 32"
    using Cons.prems(2) unfolding n b(2) g by simp
  from Cons.IH [OF b(1) this] show ?case unfolding f n b(2) g by simp
qed simp


lemma main_turn_kept:
  assumes "eeprom_bus (eeprom_i2c B) mem" "write_cycles (eeprom_i2c B) busy" "kept mem busy a" "seq_of a + turn_saves B e a < 2 ^ 32"
  shows "kept mem busy (main_turn B e a)" "seq_of (main_turn B e a) = seq_of a + turn_saves B e a"
proof -
  let ?a = "a\<lparr>a_keypad := fst (drain (a_keypad a))\<rparr>"
  let ?b = "foldl (handled B (t_open_ms e)) ?a (turn_trace B e a)"
  have "kept mem busy ?a" using assms(3) by (rule kept_cong) simp_all
  from trace_kept [OF assms(1,2) this, of "hash_code (sha256 B) (a_salt a)" "turn_events e a" "t_open_ms e"] assms(4)
  have b: "kept mem busy ?b" "seq_of ?b = seq_of a + turn_saves B e a" by (simp_all add: turn_saves_def)
  have p: "a_persist (main_turn B e a) = a_persist ?b" by (simp add: main_turn_parts gate_part_trace Let_def)
  then show "seq_of (main_turn B e a) = seq_of a + turn_saves B e a" using b(2) by simp
  have "judging (access (main_turn B e a)) = judging (access (gate_part B e a))"
    using main_turn_access [of B e a] by auto
  also have "\<dots> = judging (access ?b)" by (simp add: gate_part_trace Let_def)
  finally have j: "judging (access (main_turn B e a)) = judging (access ?b)" .
  have "a_boot_count (main_turn B e a) = a_boot_count ?b" by (simp add: main_turn_def Let_def)
  with b(1) p j show "kept mem busy (main_turn B e a)" by (rule kept_cong)
qed

lemma other_step_persist:
  "\<forall>e. ev \<noteq> Main_loop e \<Longrightarrow> a_persist (sys_step B a ev) = a_persist a \<and> a_boot_count (sys_step B a ev) = a_boot_count a"
  by (cases ev) (simp_all add: split_def)

lemma run_kept:
  assumes "hmac_sized (hmac_sha256 B)" "eeprom_bus (eeprom_i2c B) mem" "write_cycles (eeprom_i2c B) busy"
  shows "kept mem busy a \<Longrightarrow> seq_of a + run_saves B a evs < 2 ^ 32 \<Longrightarrow>
    kept mem busy (foldl (sys_step B) a evs) \<and> seq_of (foldl (sys_step B) a evs) = seq_of a + run_saves B a evs"
proof (induction evs arbitrary: a)
  case (Cons ev evs)
  have "kept mem busy (sys_step B a ev) \<and> seq_of (sys_step B a ev) + run_saves B (sys_step B a ev) evs = seq_of a + run_saves B a (ev # evs)"
  proof (cases "\<exists>e. ev = Main_loop e")
    case True
    then obtain e where e: "ev = Main_loop e" by blast
    have "seq_of a + turn_saves B e a < 2 ^ 32" using Cons.prems(2) by (simp add: e)
    from main_turn_kept [OF assms(2,3) Cons.prems(1) this] show ?thesis by (simp add: e)
  next
    case False
    then have n: "\<forall>e. ev \<noteq> Main_loop e" by blast
    note p = other_step_persist [OF n, of B a, THEN conjunct1] other_step_persist [OF n, of B a, THEN conjunct2]
    have "kept mem busy (sys_step B a ev)"
      by (rule kept_cong [OF Cons.prems(1) p(1) delivery_judging [OF assms(1) n] p(2)])
    moreover have "run_saves B a (ev # evs) = run_saves B (sys_step B a ev) evs"
      using n by (simp split: sys_event.split)
    ultimately show ?thesis by (simp only: p simp_thms)
  qed
  with Cons.IH [of "sys_step B a ev"] Cons.prems(2) show ?case by simp
qed simp


section \<open>The boot after it\<close>

lemma load_slots_keep:
  assumes "eeprom_bus i mem" "set ks \<subseteq> {..<PC_SLOTS}" "fold (load_slot i) ks (p, ctx, n) = (p', ctx', n')"
  shows "mem (bus p') = mem (bus p) \<and> dev_added p' = dev_added p \<and> pcur p' = pcur p \<and> judging ctx' = judging ctx"
  using assms(2,3)
proof (induction ks arbitrary: p ctx n)
  case (Cons k ks)
  obtain p1 ctx1 n1 where l: "load_slot i k (p, ctx, n) = (p1, ctx1, n1)" by (rule prod_cases3)
  obtain q r where rr: "persist_raw_read i p (pc_offset k 0) PC_SLOT_SIZE = (q, r)" by fastforce
  have "pc_offset k 0 + PC_SLOT_SIZE \<le> EEPROM_SIZE" using Cons.prems(1) by (intro code_region_bounds) simp
  note rd = raw_read(1,2) [OF assms(1) this rr]
  have "judging (fst (pc_apply ctx j c)) = judging ctx" for j c by (simp add: pc_apply_def)
  then have "p1 = q \<and> judging ctx1 = judging ctx"
    using l rr by (auto simp: load_slot_def split_def Let_def split: sum.splits option.splits if_splits)
  moreover have "dev_added q = dev_added p" "pcur q = pcur p" using rd(2) by auto
  ultimately show ?case using Cons.IH [of p1 ctx1 n1] Cons.prems l rd(1) by simp
qed simp

lemma boot_restores:
  assumes "eeprom_bus (eeprom_i2c B) mem" "write_cycles (eeprom_i2c B) busy" "ring_inv (ring_of (mem b)) cur st"
    "unat (cur_seq cur) < 2 ^ 32 - 1" "a_persist a = persist_statics b" "length (slots (access a)) = AC_MAX_SLOTS" "busy b = 0"
  defines "a' \<equiv> boot_persist B True a"
  shows "failed_attempts (access a') = attempts st" "lockout_until (access a') = uint (pr_lockout_until st)"
    "a_boot_count a' = boot_count st + 1" "kept mem busy a'"
    "k < PC_SLOTS \<Longrightarrow> slots (access a') ! k = loaded_slot (code_region (mem b) k) (slots (access a) ! k)"
    "k < PC_SLOTS \<Longrightarrow> code_region (mem (bus (a_persist a'))) k = code_region (mem b) k"
proof -
  have "busy (bus (a_persist a)) = 0" using assms(5,7) by (simp add: persist_statics_def)
  then obtain q where q: "persist_init (eeprom_i2c B) True (a_persist a) = (q, ESP_OK)" "ready busy q"
    by (rule init_ready [OF assms(2)])
  have i: "persist_load q = Some st" "pcur q = cur" "mem (bus q) = mem b" "dev_added q"
    using init_finds [OF assms(1,3)] q(1) unfolding assms(5) by blast+
  define ac where "ac = ac_restore_attempts (access a) (attempts st) (uint (pr_lockout_until st))"
  obtain p2 ac2 n where l: "persist_codes_load (eeprom_i2c B) q ac = (p2, ac2, n)" by (rule prod_cases3)
  then have f: "fold (load_slot (eeprom_i2c B)) [0..<PC_SLOTS] (q, ac, 0) = (p2, ac2, n)"
    using i(4) by (simp add: persist_codes_load_def)
  have "set [0..<PC_SLOTS] \<subseteq> {..<PC_SLOTS}" by auto
  from load_slots_keep [OF assms(1) this f] i
  have k: "mem (bus p2) = mem b" "dev_added p2" "pcur p2 = cur" "judging ac2 = judging ac" by simp_all
  define c where "c = set_access ac2 ((set_access ac (a\<lparr>a_persist := q, a_boot_count := boot_count st + 1\<rparr>))\<lparr>a_persist := p2\<rparr>)"
  have a': "a' = persist_attempts_now B c"
    by (simp add: a'_def boot_persist_def q(1) i(1) Let_def ac_def [symmetric] l c_def)
  have c: "access c = ac2" "a_persist c = p2" "a_boot_count c = boot_count st + 1" by (simp_all add: c_def)
  have j: "failed_attempts ac2 = attempts st" "lockout_until ac2 = uint (pr_lockout_until st)"
    using k(4) by (simp_all add: judging_def ac_def ac_restore_attempts_def)
  show "failed_attempts (access a') = attempts st" "lockout_until (access a') = uint (pr_lockout_until st)"
    "a_boot_count a' = boot_count st + 1"
    using j c by (simp_all add: a' persist_attempts_now_def)
  have ss: "distinct [0..<PC_SLOTS]" "set [0..<PC_SLOTS] \<subseteq> {..<PC_SLOTS}" by auto
  have len: "length (slots ac) = AC_MAX_SLOTS" using assms(6) by (simp add: ac_def ac_restore_attempts_def)
  note ld = load_slots_spec [OF assms(1,2) q(2) ss len f]
  have "store_inv mem (a_persist c)" "ready busy (a_persist c)" "seq_of c < 2 ^ 32 - 1"
    using assms(3,4) k ld(1) by (auto simp: c store_inv_def)
  from persist_now_kept(1) [OF assms(1,2) this] show "kept mem busy a'" by (simp add: a')
  show "code_region (mem (bus (a_persist a'))) k = code_region (mem b) k" if "k < PC_SLOTS" for k
    using save_keeps_codes [OF assms(1) that, of p2 "Some (attempts_record c)"] c(2) k(1)
    by (simp add: a' persist_attempts_now_def)
  show "slots (access a') ! k = loaded_slot (code_region (mem b) k) (slots (access a) ! k)" if "k < PC_SLOTS" for k
  proof -
    have "slots ac2 ! k = loaded_slot (code_region (mem (bus q)) k) (slots ac ! k)"
      using ld(2) [OF that] that by (simp add: atLeast0LessThan)
    then show ?thesis using c i(3) by (simp add: a' persist_attempts_now_def ac_def ac_restore_attempts_def)
  qed
qed


text \<open>The first boot of a board with an erased chip.\<close>

lemma load_erased:
  assumes "eeprom_bus i mem" "set ks \<subseteq> {..<PC_SLOTS}" "\<forall>k<PC_SLOTS. pc_slot_read (code_region (mem (bus p)) k) = None"
    "fold (load_slot i) ks (p, ctx, n) = (p', ctx', n')"
  shows "ctx' = ctx"
  using assms(2-4)
proof (induction ks arbitrary: p n)
  case (Cons k ks)
  obtain q r where rr: "persist_raw_read i p (pc_offset k 0) PC_SLOT_SIZE = (q, r)" by fastforce
  have "pc_offset k 0 + PC_SLOT_SIZE \<le> EEPROM_SIZE" using Cons.prems(1) by (intro code_region_bounds) simp
  note rd = raw_read [OF assms(1) this rr]
  have "pc_slot_read bs = None" if "r = Inr bs" for bs
    using rd(3) [OF that] Cons.prems(1,2) by (simp add: code_region_def)
  then have "load_slot i k (p, ctx, n) = (q, ctx, n)" using rr by (cases r) (simp_all add: load_slot_def)
  then show ?case using Cons.IH [of q n] Cons.prems rd(1) by simp
qed simp

lemma first_boot_kept:
  assumes "eeprom_bus (eeprom_i2c B) mem" "write_cycles (eeprom_i2c B) busy" "ring_blank (ring_of (mem b))"
    "a_persist a = persist_statics b" "busy b = 0" "length (slots (access a)) = AC_MAX_SLOTS"
  shows "kept mem busy (boot_persist B True a)" "seq_of (boot_persist B True a) = 1"
    "k < PC_SLOTS \<Longrightarrow> code_region (mem (bus (a_persist (boot_persist B True a)))) k = code_region (mem b) k"
    "\<forall>k<PC_SLOTS. pc_slot_read (code_region (mem b) k) = None \<Longrightarrow> a_gate (boot_persist B True a) = a_gate a"
proof -
  let ?p = "(persist_statics b)\<lparr>dev_added := True\<rparr>"
  have nr: "PR_SLOTS * PR_SLOT_SIZE div READ_CHUNK = 8" "PR_SLOTS * PR_SLOT_SIZE = 2048" by simp_all
  have "ready busy ?p" using assms(5) by (simp add: ready_def persist_statics_def)
  from read_ring_ready [OF assms(2) this, of "map (\<lambda>k. k * READ_CHUNK) [0..<8]" "replicate 2048 0"] obtain p1 img where
    rr: "read_ring (eeprom_i2c B) ?p (map (\<lambda>k. k * READ_CHUNK) [0..<8]) (replicate 2048 0) = (p1, Inr img)" "ready busy p1"
    by (auto simp: ready_def persist_statics_def)
  have rd: "mem (bus p1) = mem (bus ?p) \<and> (\<exists>b. p1 = ?p\<lparr>bus := b\<rparr>) \<and>
      (\<forall>img'. Inr img = (Inr img' :: esp_err + u8 list) \<longrightarrow> img' = take 2048 (mem (bus ?p)))"
    by (rule read_ring_image [OF assms(1) _ _ _ rr(1)]) simp_all
  then have "img = ring_of (mem b)" by (simp add: ring_of_def persist_statics_def)
  then have "pr_find_latest img PR_SLOTS = (\<lparr>cur_slot = None, cur_seq = 0\<rparr>, None)" using assms(3) by (simp add: find_latest_blank)
  then have q: "persist_init (eeprom_i2c B) True (a_persist a) =
      (p1\<lparr>pcur := \<lparr>cur_slot = None, cur_seq = 0\<rparr>, phave := False\<rparr>, ESP_OK)"
    using rr(1) unfolding assms(4) persist_init_def Let_def nr by simp
  define r where "r = p1\<lparr>pcur := \<lparr>cur_slot = None, cur_seq = 0\<rparr>, phave := False\<rparr>"
  have r: "dev_added r" "pcur r = \<lparr>cur_slot = None, cur_seq = 0\<rparr>" "mem (bus r) = mem b" "\<not> phave r" "ready busy r"
    using rd rr(2) by (auto simp: r_def persist_statics_def ready_def)
  obtain p2 ac2 n where l: "persist_codes_load (eeprom_i2c B) r (access a) = (p2, ac2, n)" by (rule prod_cases3)
  then have f: "fold (load_slot (eeprom_i2c B)) [0..<PC_SLOTS] (r, access a, 0) = (p2, ac2, n)"
    using r(1) by (simp add: persist_codes_load_def)
  have ss: "set [0..<PC_SLOTS] \<subseteq> {..<PC_SLOTS}" "distinct [0..<PC_SLOTS]" by auto
  have rdy: "ready busy p2" by (rule load_slots_spec(1) [OF assms(1,2) r(5) ss(2,1) assms(6) f])
  from load_slots_keep [OF assms(1) ss(1) f] r have l2: "mem (bus p2) = mem b" "dev_added p2" "pcur p2 = \<lparr>cur_slot = None, cur_seq = 0\<rparr>"
    by simp_all
  define c where "c = set_access ac2 (a\<lparr>a_boot_count := 1, a_persist := p2\<rparr>)"
  have b: "boot_persist B True a = persist_attempts_now B c"
    by (simp add: boot_persist_def q r_def [symmetric] r(4) persist_load_def l Let_def c_def)
  have "store_inv mem (a_persist c)" "ready busy (a_persist c)" "seq_of c < 2 ^ 32 - 1"
    using l2 assms(3) rdy by (simp_all add: store_inv_def c_def)
  from persist_now_kept [OF assms(1,2) this] l2(3)
  show "kept mem busy (boot_persist B True a)" "seq_of (boot_persist B True a) = 1" by (simp_all add: b c_def)
  show "code_region (mem (bus (a_persist (boot_persist B True a)))) k = code_region (mem b) k" if "k < PC_SLOTS"
    using save_keeps_codes [OF assms(1) that, of p2 "Some (attempts_record c)"] l2(1)
    by (simp add: b persist_attempts_now_def) (simp add: c_def)
  show "a_gate (boot_persist B True a) = a_gate a" if "\<forall>k<PC_SLOTS. pc_slot_read (code_region (mem b) k) = None"
    using load_erased [OF assms(1) ss(1) _ f] that r(3) by (simp add: b c_def persist_attempts_now_def)
qed


section \<open>The code region\<close>

lemma main_turn_codes:
  assumes "eeprom_bus (eeprom_i2c B) mem" "k < PC_SLOTS"
  shows "code_region (mem (bus (a_persist (main_turn B e a)))) k = code_region (mem (bus (a_persist a))) k"
proof -
  have h: "code_region (mem (bus (a_persist (handled B t a st)))) k = code_region (mem (bus (a_persist a))) k" for t a st
    using save_keeps_codes [OF assms] by (cases st) (simp add: handled_def handle_def persist_attempts_now_def Let_def)
  have "code_region (mem (bus (a_persist (foldl (handled B t) a tr)))) k = code_region (mem (bus (a_persist a))) k" for t a tr
    by (induction tr arbitrary: a) (simp_all add: h)
  then show ?thesis by (simp add: main_turn_parts gate_part_trace Let_def)
qed

lemma run_codes:
  assumes "eeprom_bus (eeprom_i2c B) mem" "k < PC_SLOTS"
  shows "code_region (mem (bus (a_persist (foldl (sys_step B) a evs)))) k = code_region (mem (bus (a_persist a))) k"
proof (induction evs arbitrary: a)
  case (Cons ev evs)
  have "code_region (mem (bus (a_persist (sys_step B a ev)))) k = code_region (mem (bus (a_persist a))) k"
    using main_turn_codes [OF assms] other_step_persist [of ev B a] by (cases ev) simp_all
  then show ?case using Cons by simp
qed simp


text \<open>The table a boot builds after a run.\<close>

lemma run_then_boot:
  assumes "hmac_sized (hmac_sha256 B)" "eeprom_bus (eeprom_i2c B) mem" "write_cycles (eeprom_i2c B) busy" "kept mem busy a"
    "seq_of a + run_saves B a evs < 2 ^ 32 - 1" "a_persist b = persist_statics (bus (a_persist (foldl (sys_step B) a evs)))"
    "length (slots (access b)) = AC_MAX_SLOTS" "k < PC_SLOTS"
  shows "slots (access (boot_persist B True b)) ! k =
    loaded_slot (code_region (mem (bus (a_persist a))) k) (slots (access b) ! k)"
proof -
  let ?a = "foldl (sys_step B) a evs"
  have "kept mem busy ?a \<and> seq_of ?a = seq_of a + run_saves B a evs"
    using assms(5) by (intro run_kept [OF assms(1-4)]) simp
  then have k: "ring_inv (ring_of (mem (bus (a_persist ?a)))) (pcur (a_persist ?a)) (attempts_record ?a)" "seq_of ?a < 2 ^ 32 - 1"
    "busy (bus (a_persist ?a)) = 0"
    using assms(5) by (simp_all add: kept_def ready_def)
  from boot_restores(5) [OF assms(2,3) k(1,2) assms(6,7) k(3) assms(8)] run_codes [OF assms(2,8)] show ?thesis by simp
qed


section \<open>The moment of the cut\<close>

text \<open>
  The program in the middle of a turn: after the first \<open>m\<close> of the turn's gate events, each with the
  write it asked for.
\<close>

definition mid_turn ::
  "('w, 's, 'e, 'r, 'd, 'n) board \<Rightarrow> turn_env \<Rightarrow> nat \<Rightarrow> ('w, 's, 'e, 'r, 'd, 'n) app \<Rightarrow> ('w, 's, 'e, 'r, 'd, 'n) app" where
  "mid_turn B e m a = foldl (handled B (t_open_ms e)) (a\<lparr>a_keypad := fst (drain (a_keypad a))\<rparr>) (take m (turn_trace B e a))"

text \<open>
  What the chip holds when the power comes back: all that was written, or, when the cut fell into
  the next write of the counter, thirty-two bytes of any kind in the slot that write was meant
  for, so long as they do not pass for a record newer than the last one.
\<close>

definition left_by_cut :: "('e \<Rightarrow> u8 list) \<Rightarrow> 'e persist \<Rightarrow> 'e \<Rightarrow> bool" where
  "left_by_cut mem p b \<longleftrightarrow> mem b = mem (bus p) \<or>
     (\<exists>torn. length torn = PR_SLOT_SIZE \<and> older torn (cur_seq (pcur p)) \<and>
        mem b = blit (snd (pr_advance (pcur p) PR_SLOTS) * PR_SLOT_SIZE) torn (mem (bus p)))"

lemma trace_take: "take m (gate_trace hash g evs) = gate_trace hash g (take m evs)"
  by (induction evs arbitrary: g m) (auto simp: take_Cons split_def split: nat.split)

lemma saves_take: "saves_in (take m tr) \<le> saves_in tr"
proof -
  have "saves_in tr = saves_in (take m tr) + saves_in (drop m tr)"
    by (metis append_take_drop_id filter_append length_append)
  then show ?thesis by simp
qed

lemma mid_turn_kept:
  assumes "eeprom_bus (eeprom_i2c B) mem" "write_cycles (eeprom_i2c B) busy" "kept mem busy a" "seq_of a + turn_saves B e a < 2 ^ 32 - 1"
  shows "kept mem busy (mid_turn B e m a)" "seq_of (mid_turn B e m a) < 2 ^ 32 - 1"
proof -
  let ?a = "a\<lparr>a_keypad := fst (drain (a_keypad a))\<rparr>" and ?evs = "take m (turn_events e a)"
  let ?h = "hash_code (sha256 B) (a_salt a)"
  have "kept mem busy ?a" using assms(3) by (rule kept_cong) simp_all
  moreover have tr: "take m (turn_trace B e a) = gate_trace ?h (a_gate ?a) ?evs" by (simp add: trace_take)
  moreover have n: "seq_of ?a + saves_in (gate_trace ?h (a_gate ?a) ?evs) < 2 ^ 32 - 1"
    using assms(4) saves_take [of m "turn_trace B e a"] tr by (simp add: turn_saves_def)
  then have "seq_of ?a + saves_in (gate_trace ?h (a_gate ?a) ?evs) < 2 ^ 32" by simp
  ultimately show "kept mem busy (mid_turn B e m a)" "seq_of (mid_turn B e m a) < 2 ^ 32 - 1"
    using trace_kept [OF assms(1,2), of ?a ?h ?evs "t_open_ms e"] n unfolding mid_turn_def tr by simp_all
qed

text \<open>Either way the newest record is the one that was written last.\<close>

lemma cut_keeps_record:
  assumes "eeprom_bus i mem" "ring_inv (ring_of (mem (bus p))) (pcur p) st" "left_by_cut mem p b"
  shows "ring_inv (ring_of (mem b)) (pcur p) st"
  using assms(3) unfolding left_by_cut_def
proof (elim disjE exE conjE)
  fix torn assume t: "length torn = PR_SLOT_SIZE" "older torn (cur_seq (pcur p))"
    "mem b = blit (snd (pr_advance (pcur p) PR_SLOTS) * PR_SLOT_SIZE) torn (mem (bus p))"
  obtain nxt slot where n: "pr_advance (pcur p) PR_SLOTS = (nxt, slot)" by fastforce
  have slot: "slot < PR_SLOTS" using advance_lt(1) [of "pcur p"] n by simp
  have lm: "length (mem (bus p)) = EEPROM_SIZE" using assms(1) by (simp add: eeprom_bus_def)
  have a: "slot * PR_SLOT_SIZE + length torn \<le> 2048" using slot t(1) by simp
  have "ring_of (mem b) = blit (slot * PR_SLOT_SIZE - 0) torn (ring_of (mem (bus p)))"
    unfolding t(3) n snd_conv ring_of_def using a by (simp add: region_blit_inside [OF lm] EEPROM_SIZE_def del: drop0)
  then show ?thesis using ring_write_inv [OF assms(2) n t(1,2)] by simp
qed (use assms(2) in simp)


section \<open>Properties\<close>

text \<open>C4: the attempt counter survives a power cut.  On a chip that ignores the bus for the
  time of a write cycle and answers otherwise, from a state the chip knows, after any interleaving
  of keys, turns, deliveries, web requests and radio events, the power may go between two steps or
  in the middle of a turn, after any number of its events.  The boot then finds the failed attempts
  and the lockout exactly as they were after the last of them, one boot later, and the chip knows
  the state again.  If the cut fell into the write that the next event asked for, that event alone is
  lost, as long as the torn slot does not pass for a newer record.  The sequence number of the ring
  has not run out of its 32 bits, and the lockout fits in the 32 bits its record has.\<close>

theorem power_cut_keeps_the_counter:
  assumes "hmac_sized (hmac_sha256 B)" "eeprom_bus (eeprom_i2c B) mem" "write_cycles (eeprom_i2c B) busy" "kept mem busy a"
    "a' = foldl (sys_step B) a evs" "seq_of a + run_saves B a evs + turn_saves B e a' < 2 ^ 32 - 1"
    "c = a' \<or> c = mid_turn B e m a'" "left_by_cut mem (a_persist c) left" "busy left = 0"
    "0 \<le> lockout_until (access c)" "lockout_until (access c) < 2 ^ 32"
    "a_persist b = persist_statics left" "length (slots (access b)) = AC_MAX_SLOTS"
  shows "failed_attempts (access (boot_persist B True b)) = failed_attempts (access c) \<and>
    lockout_until (access (boot_persist B True b)) = lockout_until (access c) \<and>
    a_boot_count (boot_persist B True b) = a_boot_count c + 1 \<and> kept mem busy (boot_persist B True b)"
proof -
  have a': "kept mem busy a'" "seq_of a' + turn_saves B e a' < 2 ^ 32 - 1"
    using run_kept [OF assms(1-4), of evs] assms(6) unfolding assms(5) by simp_all
  have "kept mem busy c" "seq_of c < 2 ^ 32 - 1"
    using assms(7) a' mid_turn_kept [OF assms(2,3) a'] by auto
  then have k: "ring_inv (ring_of (mem left)) (pcur (a_persist c)) (attempts_record c)" "seq_of c < 2 ^ 32 - 1"
    using cut_keeps_record [OF assms(2) _ assms(8)] by (simp_all add: kept_def)
  note r = boot_restores(1-4) [OF assms(2,3) k assms(12,13,9)]
  have "uint (pr_lockout_until (attempts_record c)) = lockout_until (access c)"
    using assms(10,11) by (simp add: attempts_record_def uint_word_of_int)
  with r show ?thesis by (simp add: attempts_record_def)
qed

text \<open>A board with an erased chip, booted, with eight keys typed and a wrong ninth in the queue.\<close>

abbreviation demo_powered where
  "demo_powered \<equiv> boot_persist demo_board True
     ((demo_app eight_keys [KP_EV_PRESS CHR ''*''])\<lparr>a_persist := persist_statics erased\<rparr>)"

lemma demo_eeprom: "eeprom_bus (eeprom_i2c demo_board) demo_mem" "write_cycles (eeprom_i2c demo_board) snd"
  using demo_bus_ok demo_cycles by simp_all

lemma demo_first_boot:
  "snd erased = 0" "length (slots (access ((demo_app eight_keys [KP_EV_PRESS CHR ''*''])\<lparr>a_persist := persist_statics erased\<rparr>))) = AC_MAX_SLOTS"
  using eight_keys_inv by (simp_all add: erased_def gate_inv_def ac_good_def ac_inv_def)

lemma demo_powered:
  "kept demo_mem snd demo_powered" "seq_of demo_powered = 1" "a_gate demo_powered = eight_keys"
  using first_boot_kept [OF demo_eeprom erased_regions(1) _ demo_first_boot] erased_regions(2) by simp_all

lemma trace_length: "length (gate_trace hash g evs) = length evs"
  by (induction evs arbitrary: g) (simp_all add: split_def)

abbreviation demo_miss where
  "demo_miss \<equiv> foldl (sys_step demo_board) demo_powered [Main_loop demo_turn]"

lemma demo_saves: "run_saves demo_board demo_powered [Main_loop demo_turn] \<le> 2"
proof -
  have "turn_saves demo_board demo_turn demo_powered \<le> length (turn_trace demo_board demo_turn demo_powered)"
    by (simp add: turn_saves_def)
  also have "\<dots> = length (turn_events demo_turn demo_powered)" by (rule trace_length)
  also have "\<dots> \<le> 2" by (simp add: turn_events_def drain_def)
  finally show ?thesis by simp
qed

lemma demo_miss_counts: "failed_attempts (access demo_miss) = 1 \<and> lockout_until (access demo_miss) = 0"
proof -
  have ev: "turn_events demo_turn demo_powered = [Key CHR ''*'' demo_now, Gate_tick demo_now]"
    by (simp add: turn_events_def drain_def demo_turn_def)
  have "judging (access demo_miss) = judging (access (gate_part demo_board demo_turn demo_powered))"
    using main_turn_access [of demo_board demo_turn demo_powered] by auto
  also have "\<dots> = judging (g_ac (foldl (\<lambda>g ev. fst (gate_step (hash_code demo_sha []) g ev)) eight_keys
      [Key CHR ''*'' demo_now, Gate_tick demo_now]))"
    by (simp only: gate_part_gate ev demo_powered(3)) simp
  also have "\<dots> = (True, 1, 0)" by code_simp
  finally show ?thesis by (simp add: judging_def)
qed

text \<open>The power goes while the next write of the counter is under way: its slot is left erased.\<close>

abbreviation torn_miss :: "u8 list \<times> nat" where
  "torn_miss \<equiv> (blit (snd (pr_advance (pcur (a_persist demo_miss)) PR_SLOTS) * PR_SLOT_SIZE) (replicate PR_SLOT_SIZE 0xFF)
     (demo_mem (bus (a_persist demo_miss))), 0)"

lemma demo_torn: "left_by_cut demo_mem (a_persist demo_miss) torn_miss"
proof -
  have "length (blit a xs (demo_mem b)) = EEPROM_SIZE" if "a + length xs \<le> EEPROM_SIZE" for a xs b
    using that by (simp add: blit_def demo_mem_def)
  then have "demo_mem (blit a xs (demo_mem b), 0) = blit a xs (demo_mem b)" if "a + length xs \<le> EEPROM_SIZE" for a xs b
    using that by (simp add: demo_mem_def [of "(blit a xs (demo_mem b), 0)"])
  moreover have "snd (pr_advance (pcur (a_persist demo_miss)) PR_SLOTS) * PR_SLOT_SIZE + length (replicate PR_SLOT_SIZE (0xFF :: u8)) \<le> EEPROM_SIZE"
    using advance_lt(1) [of "pcur (a_persist demo_miss)"] by (simp add: EEPROM_SIZE_def)
  ultimately have "demo_mem torn_miss = blit (snd (pr_advance (pcur (a_persist demo_miss)) PR_SLOTS) * PR_SLOT_SIZE)
    (replicate PR_SLOT_SIZE 0xFF) (demo_mem (bus (a_persist demo_miss)))" by blast
  moreover have "length (replicate PR_SLOT_SIZE (0xFF :: u8)) = PR_SLOT_SIZE"
    "older (replicate PR_SLOT_SIZE 0xFF) (cur_seq (pcur (a_persist demo_miss)))"
    using erased_record by (simp_all add: older_def)
  ultimately show ?thesis unfolding left_by_cut_def by blast
qed

lemma demo_miss_next: "turn_saves demo_board demo_turn demo_miss \<le> 1"
proof -
  have "turn_saves demo_board demo_turn demo_miss \<le> length (turn_trace demo_board demo_turn demo_miss)"
    by (simp add: turn_saves_def)
  also have "\<dots> = length (turn_events demo_turn demo_miss)" by (rule trace_length)
  also have "\<dots> \<le> 1" by (simp add: turn_events_def drain_def main_turn_parts)
  finally show ?thesis .
qed

theorem power_cut_keeps_the_counter_witness:
  "failed_attempts (access (boot_persist demo_board True
     ((demo_app demo_gate [])\<lparr>a_persist := persist_statics torn_miss\<rparr>))) = 1"
proof -
  have s: "seq_of demo_powered + run_saves demo_board demo_powered [Main_loop demo_turn] + turn_saves demo_board demo_turn demo_miss < 2 ^ 32 - 1"
    using demo_powered(2) demo_saves demo_miss_next by simp
  have l: "length (slots (access ((demo_app demo_gate [])\<lparr>a_persist := persist_statics torn_miss\<rparr>))) = AC_MAX_SLOTS"
    using demo_gate_inv by (simp add: gate_inv_def ac_good_def ac_inv_def)
  have lo: "0 \<le> lockout_until (access demo_miss)" "lockout_until (access demo_miss) < 2 ^ 32"
    using demo_miss_counts by (simp_all only:) simp_all
  have p: "a_persist ((demo_app demo_gate [])\<lparr>a_persist := persist_statics torn_miss\<rparr>) = persist_statics torn_miss"
    by simp
  from power_cut_keeps_the_counter [OF demo_sized(1) demo_eeprom demo_powered(1) refl s disjI1 [OF refl] demo_torn snd_conv lo p l]
    demo_miss_counts show ?thesis by (simp only:)
qed

text \<open>C38: a power cut undoes every delivery and every revocation.  On a chip that ignores the bus
  for the time of a write cycle and answers otherwise, and a cut between two steps, the table a boot
  builds is a function of the chip as it was when the run began: what the backend installed or
  withdrew and what the courier added or revoked in the meantime leaves no trace in it, whatever
  happened.\<close>

theorem power_cut_undoes_deliveries:
  assumes "hmac_sized (hmac_sha256 B)" "eeprom_bus (eeprom_i2c B) mem" "write_cycles (eeprom_i2c B) busy" "kept mem busy a"
    "seq_of a + run_saves B a evs < 2 ^ 32 - 1" "a_persist b = persist_statics (bus (a_persist (foldl (sys_step B) a evs)))"
    "length (slots (access b)) = AC_MAX_SLOTS" "k < PC_SLOTS"
  shows "slots (access (boot_persist B True b)) ! k =
    loaded_slot (code_region (mem (bus (a_persist a))) k) (slots (access b) ! k)"
  by (rule run_then_boot [OF assms])


abbreviation delivery_run :: "sys_event list" where
  "delivery_run \<equiv> [Radio (Got_ip ''10.0.0.7'' (False, None)), Sync_task demo_http 5]"

theorem power_cut_undoes_deliveries_witness:
  "slots (access (boot_persist demo_board True ((demo_app (demo_gate\<lparr>g_ac := ac_init 2 300\<rparr>) [])\<lparr>a_persist :=
     persist_statics (bus (a_persist (foldl (sys_step demo_board) demo_powered delivery_run)))\<rparr>))) ! 0 = zero_slot"
proof -
  let ?b = "(demo_app (demo_gate\<lparr>g_ac := ac_init 2 300\<rparr>) [])\<lparr>a_persist :=
     persist_statics (bus (a_persist (foldl (sys_step demo_board) demo_powered delivery_run)))\<rparr>"
  have "run_saves demo_board demo_powered delivery_run = 0" by simp
  then have s: "seq_of demo_powered + run_saves demo_board demo_powered delivery_run < 2 ^ 32 - 1" using demo_powered(2) by simp
  have l: "length (slots (access ?b)) = AC_MAX_SLOTS" "slots (access ?b) ! 0 = zero_slot" by (simp_all add: ac_init_def)
  have p: "a_persist ?b = persist_statics (bus (a_persist (foldl (sys_step demo_board) demo_powered delivery_run)))" by simp
  have "slots (access (boot_persist demo_board True ?b)) ! 0 =
      loaded_slot (code_region (demo_mem (bus (a_persist demo_powered))) 0) (slots (access ?b) ! 0)"
    by (rule power_cut_undoes_deliveries [OF demo_sized(1) demo_eeprom demo_powered(1) s p l(1)]) simp
  moreover have "code_region (demo_mem (bus (a_persist demo_powered))) 0 = code_region (demo_mem erased) 0"
    by (rule first_boot_kept(3) [OF demo_eeprom erased_regions(1) _ demo_first_boot]) simp_all
  ultimately show ?thesis using erased_regions(2) l(2) by (simp add: loaded_slot_def)
qed

end
