(* ===== verification/Dev_Console.thy ===== *)
theory Dev_Console
  imports System_Power
begin

text \<open>
  \<^verbatim>\<open>main/dev_console.c\<close>: the shell of a development build.  A command gets its words, works on the
  state of the program under the mutex, and answers with what it prints and a return code.  What is
  printed is data here: one constructor per message, with the values in it.  Reading the line and
  splitting it is the console component's.
\<close>

section \<open>The C library's numbers\<close>

definition is_space :: "char \<Rightarrow> bool" where
  "is_space c \<longleftrightarrow> c = CHR '' '' \<or> (9 \<le> (of_char c :: nat) \<and> of_char c \<le> (13 :: nat))"

definition is_dec :: "char \<Rightarrow> bool" where
  "is_dec c \<longleftrightarrow> CHR ''0'' \<le> c \<and> c \<le> CHR ''9''"

definition dec_value :: "string \<Rightarrow> int" where
  "dec_value ds = foldl (\<lambda>v c. 10 * v + (of_char c - 48)) 0 ds"

text \<open>\<open>strtol(s, NULL, 10)\<close> of a type with the given range, which saturates.\<close>

definition strtol10 :: "int \<Rightarrow> int \<Rightarrow> string \<Rightarrow> int" where
  "strtol10 lo hi s =
     (let s = dropWhile is_space (cstr s);
          neg = (s \<noteq> [] \<and> hd s = CHR ''-'');
          s = (if s \<noteq> [] \<and> (hd s = CHR ''-'' \<or> hd s = CHR ''+'') then tl s else s);
          v = dec_value (takeWhile is_dec s)
      in max lo (min hi (if neg then - v else v)))"

text \<open>\<open>long\<close> and \<open>int\<close> have 32 bits, \<open>long long\<close> has 64.\<close>

abbreviation strtol :: "string \<Rightarrow> int" where "strtol \<equiv> strtol10 (- (2 ^ 31)) (2 ^ 31 - 1)"
abbreviation strtoll :: "string \<Rightarrow> int" where "strtoll \<equiv> strtol10 (- (2 ^ 63)) (2 ^ 63 - 1)"


section \<open>Data\<close>

datatype code_state = Expired | Not_yet | Minutes_left int

datatype con_reply =
    Time_rejected
  | Time_set int
  | Time_shown i64 bool
  | Bad_format
  | Clock_untrusted
  | Table_full
  | Dev_added string int
  | Stored_in_ram_only string esp_err
  | Stored string int nat
  | Code_list "(string \<times> bool \<times> code_state) option list"
  | No_such_code string
  | Guest_code string
  | Erase_failed string esp_err
  | Removed string bool
  | Slot_range
  | Read_failed esp_err
  | Raw_slot "((pc_code \<times> u32) option \<times> u8 list) list" "(pc_code \<times> u32) option"
  | Nothing_stored
  | Dry_run "(nat \<times> string \<times> bool) list" nat nat
  | Erased "(nat \<times> string \<times> bool) list" nat nat nat
  | Revoked nat
  | Status bool i64 nat nat nat u8 u8 "i64 option" u32 u32 string
  | Border_shown
  | Bus_scan "(nat \<times> string) list"
  | Led_forced string
  | Unknown_colour
  | Sync_answer bool
  | Generation_held u64
  | Courier_state string u64 u64
  | Usage
  | Unknown_command

text \<open>The clocks, the network and the bus during one command.\<close>

record con_env =
  con_now :: i64
  con_ms :: u32
  con_http :: http_fn
  con_probe :: "nat \<Rightarrow> bool"

text \<open>The program with \<open>s_dev_codes\<close>.\<close>

type_synonym ('w, 's, 'e, 'r, 'd, 'n) con = "('w, 's, 'e, 'r, 'd, 'n) app \<times> u32"


section \<open>Commands\<close>

text \<open>The \<open>k\<close>th word; the commands look only at words they have counted.\<close>

definition arg :: "string list \<Rightarrow> nat \<Rightarrow> string" where
  "arg argv k = cstr (argv ! k)"

definition cmd_time ::
  "('w, 's, 'e, 'r, 'd, 'n) board \<Rightarrow> con_env \<Rightarrow> string list \<Rightarrow> ('w, 's, 'e, 'r, 'd, 'n) con \<Rightarrow>
     ('w, 's, 'e, 'r, 'd, 'n) con \<times> con_reply \<times> int" where
  "cmd_time B e argv s =
     (let (a, n) = s
      in if length argv = 3 \<and> arg argv 1 = ''set''
         then
           (let epoch = strtoll (argv ! 2);
                (r, err) = rtc_ds3231_set_time (rtc_i2c B) epoch (a_rtc a);
                a = a\<lparr>a_rtc := r\<rparr>
            in if err \<noteq> ESP_OK then ((a, n), Time_rejected, 1)
               else ((gate_app_set_clock_trusted True a, n), Time_set epoch, 0))
         else ((a, n), Time_shown (con_now e) (ac_clock_trusted (access a)), 0))"

text \<open>\<open>"t%07llx"\<close> of the low 28 bits, and \<open>"dev%05u"\<close> cut to the size of an id.\<close>

definition stored_id :: "i64 \<Rightarrow> string" where
  "stored_id now = CHR ''t'' # map (\<lambda>k. hex_digit (nat (now mod 2 ^ 28) div 16 ^ k mod 16)) (rev [0..<7]) @ [NUL]"

definition dev_id :: "u32 \<Rightarrow> string" where
  "dev_id n =
     (let t = nat_text (unat n)
      in take (AC_ID_LEN - 1) (''dev'' @ replicate (5 - length t) CHR ''0'' @ t) @ [NUL])"

definition add_code ::
  "('w, 's, 'e, 'r, 'd, 'n) board \<Rightarrow> i64 \<Rightarrow> string \<Rightarrow> i64 \<Rightarrow> bool \<Rightarrow> ('w, 's, 'e, 'r, 'd, 'n) con \<Rightarrow>
     ('w, 's, 'e, 'r, 'd, 'n) con \<times> (con_reply + nat \<times> string)" where
  "add_code B now code seconds persistent s =
     (let (a, n) = s
      in if \<not> ac_format_valid (Some code) then ((a, n), Inl Bad_format)
         else if \<not> ac_clock_trusted (access a) then ((a, n), Inl Clock_untrusted)
         else
           (let h = gate_app_hash B a code;
                n = (if persistent then n else n + 1);
                cid = (if persistent then stored_id now else dev_id n);
                (ac, slot) = (if persistent then ac_upsert (access a) (Some cid) (Some h) (now - 60) (now + seconds)
                              else ac_upsert_transient (access a) (Some cid) (Some h) (now - 60) (now + seconds))
            in ((set_access ac a, n), case slot of None \<Rightarrow> Inl Table_full | Some k \<Rightarrow> Inr (k, cid))))"

text \<open>The lifetimes: minutes up to 15, hours up to 30 days.\<close>

definition add_minutes :: "string list \<Rightarrow> int" where
  "add_minutes argv =
     (let minutes = (if length argv \<ge> 4 then strtol (argv ! 3) else 15)
      in if minutes \<le> 0 \<or> minutes > 15 then 15 else minutes)"

definition persist_hours :: "string list \<Rightarrow> int" where
  "persist_hours argv =
     (let hours = (if length argv \<ge> 4 then strtol (argv ! 3) else 24)
      in if hours \<le> 0 \<or> hours > 24 * 30 then 24 else hours)"

definition code_add ::
  "('w, 's, 'e, 'r, 'd, 'n) board \<Rightarrow> con_env \<Rightarrow> string list \<Rightarrow> ('w, 's, 'e, 'r, 'd, 'n) con \<Rightarrow>
     ('w, 's, 'e, 'r, 'd, 'n) con \<times> con_reply \<times> int" where
  "code_add B e argv s =
     (let minutes = add_minutes argv
      in case add_code B (con_now e) (argv ! 2) (minutes * 60) False s of
           (s, Inl r) \<Rightarrow> (s, r, 1)
         | (s, Inr (slot, cid)) \<Rightarrow> (s, Dev_added (cstr cid) minutes, 0))"

definition code_persist ::
  "('w, 's, 'e, 'r, 'd, 'n) board \<Rightarrow> con_env \<Rightarrow> string list \<Rightarrow> ('w, 's, 'e, 'r, 'd, 'n) con \<Rightarrow>
     ('w, 's, 'e, 'r, 'd, 'n) con \<times> con_reply \<times> int" where
  "code_persist B e argv s =
     (let hours = persist_hours argv
      in case add_code B (con_now e) (argv ! 2) (hours * 3600) True s of
           (s, Inl r) \<Rightarrow> (s, r, 1)
         | ((a, n), Inr (slot, cid)) \<Rightarrow>
             (let (p, err) = persist_codes_save (eeprom_i2c B) (a_persist a) (access a) (int slot);
                  a = a\<lparr>a_persist := p\<rparr>
              in if err \<noteq> ESP_OK then ((a, n), Stored_in_ram_only (cstr cid) err, 1)
                 else ((a, n), Stored (cstr cid) hours slot, 0)))"

text \<open>The time left is a \<open>long\<close>.\<close>

definition code_line :: "i64 \<Rightarrow> ac_slot \<Rightarrow> (string \<times> bool \<times> code_state) option" where
  "code_line now s =
     (if \<not> occupied s then None
      else
        (let left = sint (word_of_int (slot_until s - now) :: 32 word)
         in Some (cstr (slot_id s), transient s,
              if left \<le> 0 then Expired else if now < slot_from s then Not_yet else Minutes_left (left div 60))))"

definition code_list ::
  "con_env \<Rightarrow> ('w, 's, 'e, 'r, 'd, 'n) con \<Rightarrow> ('w, 's, 'e, 'r, 'd, 'n) con \<times> con_reply \<times> int" where
  "code_list e s = (s, Code_list (map (\<lambda>i. code_line (con_now e) (slots (access (fst s)) ! i)) [0..<AC_MAX_SLOTS]), 0)"

definition code_del ::
  "('w, 's, 'e, 'r, 'd, 'n) board \<Rightarrow> string list \<Rightarrow> ('w, 's, 'e, 'r, 'd, 'n) con \<Rightarrow>
     ('w, 's, 'e, 'r, 'd, 'n) con \<times> con_reply \<times> int" where
  "code_del B argv s =
     (let (a, n) = s; cid = argv ! 2
      in case find_by_id (access a) cid of
           None \<Rightarrow> ((a, n), No_such_code (cstr cid), 1)
         | Some slot \<Rightarrow>
             (let was_stored = (\<not> transient (slots (access a) ! slot))
              in if \<not> ac_id_is_dev (Some cid) \<and> \<not> (length argv = 4 \<and> arg argv 3 = ''yes'')
                 then ((a, n), Guest_code (cstr cid), 1)
                 else
                   (let a = set_access (fst (ac_revoke (access a) (Some cid))) a;
                        (p, err) = (if was_stored then persist_codes_save (eeprom_i2c B) (a_persist a) (access a) (int slot)
                                    else (a_persist a, ESP_OK));
                        a = a\<lparr>a_persist := p\<rparr>
                    in if err \<noteq> ESP_OK then ((a, n), Erase_failed (cstr cid) err, 1)
                       else ((a, n), Removed (cstr cid) was_stored, 0))))"

definition code_raw ::
  "('w, 's, 'e, 'r, 'd, 'n) board \<Rightarrow> string list \<Rightarrow> ('w, 's, 'e, 'r, 'd, 'n) con \<Rightarrow>
     ('w, 's, 'e, 'r, 'd, 'n) con \<times> con_reply \<times> int" where
  "code_raw B argv s =
     (let (a, n) = s; slot = strtol (argv ! 2)
      in if slot < 0 \<or> slot \<ge> int AC_MAX_SLOTS then ((a, n), Slot_range, 1)
         else
           (case persist_raw_read (eeprom_i2c B) (a_persist a) (pc_offset (nat slot) 0) PC_SLOT_SIZE of
              (p, Inl err) \<Rightarrow> ((a\<lparr>a_persist := p\<rparr>, n), Read_failed err, 1)
            | (p, Inr img) \<Rightarrow>
                ((a\<lparr>a_persist := p\<rparr>, n),
                 Raw_slot (map (\<lambda>h. let r = take PC_REC_SIZE (drop (h * PC_REC_SIZE) img) in (pc_decode r, take 12 r)) [0, 1])
                   (pc_slot_read img), 0)))"

definition stored_slots :: "ac_ctx \<Rightarrow> (nat \<times> string \<times> bool) list" where
  "stored_slots ac =
     map (\<lambda>i. (i, cstr (slot_id (slots ac ! i)), ac_id_is_dev (Some (slot_id (slots ac ! i)))))
       (filter (\<lambda>i. occupied (slots ac ! i) \<and> \<not> transient (slots ac ! i)) [0..<AC_MAX_SLOTS])"

text \<open>One round of the loop that erases; the counts are of codes erased, slots written and failures.\<close>

definition erase_slot ::
  "('w, 's, 'e, 'r, 'd, 'n) board \<Rightarrow> bool \<Rightarrow> nat \<Rightarrow> ('w, 's, 'e, 'r, 'd, 'n) app \<times> nat \<times> nat \<times> nat \<Rightarrow>
     ('w, 's, 'e, 'r, 'd, 'n) app \<times> nat \<times> nat \<times> nat" where
  "erase_slot B force i st =
     (let (a, cleared, written, failed) = st;
          sl = slots (access a) ! i;
          occupied_stored = (occupied sl \<and> \<not> transient sl)
      in if occupied_stored \<and> \<not> ac_id_is_dev (Some (slot_id sl)) \<and> \<not> force then st
         else
           (let cleared = (if occupied_stored then cleared + 1 else cleared);
                a = set_access ((access a)\<lparr>slots := (slots (access a))[i := zero_slot]\<rparr>) a;
                (p, err) = persist_codes_save (eeprom_i2c B) (a_persist a) (access a) (int i);
                (p, err) = (if err \<noteq> ESP_OK then (p, err)
                            else persist_codes_save (eeprom_i2c B) p (access a) (int i));
                a = a\<lparr>a_persist := p\<rparr>
            in if err \<noteq> ESP_OK then (a, cleared, written, failed + 1) else (a, cleared, written + 1, failed)))"

definition code_erase ::
  "('w, 's, 'e, 'r, 'd, 'n) board \<Rightarrow> string list \<Rightarrow> ('w, 's, 'e, 'r, 'd, 'n) con \<Rightarrow>
     ('w, 's, 'e, 'r, 'd, 'n) con \<times> con_reply \<times> int" where
  "code_erase B argv s =
     (let (a, n) = s;
          words = map cstr (drop 2 argv);
          confirmed = (''yes'' \<in> set words);
          force = (''all'' \<in> set words);
          stored = stored_slots (access a);
          dev = length (filter (\<lambda>(i, cid, d). d) stored);
          guest = length (filter (\<lambda>(i, cid, d). \<not> d) stored)
      in if dev = 0 \<and> guest = 0 then ((a, n), Nothing_stored, 0)
         else if \<not> confirmed then ((a, n), Dry_run stored dev guest, 0)
         else
           (let (a, cleared, written, failed) = fold (erase_slot B force) [0..<AC_MAX_SLOTS] (a, 0, 0, 0)
            in ((a, n), Erased stored cleared written failed, 0)))"

text \<open>\<open>code clear\<close> and \<open>dev off\<close>.\<close>

definition revoke_dev :: "('w, 's, 'e, 'r, 'd, 'n) con \<Rightarrow> ('w, 's, 'e, 'r, 'd, 'n) con \<times> con_reply \<times> int" where
  "revoke_dev s =
     (let (a, n) = s; (ac, k) = ac_revoke_transient (access a)
      in ((set_access ac a, 0), Revoked k, 0))"

definition cmd_code ::
  "('w, 's, 'e, 'r, 'd, 'n) board \<Rightarrow> con_env \<Rightarrow> string list \<Rightarrow> ('w, 's, 'e, 'r, 'd, 'n) con \<Rightarrow>
     ('w, 's, 'e, 'r, 'd, 'n) con \<times> con_reply \<times> int" where
  "cmd_code B e argv s =
     (let argc = length argv
      in if argc \<ge> 3 \<and> arg argv 1 = ''add'' then code_add B e argv s
         else if argc \<ge> 3 \<and> arg argv 1 = ''persist'' then code_persist B e argv s
         else if argc = 2 \<and> arg argv 1 = ''list'' then code_list e s
         else if argc \<ge> 3 \<and> arg argv 1 = ''del'' then code_del B argv s
         else if argc = 3 \<and> arg argv 1 = ''raw'' then code_raw B argv s
         else if argc \<ge> 2 \<and> arg argv 1 = ''erase'' then code_erase B argv s
         else if argc = 2 \<and> arg argv 1 = ''clear'' then revoke_dev s
         else (s, Usage, 1))"

definition cmd_dev :: "string list \<Rightarrow> ('w, 's, 'e, 'r, 'd, 'n) con \<Rightarrow> ('w, 's, 'e, 'r, 'd, 'n) con \<times> con_reply \<times> int" where
  "cmd_dev argv s = (if length argv = 2 \<and> arg argv 1 = ''off'' then revoke_dev s else (s, Usage, 1))"

definition cmd_status :: "con_env \<Rightarrow> ('w, 's, 'e, 'r, 'd, 'n) con \<Rightarrow> ('w, 's, 'e, 'r, 'd, 'n) con \<times> con_reply \<times> int" where
  "cmd_status e s =
     (let a = fst s; ac = access a; now = con_now e;
          held = filter (\<lambda>i. occupied (slots ac ! i)) [0..<AC_MAX_SLOTS];
          dev = length (filter (\<lambda>i. transient (slots ac ! i)) held);
          stored = length (filter (\<lambda>i. \<not> transient (slots ac ! i)) held);
          lk = s_logic (a_lock a)
      in (s, Status (ac_clock_trusted ac) now (ac_count ac) stored dev (failed_attempts ac) (max_failed_attempts ac)
            (if lockout_until ac > now then Some (lockout_until ac - now) else None)
            (pulses_total lk) (requests_refused lk) (led_colour_name (status_led_current (a_led a))), 0))"

definition cmd_oled ::
  "con_env \<Rightarrow> string list \<Rightarrow> ('w, 's, 'e, 'r, 'd, 'n) con \<Rightarrow> ('w, 's, 'e, 'r, 'd, 'n) con \<times> con_reply \<times> int" where
  "cmd_oled e argv s =
     (let (a, n) = s
      in if length argv = 2 \<and> arg argv 1 = ''border'' then ((gate_app_show_border (con_ms e) 5000 a, n), Border_shown, 0)
         else ((a, n), Usage, 1))"

definition i2c_name :: "nat \<Rightarrow> string" where
  "i2c_name a =
     (if a = 0x3C then ''SSD1306 OLED''
      else if a = 0x57 then ''AT24C32 EEPROM (codes + attempt counter)''
      else if a = 0x68 then ''DS3231 RTC''
      else ''? UNEXPECTED - see the note below'')"

definition cmd_i2c ::
  "con_env \<Rightarrow> string list \<Rightarrow> ('w, 's, 'e, 'r, 'd, 'n) con \<Rightarrow> ('w, 's, 'e, 'r, 'd, 'n) con \<times> con_reply \<times> int" where
  "cmd_i2c e argv s =
     (if length argv = 2 \<and> arg argv 1 = ''scan''
      then (s, Bus_scan (map (\<lambda>a. (a, i2c_name a)) (filter (con_probe e) [0x08..<0x78])), 0)
      else (s, Usage, 1))"

definition led_map :: "(string \<times> led_colour) list" where
  "led_map = [(''red'', LED_RED), (''green'', LED_GREEN), (''blue'', LED_BLUE), (''amber'', LED_AMBER),
     (''magenta'', LED_MAGENTA)]"

definition cmd_led ::
  "con_env \<Rightarrow> string list \<Rightarrow> ('w, 's, 'e, 'r, 'd, 'n) con \<Rightarrow> ('w, 's, 'e, 'r, 'd, 'n) con \<times> con_reply \<times> int" where
  "cmd_led e argv s =
     (let (a, n) = s
      in if length argv < 2 then ((a, n), Usage, 0)
         else
           (case map_of led_map (arg argv 1) of
              Some c \<Rightarrow> ((a\<lparr>a_led := status_led_force c (con_ms e) (a_led a)\<rparr>, n), Led_forced (led_colour_name c), 0)
            | None \<Rightarrow> ((a, n), Unknown_colour, 1)))"

definition cmd_sync ::
  "('w, 's, 'e, 'r, 'd, 'n) board \<Rightarrow> con_env \<Rightarrow> string list \<Rightarrow> ('w, 's, 'e, 'r, 'd, 'n) con \<Rightarrow>
     ('w, 's, 'e, 'r, 'd, 'n) con \<times> con_reply \<times> int" where
  "cmd_sync B e argv s =
     (let (a, n) = s
      in if length argv = 2 \<and> arg argv 1 = ''now''
         then (case sync_client_poll_now (hmac_sha256 B) (num_ops B) (con_http e) (a_sync a) (access a) (con_ms e) of
                 (c, table, err) \<Rightarrow> ((set_access table (a\<lparr>a_sync := c\<rparr>), n), Sync_answer (err = ESP_OK), 0))
         else ((a, n), Generation_held (sync_client_generation (a_sync a)), 0))"

definition cmd_tg :: "('w, 's, 'e, 'r, 'd, 'n) con \<Rightarrow> ('w, 's, 'e, 'r, 'd, 'n) con \<times> con_reply \<times> int" where
  "cmd_tg s =
     (let t = a_tg (fst s) in (s, Courier_state (tg_client_state_text t) (tg_client_counter t) (tg_client_offset t), 0))"

text \<open>The commands registered at the start.\<close>

datatype con_cmd = Time_cmd | Code_cmd | Dev_cmd | Status_cmd | Oled_cmd | I2c_cmd | Led_cmd | Sync_cmd | Tg_cmd

definition commands :: "(string \<times> con_cmd) list" where
  "commands = [(''time'', Time_cmd), (''code'', Code_cmd), (''dev'', Dev_cmd), (''status'', Status_cmd), (''oled'', Oled_cmd),
     (''i2c'', I2c_cmd), (''led'', Led_cmd), (''sync'', Sync_cmd), (''tg'', Tg_cmd)]"

fun run_command ::
  "('w, 's, 'e, 'r, 'd, 'n) board \<Rightarrow> con_env \<Rightarrow> con_cmd \<Rightarrow> string list \<Rightarrow> ('w, 's, 'e, 'r, 'd, 'n) con \<Rightarrow>
     ('w, 's, 'e, 'r, 'd, 'n) con \<times> con_reply \<times> int" where
  "run_command B e Time_cmd argv s = cmd_time B e argv s"
| "run_command B e Code_cmd argv s = cmd_code B e argv s"
| "run_command B e Dev_cmd argv s = cmd_dev argv s"
| "run_command B e Status_cmd argv s = cmd_status e s"
| "run_command B e Oled_cmd argv s = cmd_oled e argv s"
| "run_command B e I2c_cmd argv s = cmd_i2c e argv s"
| "run_command B e Led_cmd argv s = cmd_led e argv s"
| "run_command B e Sync_cmd argv s = cmd_sync B e argv s"
| "run_command B e Tg_cmd argv s = cmd_tg s"

definition console_run ::
  "('w, 's, 'e, 'r, 'd, 'n) board \<Rightarrow> con_env \<Rightarrow> string list \<Rightarrow> ('w, 's, 'e, 'r, 'd, 'n) con \<Rightarrow>
     ('w, 's, 'e, 'r, 'd, 'n) con \<times> con_reply \<times> int" where
  "console_run B e argv s =
     (case argv of
        [] \<Rightarrow> (s, Unknown_command, 1)
      | name # _ \<Rightarrow> (case map_of commands (cstr name) of
                        None \<Rightarrow> (s, Unknown_command, 1)
                      | Some c \<Rightarrow> run_command B e c argv s))"

end
