(* ===== verification/System_Bench.thy ===== *)
theory System_Bench
  imports Dev_Console System_Door
begin

text \<open>
  The program of a development build: the steps of the running system and, between them, the
  commands of the console.  What a command can do to the gate is bounded once for all commands by a
  preorder on states; the invariant of the program and the door property then extend to the bench.
\<close>

section \<open>Steps\<close>

datatype bench_event = System sys_event | Command con_env "string list"

fun bench_step ::
  "('w, 's, 'e, 'r, 'd, 'n) board \<Rightarrow> ('w, 's, 'e, 'r, 'd, 'n) con \<Rightarrow> bench_event \<Rightarrow> ('w, 's, 'e, 'r, 'd, 'n) con" where
  "bench_step B (a, n) (System ev) = (sys_step B a ev, n)"
| "bench_step B s (Command e argv) = fst (console_run B e argv s)"

text \<open>
  The hashes a step can put into the table.  A code that is typed into the console counts when
  the clock is trusted and its format is valid, and only for the two commands that store one; what
  the backend delivers counts for the command that polls it.
\<close>

definition typed_code :: "('w, 's, 'e, 'r, 'd, 'n) board \<Rightarrow> ('w, 's, 'e, 'r, 'd, 'n) app \<Rightarrow> string \<Rightarrow> u8 list set" where
  "typed_code B a code =
     (if ac_clock_trusted (access a) \<and> ac_format_valid (Some code) then {gate_app_hash B a code} else {})"

definition typed_in ::
  "('w, 's, 'e, 'r, 'd, 'n) board \<Rightarrow> con_env \<Rightarrow> string list \<Rightarrow> ('w, 's, 'e, 'r, 'd, 'n) app \<Rightarrow> u8 list set" where
  "typed_in B e argv a =
     (if argv \<noteq> [] \<and> arg argv 0 = ''code'' \<and> length argv \<ge> 3 \<and> arg argv 1 \<in> {''add'', ''persist''}
      then typed_code B a (argv ! 2)
      else if argv \<noteq> [] \<and> arg argv 0 = ''sync'' \<and> length argv = 2 \<and> arg argv 1 = ''now''
      then sync_brings (hmac_sha256 B) (con_http e) (a_sync a)
      else {})"

fun bench_brought :: "('w, 's, 'e, 'r, 'd, 'n) board \<Rightarrow> ('w, 's, 'e, 'r, 'd, 'n) con \<Rightarrow> bench_event \<Rightarrow> u8 list set" where
  "bench_brought B s (System ev) = brought B (fst s) ev"
| "bench_brought B s (Command e argv) = typed_in B e argv (fst s)"

inductive bench_reach ::
  "('w, 's, 'e, 'r, 'd, 'n) board \<Rightarrow> ('w, 's, 'e, 'r, 'd, 'n) con \<Rightarrow> u8 list set \<Rightarrow> ('w, 's, 'e, 'r, 'd, 'n) con \<Rightarrow> bool"
  for B s0 where
  bench_start: "bench_reach B s0 {} s0"
| bench_more: "bench_reach B s0 H s \<Longrightarrow> bench_reach B s0 (H \<union> bench_brought B s ev) (bench_step B s ev)"


section \<open>What a command leaves alone\<close>

text \<open>\<open>tame H a b\<close>: the lock, the salt and the counter of \<open>b\<close> are those of \<open>a\<close>, the invariant carries
  over, and only hashes of \<open>H\<close> are new in the table.\<close>

definition tame :: "u8 list set \<Rightarrow> ('w, 's, 'e, 'r, 'd, 'n) app \<Rightarrow> ('w, 's, 'e, 'r, 'd, 'n) app \<Rightarrow> bool" where
  "tame H a b \<longleftrightarrow> a_lock b = a_lock a \<and> a_salt b = a_salt a \<and> attempts_record b = attempts_record a \<and>
     a_boot_count b = a_boot_count a \<and>
     (app_inv a \<longrightarrow> app_inv b \<and> table_hashes (access b) \<subseteq> table_hashes (access a) \<union> H)"

lemma tame_refl [simp, intro]: "tame H a a"
  by (simp add: tame_def)

lemma tame_trans [trans]: "tame H a b \<Longrightarrow> tame H b c \<Longrightarrow> tame H a c"
  by (auto simp: tame_def)

lemma tame_access:
  assumes "ac_good (access a) \<Longrightarrow> ac_good ac"
    "ac_good (access a) \<Longrightarrow> table_hashes ac \<subseteq> table_hashes (access a) \<union> H" "judging ac = judging (access a)"
  shows "tame H a (set_access ac a)"
  using assms set_access_inv [of "a_gate a" ac]
  by (auto simp: tame_def app_inv_def gate_inv_def attempts_record_def judging_def)

lemma tame_fields [simp]:
  "tame H a (b\<lparr>a_persist := p\<rparr>) = tame H a b" "tame H a (b\<lparr>a_rtc := r\<rparr>) = tame H a b"
  "tame H a (b\<lparr>a_sync := c\<rparr>) = tame H a b" "tame H a (b\<lparr>a_border_until_ms := t\<rparr>) = tame H a b"
  by (simp_all add: tame_def app_inv_def attempts_record_def)

lemma tame_clock: "tame H a (gate_app_set_clock_trusted t a)"
proof -
  have "slots ((access a)\<lparr>ac_clock_trusted := t\<rparr>) = slots (access a)" by simp
  note s = ac_good_slots [OF this] table_hashes_slots [OF this]
  show ?thesis using s ui_set_clock_trusted_inv [of "g_ui (a_gate a)" t]
    by (auto simp: tame_def gate_app_set_clock_trusted_def app_inv_def gate_inv_def attempts_record_def)
qed

lemma tame_led: "tame H a (a\<lparr>a_led := status_led_force c t (a_led a)\<rparr>)"
  using led_step_inv [of "a_led a" "Led_force c t"] by (simp add: tame_def app_inv_def attempts_record_def)


section \<open>The table operations of the commands\<close>

lemma stored_id_text: "\<exists>xs. stored_id now = CHR ''t'' # xs @ [NUL] \<and> length xs = 7 \<and> NUL \<notin> set xs"
proof -
  have "NUL \<notin> set hex_chars" by (simp add: hex_chars_def)
  then have "hex_digit (k mod 16) \<noteq> NUL" for k
    using hex_digit_chars [of "k mod 16"] by auto
  then have "NUL \<notin> set (map (\<lambda>k. hex_digit (nat (now mod 2 ^ 28) div 16 ^ k mod 16)) (rev [0..<7]))"
    unfolding set_map by (metis (no_types, lifting) imageE)
  then show ?thesis unfolding stored_id_def by (intro exI conjI) (rule refl, simp_all)
qed

lemma stored_id_fits: "id_fits (stored_id now)" "length (stored_id now) = AC_ID_LEN"
proof -
  obtain xs where x: "stored_id now = CHR ''t'' # xs @ [NUL]" "length xs = 7" "NUL \<notin> set xs"
    using stored_id_text by blast
  have "cstr (stored_id now) = CHR ''t'' # xs" using x(3) by (simp add: x(1) cstr_append cstr_id)
  then show "id_fits (stored_id now)" using x(2) by (simp add: id_fits_def)
  show "length (stored_id now) = AC_ID_LEN" using x by simp
qed

lemma dev_id_fits: "id_fits (dev_id n)"
proof -
  obtain y where y: "dev_id n = CHR ''d'' # y @ [NUL]" "length y \<le> 7"
    by (simp add: dev_id_def Let_def numeral_eq_Suc)
  have "NUL \<in> set (dev_id n)" by (simp add: y)
  from length_cstr_less [OF this] y show ?thesis by (simp add: id_fits_def)
qed

text \<open>Zeroing one slot.\<close>

lemma zeroed_good:
  assumes "ac_good ctx"
  shows "ac_good (ctx\<lparr>slots := (slots ctx)[i := zero_slot]\<rparr>)"
proof (rule ac_good_shrink [OF assms])
  have inv: "ac_inv ctx" using assms by (simp add: ac_good_def)
  then have len: "length (slots ctx) = AC_MAX_SLOTS" by (simp add: ac_inv_def)
  have nth: "(slots ctx)[i := zero_slot] ! j = (if i = j then zero_slot else slots ctx ! j)" if "j < AC_MAX_SLOTS" for j
    using that len by (cases "i < AC_MAX_SLOTS") (simp_all add: nth_list_update)
  have "\<forall>x\<in>set ((slots ctx)[i := zero_slot]). slot_wf x"
    using inv set_update_subset_insert [of "slots ctx" i zero_slot] by (auto simp: ac_inv_def)
  moreover have "ids_unique ((slots ctx)[i := zero_slot])"
    using inv unfolding ids_unique_def ac_inv_def names_slot_def by (simp add: nth)
  ultimately show inv': "ac_inv (ctx\<lparr>slots := (slots ctx)[i := zero_slot]\<rparr>)" using len by (simp add: ac_inv_def)
  show "ac_table (ctx\<lparr>slots := (slots ctx)[i := zero_slot]\<rparr>) \<subseteq>\<^sub>m ac_table ctx"
    unfolding map_le_def
  proof
    fix c assume "c \<in> dom (ac_table (ctx\<lparr>slots := (slots ctx)[i := zero_slot]\<rparr>))"
    then obtain v where v: "ac_table (ctx\<lparr>slots := (slots ctx)[i := zero_slot]\<rparr>) c = Some v" by blast
    with inv inv' len have "ac_table ctx c = Some v"
      by (auto simp: ac_table_Some names_slot_def nth split: if_splits)
    with v show "ac_table (ctx\<lparr>slots := (slots ctx)[i := zero_slot]\<rparr>) c = ac_table ctx c" by simp
  qed
qed

lemma zeroed_hashes: "table_hashes (ctx\<lparr>slots := (slots ctx)[i := zero_slot]\<rparr>) \<subseteq> table_hashes ctx"
  using set_update_subset_insert [of "slots ctx" i zero_slot] by (fastforce simp: table_hashes_def)

lemma add_code_cases:
  assumes "add_code B now code secs persistent (a, n) = ((a', n'), r)"
  obtains (refused) reply where "a' = a" "n' = n" "r = Inl reply"
    | (added) ac slot cid where "a' = set_access ac a" "cid = (if persistent then stored_id now else dev_id n')"
      "ac_clock_trusted (access a)" "ac_format_valid (Some code)"
      "(if persistent then ac_upsert (access a) (Some cid) (Some (gate_app_hash B a code)) (now - 60) (now + secs)
        else ac_upsert_transient (access a) (Some cid) (Some (gate_app_hash B a code)) (now - 60) (now + secs)) = (ac, slot)"
      "r = (case slot of None \<Rightarrow> Inl Table_full | Some k \<Rightarrow> Inr (k, cid))"
proof (cases "ac_format_valid (Some code) \<and> ac_clock_trusted (access a)")
  case False
  then show thesis using assms refused by (auto simp: add_code_def split: if_splits)
next
  case True
  then have t: "ac_format_valid (Some code)" "ac_clock_trusted (access a)" by simp_all
  show thesis
  proof (cases persistent)
    case True
    obtain ac slot where u: "ac_upsert (access a) (Some (stored_id now)) (Some (gate_app_hash B a code)) (now - 60) (now + secs)
        = (ac, slot)" by fastforce
    show thesis
      using assms t True u by (intro added [of ac "stored_id now" slot]) (simp_all add: add_code_def Let_def)
  next
    case False
    obtain ac slot where u: "ac_upsert_transient (access a) (Some (dev_id (n + 1))) (Some (gate_app_hash B a code)) (now - 60)
        (now + secs) = (ac, slot)" by fastforce
    show thesis
      using assms t False u by (intro added [of ac "dev_id (n + 1)" slot]) (simp_all add: add_code_def Let_def)
  qed
qed

lemma add_code_tame:
  assumes "\<forall>m. length (sha256 B m) = AC_HASH_LEN" "add_code B now code secs persistent (a, n) = ((a', n'), r)"
  shows "tame (typed_code B a code) a a'"
  using assms(2)
proof (cases rule: add_code_cases)
  case (added ac slot cid)
  let ?h = "gate_app_hash B a code"
  have typed: "typed_code B a code = {?h}" using added(3,4) by (simp add: typed_code_def)
  have h: "length ?h = AC_HASH_LEN" using assms(1) by (simp add: gate_app_hash_def hash_code_length)
  have f: "id_fits cid" using added(2) stored_id_fits(1) dev_id_fits by simp
  have ac: "ac = fst (upsert (access a) (Some cid) (Some ?h) (now - 60) (now + secs) False) \<or>
      (\<exists>u. ac = fst (upsert (access a) (Some cid) (Some ?h) (now - 60) u True) \<and> u \<le> now - 60 + AC_TRANSIENT_MAX_S)"
  proof (cases persistent)
    case True
    then show ?thesis using added(5) by (simp add: ac_upsert_def)
  next
    case False
    define u where "u = (if now + secs > now - 60 + AC_TRANSIENT_MAX_S then now - 60 + AC_TRANSIENT_MAX_S else now + secs)"
    have "upsert (access a) (Some cid) (Some ?h) (now - 60) u True = (ac, slot)" "u \<le> now - 60 + AC_TRANSIENT_MAX_S"
      using added(5) False by (simp_all add: ac_upsert_transient_def Let_def u_def)
    then show ?thesis by (metis fst_conv)
  qed
  show ?thesis unfolding added(1) typed
  proof (rule tame_access)
    show "ac_good ac" if "ac_good (access a)"
      using ac ac_good_upsert [OF that f h, of False] ac_good_upsert [OF that f h, of True] by auto
    show "table_hashes ac \<subseteq> table_hashes (access a) \<union> {?h}" if "ac_good (access a)"
      using ac table_hashes_upsert [of "access a" cid ?h] h by fastforce
    show "judging ac = judging (access a)" using ac upsert_judging by metis
  qed
qed simp

lemma erase_slot_tame: "tame H a (fst (erase_slot B force i (a, c, w, f)))"
proof -
  have "tame H a (set_access ((access a)\<lparr>slots := (slots (access a))[i := zero_slot]\<rparr>) a)"
    using zeroed_good [of "access a" i] zeroed_hashes [of "access a" i] by (intro tame_access) auto
  then show ?thesis by (simp add: erase_slot_def split_def Let_def)
qed

lemma erase_loop_tame: "tame H a (fst (fold (erase_slot B force) is (a, c)))"
proof (induction "is" arbitrary: a c)
  case (Cons i "is")
  obtain c1 w f where c: "c = (c1, w, f)" by (rule prod_cases3)
  obtain a1 c' where e: "erase_slot B force i (a, c) = (a1, c')" by (rule prod.exhaust)
  have "tame H a a1" using erase_slot_tame [of H a B force i c1 w f] e c by simp
  from tame_trans [OF this Cons.IH [of a1 c']] show ?case by (simp add: e)
qed simp

section \<open>The commands\<close>

lemma tame_mono: "tame H a b \<Longrightarrow> H \<subseteq> K \<Longrightarrow> tame K a b"
  by (auto simp: tame_def)

lemma time_tame: "tame H a (fst (fst (cmd_time B e argv (a, n))))"
proof -
  have "tame H a (gate_app_set_clock_trusted True (a\<lparr>a_rtc := r\<rparr>))" for r
    using tame_trans [OF _ tame_clock, of H a "a\<lparr>a_rtc := r\<rparr>"] by simp
  then show ?thesis by (simp add: cmd_time_def split_def Let_def)
qed

lemma code_add_tame:
  assumes "\<forall>m. length (sha256 B m) = AC_HASH_LEN"
  shows "tame (typed_code B a (argv ! 2)) a (fst (fst (code_add B e argv (a, n))))"
proof -
  obtain a' n' r where r: "add_code B (con_now e) (argv ! 2) (add_minutes argv * 60) False (a, n) = ((a', n'), r)"
    by (metis prod.collapse)
  with add_code_tame [OF assms r] show ?thesis by (cases r) (auto simp: code_add_def)
qed

lemma code_persist_tame:
  assumes "\<forall>m. length (sha256 B m) = AC_HASH_LEN"
  shows "tame (typed_code B a (argv ! 2)) a (fst (fst (code_persist B e argv (a, n))))"
proof -
  obtain a' n' r where r: "add_code B (con_now e) (argv ! 2) (persist_hours argv * 3600) True (a, n) = ((a', n'), r)"
    by (metis prod.collapse)
  with add_code_tame [OF assms r] show ?thesis by (cases r) (auto simp: code_persist_def split_def Let_def)
qed

lemma code_del_tame: "tame H a (fst (fst (code_del B argv (a, n))))"
proof -
  have "tame H a (set_access (fst (ac_revoke (access a) (Some cid))) a)" for cid
  proof (rule tame_access)
    show "ac_good (fst (ac_revoke (access a) (Some cid)))" if "ac_good (access a)"
      using ac_step_good [OF that, of "Revoke cid"] by simp
    show "table_hashes (fst (ac_revoke (access a) (Some cid))) \<subseteq> table_hashes (access a) \<union> H" if "ac_good (access a)"
      using table_hashes_revoke by blast
  qed simp
  then show ?thesis by (simp add: code_del_def split_def Let_def split: option.split)
qed

lemma code_raw_tame: "tame H a (fst (fst (code_raw B argv (a, n))))"
  by (simp add: code_raw_def Let_def split: prod.split sum.split)

lemma code_erase_tame: "tame H a (fst (fst (code_erase B argv (a, n))))"
proof -
  have "tame H a (fst (fold (erase_slot B force) [0..<AC_MAX_SLOTS] (a, 0, 0, 0)))" for force
    by (rule erase_loop_tame)
  then show ?thesis unfolding code_erase_def Let_def by (simp add: split_def del: upt.simps upt_rec_numeral)
qed

lemma revoke_dev_tame: "tame H a (fst (fst (revoke_dev (a, n))))"
proof -
  have "tame H a (set_access (fst (ac_revoke_transient (access a))) a)"
  proof (rule tame_access)
    show "ac_good (fst (ac_revoke_transient (access a)))" if "ac_good (access a)"
      using ac_step_good [OF that, of Revoke_transient] by simp
    show "table_hashes (fst (ac_revoke_transient (access a))) \<subseteq> table_hashes (access a) \<union> H" if "ac_good (access a)"
      using table_hashes_clear by (metis ac_revoke_transient_def le_supI1)
  qed simp
  then show ?thesis by (simp add: revoke_dev_def split_def Let_def)
qed

lemma sync_tame:
  assumes "hmac_sized (hmac_sha256 B)"
  shows "tame (sync_brings (hmac_sha256 B) (con_http e) (a_sync a)) a (fst (fst (cmd_sync B e argv (a, n))))"
proof -
  let ?t = "fst (snd (do_sync (hmac_sha256 B) (num_ops B) (con_http e) (a_sync a) (access a) (con_ms e)))"
  have "tame (sync_brings (hmac_sha256 B) (con_http e) (a_sync a)) a (set_access ?t a)"
    using do_sync_table [OF assms, of "access a"] do_sync_judging by (intro tame_access) blast+
  then have "tame (sync_brings (hmac_sha256 B) (con_http e) (a_sync a)) a ((set_access ?t a)\<lparr>a_sync := c\<rparr>)" for c by simp
  moreover have "(set_access ?t a)\<lparr>a_sync := c\<rparr> = set_access ?t (a\<lparr>a_sync := c\<rparr>)" for c by simp
  ultimately have "tame (sync_brings (hmac_sha256 B) (con_http e) (a_sync a)) a (set_access ?t (a\<lparr>a_sync := c\<rparr>))" for c
    by (simp only:)
  then show ?thesis by (simp add: cmd_sync_def sync_client_poll_now_def split_def Let_def)
qed

text \<open>Every command is tame.\<close>

lemma code_tame:
  assumes "\<forall>m. length (sha256 B m) = AC_HASH_LEN"
  shows "tame (if length argv \<ge> 3 \<and> arg argv 1 \<in> {''add'', ''persist''} then typed_code B a (argv ! 2) else {}) a
    (fst (fst (cmd_code B e argv (a, n))))"
  using code_add_tame [of B, OF assms] code_persist_tame [of B, OF assms]
  by (simp add: cmd_code_def code_list_def code_del_tame code_raw_tame code_erase_tame revoke_dev_tame Let_def)

lemma sync_cmd_tame:
  assumes "hmac_sized (hmac_sha256 B)"
  shows "tame (if length argv = 2 \<and> arg argv 1 = ''now'' then sync_brings (hmac_sha256 B) (con_http e) (a_sync a) else {}) a
    (fst (fst (cmd_sync B e argv (a, n))))"
proof (cases "length argv = 2 \<and> arg argv 1 = ''now''")
  case True
  then show ?thesis using sync_tame [OF assms, of e a argv n] by (simp only: if_P)
next
  case False
  then have "fst (fst (cmd_sync B e argv (a, n))) = a" by (auto simp: cmd_sync_def)
  then show ?thesis by (simp only: tame_refl)
qed

lemma console_tame:
  assumes "hmac_sized (hmac_sha256 B)" "\<forall>m. length (sha256 B m) = AC_HASH_LEN"
  shows "tame (typed_in B e argv a) a (fst (fst (console_run B e argv (a, n))))"
proof (cases "\<exists>name ws c. argv = name # ws \<and> map_of commands (cstr name) = Some c")
  case False
  then have "fst (fst (console_run B e argv (a, n))) = a" by (auto simp: console_run_def split: list.split option.split)
  then show ?thesis by simp
next
  case True
  then obtain name ws c where c: "argv = name # ws" "map_of commands (cstr name) = Some c" by blast
  then have run: "console_run B e argv (a, n) = run_command B e c argv (a, n)" by (simp add: console_run_def)
  have ne: "argv \<noteq> []" using c(1) by simp
  show ?thesis unfolding run
  proof (cases c)
    case Code_cmd
    then have "arg argv 0 = ''code''" using c by (auto simp: commands_def arg_def split: if_splits)
    then have "typed_in B e argv a = (if length argv \<ge> 3 \<and> arg argv 1 \<in> {''add'', ''persist''} then typed_code B a (argv ! 2) else {})"
      using ne by (auto simp: typed_in_def)
    then show "tame (typed_in B e argv a) a (fst (fst (run_command B e c argv (a, n))))"
      using code_tame [OF assms(2), of argv a e n] by (simp only: Code_cmd run_command.simps)
  next
    case Sync_cmd
    then have "arg argv 0 = ''sync''" using c by (auto simp: commands_def arg_def split: if_splits)
    then have "typed_in B e argv a =
        (if length argv = 2 \<and> arg argv 1 = ''now'' then sync_brings (hmac_sha256 B) (con_http e) (a_sync a) else {})"
      using ne by (simp add: typed_in_def)
    then show "tame (typed_in B e argv a) a (fst (fst (run_command B e c argv (a, n))))"
      using sync_cmd_tame [OF assms(1), of argv e a n] by (simp only: Sync_cmd run_command.simps)
  next
    case Led_cmd
    then show "tame (typed_in B e argv a) a (fst (fst (run_command B e c argv (a, n))))"
      by (simp add: cmd_led_def tame_led split: option.split)
  qed (simp_all add: time_tame revoke_dev_tame cmd_dev_def cmd_status_def cmd_oled_def gate_app_show_border_def cmd_i2c_def
      cmd_tg_def Let_def)
qed

text \<open>The runs of a development build.\<close>

lemma bench_step_inv:
  assumes "hmac_sized (hmac_sha256 B)" "\<forall>m. length (sha256 B m) = AC_HASH_LEN" "app_inv (fst s)"
  shows "app_inv (fst (bench_step B s ev))"
    "table_hashes (access (fst (bench_step B s ev))) \<subseteq> table_hashes (access (fst s)) \<union> bench_brought B s ev"
proof -
  obtain a n where s: "s = (a, n)" by (cases s)
  have "app_inv (fst (bench_step B s ev)) \<and>
      table_hashes (access (fst (bench_step B s ev))) \<subseteq> table_hashes (access (fst s)) \<union> bench_brought B s ev"
  proof (cases ev)
    case (System sev)
    then show ?thesis using assms(3) sys_step_inv [OF assms(1)] sys_step_table(1) [OF assms(1)] by (simp add: s)
  next
    case (Command e argv)
    then show ?thesis using assms(3) console_tame [OF assms(1,2), of e argv a n] by (simp add: s tame_def)
  qed
  then show "app_inv (fst (bench_step B s ev))"
    "table_hashes (access (fst (bench_step B s ev))) \<subseteq> table_hashes (access (fst s)) \<union> bench_brought B s ev" by simp_all
qed

lemma bench_machine:
  "hmac_sized (hmac_sha256 B) \<Longrightarrow> \<forall>m. length (sha256 B m) = AC_HASH_LEN \<Longrightarrow>
     machine (bench_step B) (\<lambda>s. app_inv (fst s)) (\<lambda>_. True)"
  by unfold_locales (rule bench_step_inv(1))

lemma bench_reach_table:
  assumes "hmac_sized (hmac_sha256 B)" "\<forall>m. length (sha256 B m) = AC_HASH_LEN" "app_inv (fst s0)" "bench_reach B s0 H s"
  shows "app_inv (fst s)" "table_hashes (access (fst s)) \<subseteq> table_hashes (access (fst s0)) \<union> H"
proof -
  have "app_inv (fst s) \<and> table_hashes (access (fst s)) \<subseteq> table_hashes (access (fst s0)) \<union> H"
    using assms(4)
  proof (induction rule: bench_reach.induct)
    case (bench_more H s ev)
    then show ?case using bench_step_inv [OF assms(1,2), of s ev] by blast
  qed (simp add: assms(3))
  then show "app_inv (fst s)" "table_hashes (access (fst s)) \<subseteq> table_hashes (access (fst s0)) \<union> H" by simp_all
qed


section \<open>Properties\<close>

text \<open>C8: on a development build too the door opens only for a code that came from somewhere.  With
  the commands of the console among the steps, only a turn of the main loop energises the coil: no
  command does; and the code typed at the keypad then hashes to a table entry with an open window
  whose hash was there at the start, is said by a delivery signed under the delivery key, or is that
  of a well-formed code given to \<open>code add\<close> or \<open>code persist\<close> while the clock was trusted.\<close>

theorem console_opens_nothing:
  assumes "hmac_sized (hmac_sha256 B)" "\<forall>m. length (sha256 B m) = AC_HASH_LEN" "app_inv (fst s0)" "bench_reach B s0 H (a, n)"
    "\<not> energised (a_lock a)" "energised (a_lock (fst (bench_step B (a, n) ev)))"
    "\<forall>e. ev = System (Main_loop e) \<longrightarrow> 0 \<le> epoch (t_now e)"
  shows "\<exists>e q k g g' out code cid f u tr. ev = System (Main_loop e) \<and> kp_queue (a_keypad a) = Some q \<and> KP_EV_PRESS k \<in> set q \<and>
    (g, Key k (t_now e), g', out) \<in> set (turn_trace B e a) \<and> code = cstr ((stored g AC_CODE_LEN k)[AC_CODE_LEN := NUL]) \<and>
    ac_table (access a) cid = Some (hash_code (sha256 B) (a_salt a) code, f, u, tr) \<and>
    f \<le> epoch (t_now e) \<and> epoch (t_now e) \<le> u \<and> hash_code (sha256 B) (a_salt a) code \<in> table_hashes (access (fst s0)) \<union> H"
proof -
  have inv: "app_inv a" using bench_reach_table(1) [OF assms(1-4)] by simp
  have table: "table_hashes (access a) \<subseteq> table_hashes (access (fst s0)) \<union> H" using bench_reach_table(2) [OF assms(1-4)] by simp
  obtain sev where sev: "ev = System sev"
  proof (cases ev)
    case (Command e argv)
    then show ?thesis using assms(5,6) console_tame [OF assms(1,2), of e argv a n] by (simp add: tame_def)
  qed
  with assms(6) have en: "energised (a_lock (sys_step B a sev))" by simp
  obtain e where e: "sev = Main_loop e" using energised_by_order [OF inv assms(5) en] by metis
  have "energised (a_lock (sys_step B a (Main_loop e)))" "0 \<le> epoch (t_now e)" using en assms(7) by (simp_all add: e sev)
  from opening_spec [OF assms(2) inv assms(5) this] table e sev show ?thesis by blast
qed

text \<open>The console has been asked for the state of the courier before the turn.\<close>

abbreviation quiet_con :: con_env where
  "quiet_con \<equiv> \<lparr>con_now = 150, con_ms = 5, con_http = demo_http, con_probe = (\<lambda>_. False)\<rparr>"

theorem console_opens_nothing_witness:
  "\<exists>code cid f u tr. ac_table (g_ac eight_keys) cid = Some (hash_code demo_sha [] code, f, u, tr) \<and> f \<le> 150 \<and> 150 \<le> u"
proof -
  have inv: "app_inv (fst (ninth_key, 0 :: u32))" using eight_keys_inv by (simp add: demo_app_inv)
  have "bench_step demo_board (ninth_key, 0 :: u32) (Command quiet_con [''tg'']) = (ninth_key, 0)"
    by (simp add: console_run_def commands_def cmd_tg_def Let_def)
  with bench_more [OF bench_start, of demo_board "(ninth_key, 0)" "Command quiet_con [''tg'']"]
  obtain H where r: "bench_reach demo_board (ninth_key, 0) H (ninth_key, 0)" by metis
  have off: "\<not> energised (a_lock ninth_key)" by (simp add: energised_def)
  have on: "energised (a_lock (fst (bench_step demo_board (ninth_key, 0 :: u32) (System (Main_loop demo_turn)))))"
    using demo_turn_opens by simp
  have t: "\<forall>e. System (Main_loop demo_turn) = System (Main_loop e) \<longrightarrow> 0 \<le> epoch (t_now e)" by (simp add: demo_turn_def)
  from console_opens_nothing [OF demo_sized inv r off on t] obtain e code cid f u tr where
    w: "System (Main_loop demo_turn) = System (Main_loop e)" "f \<le> epoch (t_now e)" "epoch (t_now e) \<le> u"
      "ac_table (access ninth_key) cid = Some (hash_code (sha256 demo_board) (a_salt ninth_key) code, f, u, tr)"
    by blast
  have "epoch (t_now e) = 150" using w(1) by (auto simp: demo_turn_def)
  then have "f \<le> 150" "150 \<le> u" using w(2,3) by simp_all
  moreover have "ac_table (g_ac eight_keys) cid = Some (hash_code demo_sha [] code, f, u, tr)" using w(4) by simp
  ultimately show ?thesis by blast
qed

end
