(* ===== verification/Console_Chip.thy ===== *)
theory Console_Chip
  imports System_Bench
begin

text \<open>
  What the console writes to the chip, and what a boot then finds.  The commands that write are
  \<open>code persist\<close>, \<open>code del\<close> and \<open>code erase\<close>; each goes through \<open>persist_codes_save\<close>, which leaves
  the ring of the attempt counter alone.
\<close>

section \<open>Saving on an idle chip\<close>

text \<open>
  What one save does to the store: \<open>touches\<close> says that only the code region may differ, and that
  a chip that was idle is idle again.
\<close>

definition touches :: "('e \<Rightarrow> u8 list) \<Rightarrow> ('e \<Rightarrow> nat) \<Rightarrow> 'e persist \<Rightarrow> 'e persist \<Rightarrow> bool" where
  "touches mem busy p q \<longleftrightarrow> (ready busy p \<longrightarrow> ready busy q) \<and> pcur q = pcur p \<and> ring_of (mem (bus q)) = ring_of (mem (bus p))"

lemma touches_refl [simp, intro]: "touches mem busy p p"
  by (simp add: touches_def)

lemma touches_trans [trans]: "touches mem busy p q \<Longrightarrow> touches mem busy q r \<Longrightarrow> touches mem busy p r"
  by (simp add: touches_def)

lemma kept_touches:
  "kept mem busy a \<Longrightarrow> touches mem busy (a_persist a) (a_persist b) \<Longrightarrow> attempts_record b = attempts_record a \<Longrightarrow> kept mem busy b"
  by (simp add: kept_def touches_def)

text \<open>\<open>holds_slot mem p k s\<close>: the record of slot \<open>k\<close> that a boot would take is that of \<open>s\<close>.\<close>

definition holds_slot :: "('e \<Rightarrow> u8 list) \<Rightarrow> 'e persist \<Rightarrow> nat \<Rightarrow> ac_slot \<Rightarrow> bool" where
  "holds_slot mem p k s \<longleftrightarrow> (\<exists>gen. pc_slot_read (code_region (mem (bus p)) k) = Some (code_of_slot s, gen))"

lemma codes_save_chip:
  assumes "eeprom_bus i mem" "write_cycles i busy" "ready busy p" "ac_inv ctx" "k < PC_SLOTS"
    "persist_codes_save i p ctx (int k) = (q, err)"
  shows "err = ESP_OK" "ready busy q" "touches mem busy p q"
    "j < PC_SLOTS \<Longrightarrow> j \<noteq> k \<Longrightarrow> code_region (mem (bus q)) j = code_region (mem (bus p)) j"
    "\<not> (occupied (slots ctx ! k) \<and> transient (slots ctx ! k)) \<Longrightarrow> holds_slot mem q k (slots ctx ! k)"
proof -
  show e: "err = ESP_OK" and q: "ready busy q" using codes_save_ready [OF assms(2,3,5), of ctx] assms(6) by simp_all
  have "touches mem busy p q \<and> (j < PC_SLOTS \<longrightarrow> j \<noteq> k \<longrightarrow> code_region (mem (bus q)) j = code_region (mem (bus p)) j) \<and>
    (\<not> (occupied (slots ctx ! k) \<and> transient (slots ctx ! k)) \<longrightarrow> holds_slot mem q k (slots ctx ! k))"
  proof (cases "occupied (slots ctx ! k) \<and> transient (slots ctx ! k)")
    case True
    then have "q = p" using assms(5,6) by (simp add: persist_codes_save_def)
    then show ?thesis using True assms(3) by simp
  next
    case False
    have "dev_added p" using assms(3) by (simp add: ready_def)
    note s = save_code [OF assms(1) this assms(4,5) False assms(6) [unfolded e]]
    show ?thesis using s(1) s(2) [of j] s(3,5) q by (simp add: touches_def holds_slot_def)
  qed
  then show "touches mem busy p q"
    "j < PC_SLOTS \<Longrightarrow> j \<noteq> k \<Longrightarrow> code_region (mem (bus q)) j = code_region (mem (bus p)) j"
    "\<not> (occupied (slots ctx ! k) \<and> transient (slots ctx ! k)) \<Longrightarrow> holds_slot mem q k (slots ctx ! k)" by simp_all
qed

lemma zero_slot_times [simp]: "slot_from zero_slot = 0" "slot_until zero_slot = 0"
  by (simp_all add: zero_slot_def)

text \<open>What is on the chip is what a boot after any run restores.\<close>

lemma held_comes_back:
  assumes "hmac_sized (hmac_sha256 B)" "eeprom_bus (eeprom_i2c B) mem" "write_cycles (eeprom_i2c B) busy" "kept mem busy a"
    "seq_of a + run_saves B a evs < 2 ^ 32 - 1" "a_persist b = persist_statics (bus (a_persist (foldl (sys_step B) a evs)))"
    "length (slots (access b)) = AC_MAX_SLOTS" "k < PC_SLOTS" "holds_slot mem (a_persist a) k s"
    "slot_wf s" "\<not> (occupied s \<and> transient s)" "0 \<le> slot_from s" "slot_from s < 2 ^ 32" "0 \<le> slot_until s" "slot_until s < 2 ^ 32"
  shows "slots (access (boot_persist B True b)) ! k = (if occupied s then s else slots (access b) ! k)"
proof -
  obtain gen where g: "pc_slot_read (code_region (mem (bus (a_persist a))) k) = Some (code_of_slot s, gen)"
    using assms(9) unfolding holds_slot_def by blast
  show ?thesis
    unfolding run_then_boot [OF assms(1-8)] by (rule loaded_saved [OF assms(10-15) g])
qed


section \<open>The commands that write\<close>

lemma upsert_slot:
  assumes "ac_inv ctx" "upsert ctx (Some cid) (Some h) f u tr = (ac, Some k)"
  shows "k < AC_MAX_SLOTS" "slots ac ! k = \<lparr>occupied = True, transient = tr,
    slot_id = strncpy_bytes (AC_ID_LEN - 1) cid @ [NUL], slot_hash = take AC_HASH_LEN h, slot_from = f, slot_until = u\<rparr>"
proof -
  have len: "length (slots ctx) = AC_MAX_SLOTS" using assms(1) by (simp add: ac_inv_def)
  have k: "find_by_id ctx cid = Some k \<or> first_index (\<lambda>s. \<not> occupied s) (slots ctx) = Some k"
    using assms(2) by (auto simp: upsert_def Let_def split: if_splits option.splits)
  then show "k < AC_MAX_SLOTS" using find_by_id_SomeD(1) [OF assms(1)] first_index_SomeD [of _ "slots ctx"] len by metis
  with assms(2) len show "slots ac ! k = \<lparr>occupied = True, transient = tr,
    slot_id = strncpy_bytes (AC_ID_LEN - 1) cid @ [NUL], slot_hash = take AC_HASH_LEN h, slot_from = f, slot_until = u\<rparr>"
    by (auto simp: upsert_def Let_def split: if_splits option.splits)
qed

lemma stored_id_copied: "strncpy_bytes (AC_ID_LEN - 1) (stored_id now) @ [NUL] = stored_id now"
proof -
  obtain xs where x: "stored_id now = CHR ''t'' # xs @ [NUL]" "length xs = 7" "NUL \<notin> set xs"
    using stored_id_text by blast
  have "cstr (stored_id now) = CHR ''t'' # xs" using x(3) by (simp add: x(1) cstr_append cstr_id)
  then show ?thesis using x(2) by (simp add: strncpy_bytes_def x(1))
qed

definition stored_slot :: "i64 \<Rightarrow> u8 list \<Rightarrow> int \<Rightarrow> ac_slot" where
  "stored_slot now h hours = \<lparr>occupied = True, transient = False, slot_id = stored_id now, slot_hash = h,
     slot_from = now - 60, slot_until = now + hours * 3600\<rparr>"

lemma code_persist_writes:
  assumes "\<forall>m. length (sha256 B m) = AC_HASH_LEN" "eeprom_bus (eeprom_i2c B) mem" "write_cycles (eeprom_i2c B) busy"
    "app_inv a" "kept mem busy a" "code_persist B e argv (a, n) = ((a1, n1), Stored cid hours k, 0)"
  shows "kept mem busy a1" "seq_of a1 = seq_of a" "k < AC_MAX_SLOTS" "cid = cstr (stored_id (con_now e))" "hours = persist_hours argv"
    "slots (access a1) ! k = stored_slot (con_now e) (gate_app_hash B a (argv ! 2)) hours"
    "holds_slot mem (a_persist a1) k (slots (access a1) ! k)" "slot_wf (slots (access a1) ! k)"
proof -
  let ?h = "gate_app_hash B a (argv ! 2)" and ?now = "con_now e"
  obtain a' n' r where ad: "add_code B ?now (argv ! 2) (persist_hours argv * 3600) True (a, n) = ((a', n'), r)"
    by (metis prod.collapse)
  obtain c where r: "r = Inr (k, c)"
    using assms(6) ad by (cases r) (auto simp: code_persist_def split_def Let_def split: if_splits)
  obtain p err where p: "persist_codes_save (eeprom_i2c B) (a_persist a') (access a') (int k) = (p, err)" by fastforce
  have a1: "a1 = a'\<lparr>a_persist := p\<rparr>" "cid = cstr c" "hours = persist_hours argv"
    using assms(6) ad r p by (auto simp: code_persist_def split_def Let_def split: if_splits)
  have tame: "tame (typed_code B a (argv ! 2)) a a'" using add_code_tame [OF assms(1) ad] .
  from ad obtain ac where ac: "a' = set_access ac a" "c = stored_id ?now"
    "upsert (access a) (Some c) (Some ?h) (?now - 60) (?now + persist_hours argv * 3600) False = (ac, Some k)"
    by (cases rule: add_code_cases) (auto simp: r ac_upsert_def split: option.splits)
  have inv: "ac_inv (access a)" "ac_inv (access a')" using assms(4) tame by (auto simp: tame_def app_inv_def gate_inv_def ac_good_def)
  have h: "take AC_HASH_LEN ?h = ?h" using assms(1) by (simp add: gate_app_hash_def hash_code_length)
  note u = upsert_slot [OF inv(1) ac(3)]
  show k: "k < AC_MAX_SLOTS" by (rule u(1))
  show "cid = cstr (stored_id ?now)" "hours = persist_hours argv" using a1(2,3) ac(2) by simp_all
  have sl: "slots (access a') ! k = stored_slot ?now ?h (persist_hours argv)"
    using u(2) ac(1) by (simp add: stored_slot_def ac(2) stored_id_copied [simplified] h)
  then show "slots (access a1) ! k = stored_slot ?now ?h hours" by (simp add: a1)
  have d: "ready busy (a_persist a')" "a_persist a' = a_persist a" using assms(5) ac(1) by (simp_all add: kept_def)
  note s = codes_save_chip [OF assms(2,3) d(1) inv(2) k p]
  show "holds_slot mem (a_persist a1) k (slots (access a1) ! k)"
    using s(5) sl by (simp add: a1 stored_slot_def)
  show "slot_wf (slots (access a1) ! k)" using ac_inv_slot_wf [OF inv(2) k] by (simp add: a1)
  show "kept mem busy a1"
    by (rule kept_touches [OF assms(5)]) (use s(3) d(2) tame in \<open>simp_all add: a1 tame_def attempts_record_def\<close>)
  show "seq_of a1 = seq_of a" using s(3) d(2) by (simp add: a1 touches_def)
qed

text \<open>\<open>code del\<close> of a stored code.\<close>

lemma code_del_writes:
  assumes "eeprom_bus (eeprom_i2c B) mem" "write_cycles (eeprom_i2c B) busy" "app_inv a" "kept mem busy a"
    "code_del B argv (a, n) = ((a1, n1), Removed cid True, 0)"
  shows "\<exists>k<AC_MAX_SLOTS. occupied (slots (access a) ! k) \<and> cstr (slot_id (slots (access a) ! k)) = cstr (argv ! 2) \<and>
    kept mem busy a1 \<and> seq_of a1 = seq_of a \<and> slots (access a1) ! k = zero_slot \<and> holds_slot mem (a_persist a1) k zero_slot"
proof -
  have inv: "ac_inv (access a)" "ac_good (access a)" using assms(3) by (simp_all add: app_inv_def gate_inv_def ac_good_def)
  obtain k where k: "find_by_id (access a) (argv ! 2) = Some k" "\<not> transient (slots (access a) ! k)"
    using assms(5) by (auto simp: code_del_def split_def Let_def split: option.splits if_splits)
  note f = find_by_id_SomeD [OF inv(1) k(1)]
  let ?ac = "(access a)\<lparr>slots := (slots (access a))[k := zero_slot]\<rparr>"
  obtain p err where p: "persist_codes_save (eeprom_i2c B) (a_persist a) ?ac (int k) = (p, err)" by fastforce
  have "fst (ac_revoke (access a) (Some (argv ! 2))) = ?ac" using k(1) by (simp add: ac_revoke_def)
  then have a1: "a1 = (set_access ?ac a)\<lparr>a_persist := p\<rparr>"
    using assms(5) k p by (auto simp: code_del_def split_def Let_def split: if_splits)
  have ac: "ac_inv ?ac" using zeroed_good [OF inv(2)] by (simp add: ac_good_def)
  have len: "length (slots (access a)) = AC_MAX_SLOTS" using inv(1) by (simp add: ac_inv_def)
  have d: "ready busy (a_persist a)" using assms(4) by (simp add: kept_def)
  note s = codes_save_chip [OF assms(1,2) d ac f(1) p]
  have "slots ?ac ! k = zero_slot" using f(1) len by simp
  with s(5) have "holds_slot mem (a_persist a1) k zero_slot" by (simp add: a1)
  moreover have "kept mem busy a1" by (rule kept_touches [OF assms(4)]) (use s(3) in \<open>simp_all add: a1 attempts_record_def\<close>)
  moreover have "seq_of a1 = seq_of a" using s(3) by (simp add: a1 touches_def)
  moreover have "slots (access a1) ! k = zero_slot" using f(1) len by (simp add: a1)
  ultimately show ?thesis using f by blast
qed

text \<open>\<open>code erase\<close>: a slot is spared when it holds a guest's stored code and \<open>all\<close> was not said.\<close>

definition spared :: "bool \<Rightarrow> ac_slot \<Rightarrow> bool" where
  "spared force s \<longleftrightarrow> occupied s \<and> \<not> transient s \<and> \<not> ac_id_is_dev (Some (slot_id s)) \<and> \<not> force"

lemma erase_slot_chip:
  assumes "eeprom_bus (eeprom_i2c B) mem" "write_cycles (eeprom_i2c B) busy" "ready busy (a_persist a)" "ac_good (access a)" "k < AC_MAX_SLOTS"
    "erase_slot B force k (a, c, w, f) = (a', c', w', f')"
  shows "f' = f \<and> touches mem busy (a_persist a) (a_persist a') \<and> ac_good (access a') \<and>
    slots (access a') = (if spared force (slots (access a) ! k) then slots (access a) else (slots (access a))[k := zero_slot]) \<and>
    (\<forall>j<PC_SLOTS. j \<noteq> k \<or> spared force (slots (access a) ! k) \<longrightarrow>
       code_region (mem (bus (a_persist a'))) j = code_region (mem (bus (a_persist a))) j) \<and>
    (\<not> spared force (slots (access a) ! k) \<longrightarrow> holds_slot mem (a_persist a') k zero_slot)"
proof (cases "spared force (slots (access a) ! k)")
  case True
  then have "a' = a \<and> f' = f" using assms(6) by (auto simp: erase_slot_def spared_def Let_def)
  then show ?thesis using True assms(4) by simp
next
  case False
  let ?ac = "(access a)\<lparr>slots := (slots (access a))[k := zero_slot]\<rparr>"
  have ac: "ac_good ?ac" "ac_inv ?ac" using zeroed_good [OF assms(4)] by (simp_all add: ac_good_def)
  have len: "length (slots (access a)) = AC_MAX_SLOTS" using assms(4) by (simp add: ac_good_def ac_inv_def)
  obtain p err where p: "persist_codes_save (eeprom_i2c B) (a_persist a) ?ac (int k) = (p, err)" by fastforce
  note s1 = codes_save_chip [OF assms(1-3) ac(2) assms(5) p]
  obtain q err' where q: "persist_codes_save (eeprom_i2c B) p ?ac (int k) = (q, err')" by fastforce
  note s2 = codes_save_chip [OF assms(1,2) s1(2) ac(2) assms(5) q]
  have a': "a' = (set_access ?ac a)\<lparr>a_persist := q\<rparr>" "f' = f"
    using assms(6) False p q s1(1) s2(1) by (simp_all add: erase_slot_def spared_def Let_def) auto
  have "slots ?ac ! k = zero_slot" using len assms(5) by simp
  then show ?thesis
    using False s2(5) s1(4) s2(4) touches_trans [OF s1(3) s2(3)] ac(1) by (simp add: a')
qed

definition wiped_slot :: "('e \<Rightarrow> u8 list) \<Rightarrow> bool \<Rightarrow> nat list \<Rightarrow> nat \<Rightarrow> ('w, 's, 'e, 'r, 'd, 'n) app \<Rightarrow> ('w, 's, 'e, 'r, 'd, 'n) app \<Rightarrow> bool" where
  "wiped_slot mem force ks j a a' \<longleftrightarrow>
     (if j \<in> set ks \<and> \<not> spared force (slots (access a) ! j)
      then slots (access a') ! j = zero_slot \<and> holds_slot mem (a_persist a') j zero_slot
      else slots (access a') ! j = slots (access a) ! j \<and>
        code_region (mem (bus (a_persist a'))) j = code_region (mem (bus (a_persist a))) j)"

lemma erase_loop_chip:
  assumes "eeprom_bus (eeprom_i2c B) mem" "write_cycles (eeprom_i2c B) busy"
  shows "ready busy (a_persist a) \<Longrightarrow> ac_good (access a) \<Longrightarrow> distinct ks \<Longrightarrow> set ks \<subseteq> {..<AC_MAX_SLOTS} \<Longrightarrow>
    fold (erase_slot B force) ks (a, c, w, f) = (a', c', w', f') \<Longrightarrow>
    f' = f \<and> touches mem busy (a_persist a) (a_persist a') \<and> (\<forall>j<AC_MAX_SLOTS. wiped_slot mem force ks j a a')"
proof (induction ks arbitrary: a c w f)
  case Nil
  then show ?case by (simp add: wiped_slot_def)
next
  case (Cons k ks)
  obtain a1 c1 w1 f1 where e: "erase_slot B force k (a, c, w, f) = (a1, c1, w1, f1)" by (rule prod_cases4)
  have k: "k < AC_MAX_SLOTS" "k \<notin> set ks" using Cons.prems(3,4) by simp_all
  have len: "length (slots (access a)) = AC_MAX_SLOTS" using Cons.prems(2) by (simp add: ac_good_def ac_inv_def)
  note s = erase_slot_chip [OF assms Cons.prems(1,2) k(1) e]
  have st: "f1 = f" "touches mem busy (a_persist a) (a_persist a1)" "ac_good (access a1)" "ready busy (a_persist a1)"
    using s Cons.prems(1) by (auto simp: touches_def)
  have "fold (erase_slot B force) ks (a1, c1, w1, f1) = (a', c', w', f')" using Cons.prems(5) e by simp
  from Cons.IH [OF st(4,3) _ _ this] Cons.prems(3,4)
  have ih: "f' = f1" "touches mem busy (a_persist a1) (a_persist a')" "\<forall>j<AC_MAX_SLOTS. wiped_slot mem force ks j a1 a'" by simp_all
  have "wiped_slot mem force (k # ks) j a a'" if j: "j < AC_MAX_SLOTS" for j
  proof (cases "j = k")
    case True
    have "wiped_slot mem force ks k a1 a'" using ih(3) k(1) by blast
    then show ?thesis using s k len True by (auto simp: wiped_slot_def holds_slot_def split: if_splits)
  next
    case False
    have "slots (access a1) ! j = slots (access a) ! j"
      "code_region (mem (bus (a_persist a1))) j = code_region (mem (bus (a_persist a))) j"
      using s False j by (simp_all split: if_splits)
    moreover have "wiped_slot mem force ks j a1 a'" using ih(3) j by blast
    ultimately show ?thesis using False by (simp add: wiped_slot_def)
  qed
  then show ?case using ih(1) st(1) touches_trans [OF st(2) ih(2)] by blast
qed

lemma code_erase_writes:
  assumes "eeprom_bus (eeprom_i2c B) mem" "write_cycles (eeprom_i2c B) busy" "app_inv a" "kept mem busy a"
    "code_erase B argv (a, n) = ((a1, n1), Erased st cleared written failed, 0)"
  shows "failed = 0" "kept mem busy a1" "seq_of a1 = seq_of a" "''yes'' \<in> set (map cstr (drop 2 argv))"
    "\<forall>j<AC_MAX_SLOTS. wiped_slot mem (''all'' \<in> set (map cstr (drop 2 argv))) [0..<AC_MAX_SLOTS] j a a1"
proof -
  let ?force = "''all'' \<in> set (map cstr (drop 2 argv))"
  obtain a' c w f where l: "fold (erase_slot B ?force) [0..<AC_MAX_SLOTS] (a, 0, 0, 0) = (a', c, w, f)" by (rule prod_cases4)
  have "a1 = a' \<and> failed = f \<and> ''yes'' \<in> set (map cstr (drop 2 argv))"
    using assms(5) unfolding code_erase_def Let_def by (simp only: l prod.case split: if_splits) auto
  then have a1: "a1 = a'" "failed = f" "''yes'' \<in> set (map cstr (drop 2 argv))" by blast+
  have d: "ready busy (a_persist a)" "ac_good (access a)" using assms(3,4) by (simp_all add: kept_def app_inv_def gate_inv_def)
  have ss: "distinct [0..<AC_MAX_SLOTS]" "set [0..<AC_MAX_SLOTS] \<subseteq> {..<AC_MAX_SLOTS}" by (simp, auto simp del: upt_rec_numeral)
  note e = erase_loop_chip [OF assms(1,2) d ss l]
  show "failed = 0" "''yes'' \<in> set (map cstr (drop 2 argv))" using e a1 by simp_all
  show "\<forall>j<AC_MAX_SLOTS. wiped_slot mem ?force [0..<AC_MAX_SLOTS] j a a1" using e a1(1) by blast
  have "tame {} a a'" using erase_loop_tame [of "{}" a B ?force "[0..<AC_MAX_SLOTS]" "(0, 0, 0)"] l by simp
  then show "kept mem busy a1" using kept_touches [OF assms(4), of a'] e by (simp add: a1(1) tame_def)
  show "seq_of a1 = seq_of a" using e by (simp add: a1(1) touches_def)
qed


text \<open>When the commands succeed.\<close>

lemma add_code_succeeds:
  assumes "\<forall>m. length (sha256 B m) = AC_HASH_LEN" "app_inv a" "ac_clock_trusted (access a)" "ac_format_valid (Some code)"
    "ac_count (access a) < AC_MAX_SLOTS" "0 < secs"
  shows "\<exists>a' k. add_code B now code secs persistent (a, n) =
    ((a', if persistent then n else n + 1), Inr (k, if persistent then stored_id now else dev_id (n + 1))) \<and>
    k < AC_MAX_SLOTS \<and> a_persist a' = a_persist a"
proof -
  let ?h = "gate_app_hash B a code" and ?c = "if persistent then stored_id now else dev_id (n + 1)"
  let ?u = "if persistent then now + secs else if now + secs > now - 60 + AC_TRANSIENT_MAX_S then now - 60 + AC_TRANSIENT_MAX_S else now + secs"
  have inv: "ac_inv (access a)" using assms(2) by (simp add: app_inv_def gate_inv_def ac_good_def)
  have f: "id_fits ?c" "length ?h = AC_HASH_LEN" "now - 60 < ?u"
    using assms(1,6) by (simp_all add: stored_id_fits dev_id_fits gate_app_hash_def hash_code_length)
  obtain k where k: "k < AC_MAX_SLOTS" "snd (upsert (access a) (Some ?c) (Some ?h) (now - 60) ?u (\<not> persistent)) = Some k"
    using upsert_held [OF inv f disjI2 [OF assms(5)], of "\<not> persistent"] by metis
  obtain ac where u: "upsert (access a) (Some ?c) (Some ?h) (now - 60) ?u (\<not> persistent) = (ac, Some k)"
    using k(2) by (metis prod.collapse)
  show ?thesis
  proof (cases persistent)
    case True
    then show ?thesis using u k(1) assms(3,4) by (simp add: add_code_def ac_upsert_def)
  next
    case False
    then show ?thesis using u k(1) assms(3,4) by (simp add: add_code_def ac_upsert_transient_def Let_def)
  qed
qed

lemma code_persist_succeeds:
  assumes "\<forall>m. length (sha256 B m) = AC_HASH_LEN" "write_cycles (eeprom_i2c B) busy" "app_inv a" "kept mem busy a"
    "ac_clock_trusted (access a)" "ac_format_valid (Some (argv ! 2))" "ac_count (access a) < AC_MAX_SLOTS"
  shows "\<exists>a1 k. code_persist B e argv (a, n) = ((a1, n), Stored (cstr (stored_id (con_now e))) (persist_hours argv) k, 0)"
proof -
  have "0 < persist_hours argv * 3600" by (simp add: persist_hours_def Let_def)
  from add_code_succeeds [OF assms(1,3,5,6,7) this, of "con_now e" True n] obtain a' k where
    ad: "add_code B (con_now e) (argv ! 2) (persist_hours argv * 3600) True (a, n) = ((a', n), Inr (k, stored_id (con_now e)))"
    and k: "k < AC_MAX_SLOTS" and p: "a_persist a' = a_persist a" by auto
  have "ready busy (a_persist a')" using assms(4) p by (simp add: kept_def)
  then have "snd (persist_codes_save (eeprom_i2c B) (a_persist a') (access a') (int k)) = ESP_OK"
    using k by (intro codes_save_ready(1) [OF assms(2)]) simp_all
  then obtain q where "persist_codes_save (eeprom_i2c B) (a_persist a') (access a') (int k) = (q, ESP_OK)"
    by (metis prod.collapse)
  then show ?thesis by (simp add: code_persist_def ad)
qed

lemma code_add_succeeds:
  assumes "\<forall>m. length (sha256 B m) = AC_HASH_LEN" "app_inv a" "ac_clock_trusted (access a)" "ac_format_valid (Some (argv ! 2))"
    "ac_count (access a) < AC_MAX_SLOTS"
  shows "\<exists>a1. code_add B e argv (a, n) = ((a1, n + 1), Dev_added (cstr (dev_id (n + 1))) (add_minutes argv), 0)"
proof -
  have "0 < add_minutes argv * 60" by (simp add: add_minutes_def Let_def)
  from add_code_succeeds [OF assms this, of "con_now e" False n] show ?thesis by (auto simp: code_add_def)
qed

lemma code_erase_runs:
  assumes "stored_slots (access a) \<noteq> []" "''yes'' \<in> set (map cstr (drop 2 argv))"
  shows "\<exists>a1 st c w f. code_erase B argv (a, n) = ((a1, n), Erased st c w f, 0)"
proof -
  have "\<not> (filter (\<lambda>(i, cid, d). d) xs = [] \<and> filter (\<lambda>(i, cid, d). \<not> d) xs = [])" if "xs \<noteq> []" for xs :: "(nat \<times> string \<times> bool) list"
    using that by (cases xs) auto
  from this [OF assms(1)] assms(2) show ?thesis
    unfolding code_erase_def Let_def by (simp add: split_def del: upt_rec_numeral)
qed


section \<open>Properties\<close>

text \<open>C24: a code stored from the console survives a power cut.  When \<open>code persist\<close> says that the code
  is written, then, on a chip that ignores the bus for the time of a write cycle and answers
  otherwise, the boot after any run that follows, whatever was typed and delivered in it, puts into the slot it named the id it printed, the hash of the code and the
  window it announced; the attempt counter on the chip is still the one in force.\<close>

theorem persisted_code_comes_back:
  assumes "hmac_sized (hmac_sha256 B)" "\<forall>m. length (sha256 B m) = AC_HASH_LEN" "eeprom_bus (eeprom_i2c B) mem"
    "write_cycles (eeprom_i2c B) busy" "app_inv a" "kept mem busy a"
    "code_persist B e argv (a, n) = ((a1, n1), Stored cid hours k, 0)" "60 \<le> con_now e" "con_now e + hours * 3600 < 2 ^ 32"
    "seq_of a + run_saves B a1 evs < 2 ^ 32 - 1"
    "a_persist b = persist_statics (bus (a_persist (foldl (sys_step B) a1 evs)))" "length (slots (access b)) = AC_MAX_SLOTS"
  shows "cid = cstr (stored_id (con_now e)) \<and> 1 \<le> hours \<and> hours \<le> 720 \<and> kept mem busy a1 \<and>
    slots (access (boot_persist B True b)) ! k = stored_slot (con_now e) (gate_app_hash B a (argv ! 2)) hours"
proof -
  note w = code_persist_writes [OF assms(2-7)]
  have h: "1 \<le> hours" "hours \<le> 720" unfolding w(5) by (simp_all add: persist_hours_def Let_def)
  have sq: "seq_of a1 + run_saves B a1 evs < 2 ^ 32 - 1" using assms(10) by (simp only: w(2))
  have k: "k < PC_SLOTS" using w(3) by simp
  have "slots (access (boot_persist B True b)) ! k =
      (if occupied (slots (access a1) ! k) then slots (access a1) ! k else slots (access b) ! k)"
    using assms(8,9) h(1)
    by (intro held_comes_back [OF assms(1,3,4) w(1) sq assms(11,12) k w(7,8)]) (simp_all add: w(6) stored_slot_def)
  then show ?thesis using w(1,4,6) h by (simp add: stored_slot_def)
qed

text \<open>C25: \<open>code erase\<close> takes what it may and nothing else, and for good.  It needs \<open>yes\<close>; without
  \<open>all\<close> a guest's stored code stays in the table and its record on the chip, byte for byte, so the
  next boot restores what it would have restored; every other slot is empty at once and, on a chip
  that ignores the bus for the time of a write cycle and answers otherwise, nothing comes back into
  it at the boot after any run.\<close>

theorem erase_spares_guests:
  assumes "hmac_sized (hmac_sha256 B)" "eeprom_bus (eeprom_i2c B) mem" "write_cycles (eeprom_i2c B) busy" "app_inv a" "kept mem busy a"
    "code_erase B argv (a, n) = ((a1, n1), Erased st cleared written failed, 0)" "seq_of a + run_saves B a1 evs < 2 ^ 32 - 1"
    "a_persist b = persist_statics (bus (a_persist (foldl (sys_step B) a1 evs)))" "length (slots (access b)) = AC_MAX_SLOTS"
    "k < AC_MAX_SLOTS"
  shows "failed = 0 \<and> ''yes'' \<in> set (map cstr (drop 2 argv)) \<and> kept mem busy a1 \<and>
    (if spared (''all'' \<in> set (map cstr (drop 2 argv))) (slots (access a) ! k)
     then slots (access a1) ! k = slots (access a) ! k \<and>
       slots (access (boot_persist B True b)) ! k = loaded_slot (code_region (mem (bus (a_persist a))) k) (slots (access b) ! k)
     else slots (access a1) ! k = zero_slot \<and> slots (access (boot_persist B True b)) ! k = slots (access b) ! k)"
proof -
  let ?force = "''all'' \<in> set (map cstr (drop 2 argv))"
  note w = code_erase_writes [OF assms(2-6)]
  have sq: "seq_of a1 + run_saves B a1 evs < 2 ^ 32 - 1" using assms(7) by (simp only: w(3))
  have k: "k < PC_SLOTS" using assms(10) by simp
  have ks: "k \<in> set [0..<AC_MAX_SLOTS]" using assms(10) by (simp del: upt_rec_numeral)
  have wk: "wiped_slot mem ?force [0..<AC_MAX_SLOTS] k a a1" using w(5) assms(10) by blast
  note boot = run_then_boot [OF assms(1-3) w(2) sq assms(8,9) k]
  have "if spared ?force (slots (access a) ! k)
     then slots (access a1) ! k = slots (access a) ! k \<and>
       slots (access (boot_persist B True b)) ! k = loaded_slot (code_region (mem (bus (a_persist a))) k) (slots (access b) ! k)
     else slots (access a1) ! k = zero_slot \<and> slots (access (boot_persist B True b)) ! k = slots (access b) ! k"
  proof (cases "spared ?force (slots (access a) ! k)")
    case True
    then show ?thesis using wk unfolding boot by (simp only: wiped_slot_def simp_thms if_True if_False)
  next
    case False
    then have "holds_slot mem (a_persist a1) k zero_slot" "slots (access a1) ! k = zero_slot"
      using wk ks by (simp_all only: wiped_slot_def simp_thms if_True)
    then show ?thesis
      using held_comes_back [OF assms(1-3) w(2) sq assms(8,9) k, of zero_slot] False by (simp only: if_False) simp
  qed
  then show ?thesis using w(1,2,4) by blast
qed

text \<open>C36: a development code lives fourteen minutes at most.  When \<open>code add\<close> reports a code valid
  for some number of minutes, from 1 to 15, the table has gained exactly that code, transient, from
  a minute ago; but the fifteen minutes a transient code may last count from there, so of fifteen
  announced minutes the code gets fourteen.\<close>

theorem dev_code_lives_fourteen_minutes:
  assumes "\<forall>m. length (sha256 B m) = AC_HASH_LEN" "app_inv a" "code_add B e argv (a, n) = ((a1, n1), Dev_added cid minutes, 0)"
  shows "1 \<le> minutes \<and> minutes \<le> 15 \<and> ac_table (access a1) = (ac_table (access a))
    (cid \<mapsto> (gate_app_hash B a (argv ! 2), con_now e - 60, con_now e + min (minutes * 60) (14 * 60), True))"
proof -
  let ?h = "gate_app_hash B a (argv ! 2)" and ?m = "add_minutes argv"
  obtain a' n' r where ad: "add_code B (con_now e) (argv ! 2) (?m * 60) False (a, n) = ((a', n'), r)"
    by (metis prod.collapse)
  obtain k c where r: "r = Inr (k, c)" "a1 = a'" "cid = cstr c" "minutes = ?m"
    using assms(3) ad by (cases r) (auto simp: code_add_def)
  have m: "1 \<le> ?m" "?m \<le> 15" by (simp_all add: add_minutes_def Let_def)
  let ?u = "con_now e + min (?m * 60) (14 * 60)"
  have "\<exists>ac. a' = set_access ac a \<and> c = dev_id n' \<and>
      ac_upsert_transient (access a) (Some c) (Some ?h) (con_now e - 60) (con_now e + ?m * 60) = (ac, Some k)"
    using ad by (cases rule: add_code_cases) (auto simp: r(1) split: option.splits)
  then obtain ac where ac: "a' = set_access ac a" "c = dev_id n'"
    "ac_upsert_transient (access a) (Some c) (Some ?h) (con_now e - 60) (con_now e + ?m * 60) = (ac, Some k)" by blast
  have u: "upsert (access a) (Some c) (Some ?h) (con_now e - 60) ?u True = (ac, Some k)"
    using ac(3) by (simp add: ac_upsert_transient_def Let_def min_def add.commute split: if_splits)
  have inv: "ac_inv (access a)" using assms(2) by (simp add: app_inv_def gate_inv_def ac_good_def)
  have f: "id_fits c" "length ?h = AC_HASH_LEN" "con_now e - 60 < ?u"
    using assms(1) m(1) by (simp_all add: ac(2) dev_id_fits gate_app_hash_def hash_code_length)
  have "ac_table (access a) (cstr c) \<noteq> None \<or> ac_count (access a) < AC_MAX_SLOTS"
    using upsert_refused [OF inv, of c ?u "con_now e - 60" ?h True] u ac_count_le [OF inv] by force
  from upsert_held [OF inv f this, of True] u have "ac_table ac = (ac_table (access a))(cstr c \<mapsto> (?h, con_now e - 60, ?u, True))"
    by (metis fst_conv)
  then show ?thesis using m by (simp add: r ac(1))
qed


text \<open>A stored code removed with \<open>code del\<close> stays removed: no boot after a run brings it back.\<close>

theorem deleted_code_stays_deleted:
  assumes "hmac_sized (hmac_sha256 B)" "eeprom_bus (eeprom_i2c B) mem" "write_cycles (eeprom_i2c B) busy" "app_inv a" "kept mem busy a"
    "code_del B argv (a, n) = ((a1, n1), Removed cid True, 0)" "seq_of a + run_saves B a1 evs < 2 ^ 32 - 1"
    "a_persist b = persist_statics (bus (a_persist (foldl (sys_step B) a1 evs)))" "length (slots (access b)) = AC_MAX_SLOTS"
  shows "\<exists>k<AC_MAX_SLOTS. cstr (slot_id (slots (access a) ! k)) = cstr (argv ! 2) \<and> slots (access a1) ! k = zero_slot \<and>
    slots (access (boot_persist B True b)) ! k = slots (access b) ! k"
proof -
  obtain k where k: "k < AC_MAX_SLOTS" "cstr (slot_id (slots (access a) ! k)) = cstr (argv ! 2)" "kept mem busy a1"
    "seq_of a1 = seq_of a" "slots (access a1) ! k = zero_slot" "holds_slot mem (a_persist a1) k zero_slot"
    using code_del_writes [OF assms(2-6)] by blast
  have sq: "seq_of a1 + run_saves B a1 evs < 2 ^ 32 - 1" using assms(7) by (simp only: k(4))
  have "k < PC_SLOTS" using k(1) by simp
  from held_comes_back [OF assms(1-3) k(3) sq assms(8,9) this k(6)] have
    "slots (access (boot_persist B True b)) ! k = slots (access b) ! k" by simp
  with k show ?thesis by blast
qed

text \<open>\<open>code erase\<close> lists \<open>stored codes on the chip\<close> from the table, not from the chip.  When the table
  holds no stored code, because a delivered set has replaced them, it says there is none and
  writes nothing, also with \<open>all yes\<close>; the boot then restores every record the chip still holds.\<close>

theorem erase_misses_the_chip:
  assumes "hmac_sized (hmac_sha256 B)" "eeprom_bus (eeprom_i2c B) mem" "write_cycles (eeprom_i2c B) busy" "kept mem busy a"
    "stored_slots (access a) = []" "a_persist b = persist_statics (bus (a_persist (fst (fst (code_erase B argv (a, n))))))"
    "length (slots (access b)) = AC_MAX_SLOTS" "seq_of a < 2 ^ 32 - 1" "k < PC_SLOTS"
  shows "code_erase B argv (a, n) = ((a, n), Nothing_stored, 0) \<and>
    slots (access (boot_persist B True b)) ! k = loaded_slot (code_region (mem (bus (a_persist a))) k) (slots (access b) ! k)"
proof -
  have e: "code_erase B argv (a, n) = ((a, n), Nothing_stored, 0)" by (simp add: code_erase_def assms(5))
  have "seq_of a + run_saves B a [] < 2 ^ 32 - 1" using assms(8) by simp
  from run_then_boot [OF assms(1-4) this _ assms(7,9)] assms(6) e show ?thesis by simp
qed


subsection \<open>Witnesses\<close>

definition demo_con :: con_env where
  "demo_con = \<lparr>con_now = 100, con_ms = 5, con_http = demo_http, con_probe = (\<lambda>_. False)\<rparr>"

abbreviation persist_words :: "string list" where "persist_words \<equiv> [''code'', ''persist'', ''123456AB*'', ''48'']"
abbreviation add_words :: "string list" where "add_words \<equiv> [''code'', ''add'', ''123456AB*'']"
abbreviation erase_words :: "string list" where "erase_words \<equiv> [''code'', ''erase'', ''yes'']"

lemma demo_powered_inv: "app_inv demo_powered"
  using eight_keys_inv demo_app_inv [of eight_keys "[KP_EV_PRESS CHR ''*'']"] demo_powered(3) by (simp add: app_inv_def)

lemma demo_words:
  "persist_hours persist_words = 48" "add_minutes add_words = 15" "ac_format_valid (Some ''123456AB*'')"
  "ac_clock_trusted (g_ac eight_keys)" "ac_count (g_ac eight_keys) = 1"
  by code_simp+

lemma demo_room: "ac_table (g_ac eight_keys) c \<noteq> None \<or> ac_count (g_ac eight_keys) < AC_MAX_SLOTS"
  using demo_words(5) by simp

abbreviation fresh_app where
  "fresh_app p \<equiv> (demo_app (demo_gate\<lparr>g_ac := ac_init 2 300\<rparr>) [])\<lparr>a_persist := persist_statics (bus p)\<rparr>"

theorem persisted_code_comes_back_witness:
  "\<exists>a1 k. code_persist demo_board demo_con persist_words (demo_powered, 0) = ((a1, 0), Stored (cstr (stored_id 100)) 48 k, 0) \<and>
     slots (access (boot_persist demo_board True (fresh_app (a_persist a1)))) ! k =
       stored_slot 100 (gate_app_hash demo_board demo_powered ''123456AB*'') 48"
proof -
  have now: "con_now demo_con = 100" by (simp add: demo_con_def)
  have t: "ac_clock_trusted (access demo_powered)" "ac_count (access demo_powered) < AC_MAX_SLOTS"
    "ac_format_valid (Some (persist_words ! 2))"
    using demo_words(3,4,5) demo_powered(3) by simp_all
  from code_persist_succeeds [OF demo_sized(2) demo_eeprom(2) demo_powered_inv demo_powered(1) t(1,3,2), of demo_con 0]
  obtain a1 k where c: "code_persist demo_board demo_con persist_words (demo_powered, 0) = ((a1, 0), Stored (cstr (stored_id 100)) 48 k, 0)"
    unfolding now demo_words(1) by blast
  have "seq_of demo_powered + run_saves demo_board a1 [] < 2 ^ 32 - 1" using demo_powered(2) by simp
  from persisted_code_comes_back [OF demo_sized demo_eeprom demo_powered_inv demo_powered(1) c, of "[]" "fresh_app (a_persist a1)"] this
  show ?thesis using c by (simp add: now ac_init_def)
qed

theorem dev_code_lives_fourteen_minutes_witness:
  "\<exists>a1. code_add demo_board demo_con add_words (demo_powered, 0) = ((a1, 1), Dev_added (cstr (dev_id 1)) 15, 0) \<and>
     ac_table (access a1) (cstr (dev_id 1)) = Some (gate_app_hash demo_board demo_powered ''123456AB*'', 40, 940, True)"
proof -
  have t: "ac_clock_trusted (access demo_powered)" "ac_count (access demo_powered) < AC_MAX_SLOTS"
    "ac_format_valid (Some (add_words ! 2))"
    using demo_words(3,4,5) demo_powered(3) by simp_all
  from code_add_succeeds [OF demo_sized(2) demo_powered_inv t(1,3,2), of demo_con 0]
  obtain a1 where c: "code_add demo_board demo_con add_words (demo_powered, 0) = ((a1, 1), Dev_added (cstr (dev_id 1)) 15, 0)"
    unfolding demo_words(2) by auto
  from dev_code_lives_fourteen_minutes [OF demo_sized(2) demo_powered_inv c] c show ?thesis by (simp add: demo_con_def)
qed

text \<open>The table of the demonstration holds one guest code, which stays.\<close>

lemma demo_guest:
  "stored_slots (g_ac eight_keys) \<noteq> []" "spared False (slots (g_ac eight_keys) ! 0)"
  by code_simp+

theorem erase_spares_guests_witness:
  "\<exists>a1 st c w. code_erase demo_board erase_words (demo_powered, 0) = ((a1, 0), Erased st c w 0, 0) \<and>
     slots (access a1) ! 0 = slots (access demo_powered) ! 0 \<and> slots (access a1) ! 1 = zero_slot"
proof -
  have s: "stored_slots (access demo_powered) \<noteq> []" using demo_guest(1) demo_powered(3) by simp
  obtain a1 st c w f where e: "code_erase demo_board erase_words (demo_powered, 0) = ((a1, 0), Erased st c w f, 0)"
    using code_erase_runs [OF s, of erase_words demo_board 0] by auto
  have q: "seq_of demo_powered + run_saves demo_board a1 [] < 2 ^ 32 - 1" using demo_powered(2) by simp
  have l: "length (slots (access (fresh_app (a_persist a1)))) = AC_MAX_SLOTS" by (simp add: ac_init_def)
  have p: "a_persist (fresh_app (a_persist a1)) = persist_statics (bus (a_persist (foldl (sys_step demo_board) a1 [])))" by simp
  have all: "''all'' \<notin> set (map cstr (drop 2 erase_words))" by simp
  note r = erase_spares_guests [OF demo_sized(1) demo_eeprom demo_powered_inv demo_powered(1) e q p l]
  have "\<not> spared False (slots (g_ac eight_keys) ! 1)" by code_simp
  then show ?thesis using r [of 0] r [of 1] all demo_guest(2) demo_powered(3) e by simp
qed

end
