(* ===== verification/Prov_Dns.thy ===== *)
theory Prov_Dns
  imports Wifi_Prov
begin

text \<open>
  The name service of the portal as a client sees it.  The answers of \<open>dns_turn\<close> are read here the
  way RFC 1035 says: names are sequences of labels, a byte of 192 or more starts a pointer, and the
  records of the answer section follow the question.
\<close>

section \<open>Messages\<close>

definition label_ok :: "u8 list \<Rightarrow> bool" where
  "label_ok l \<longleftrightarrow> 1 \<le> length l \<and> length l < 64"

definition encode_name :: "u8 list list \<Rightarrow> u8 list" where
  "encode_name ls = concat (map (\<lambda>l. of_nat (length l) # l) ls) @ [0]"

text \<open>The labels of the name at an offset; the fuel bounds the labels and pointers followed.\<close>

fun labels_at :: "u8 list \<Rightarrow> nat \<Rightarrow> nat \<Rightarrow> u8 list list option" where
  "labels_at msg 0 off = None"
| "labels_at msg (Suc n) off =
     (if off \<ge> length msg then None
      else if msg ! off = 0 then Some []
      else if msg ! off \<ge> 0xC0 then
        (if off + 1 < length msg then labels_at msg n (unat (msg ! off) mod 64 * 256 + unat (msg ! (off + 1))) else None)
      else if msg ! off \<ge> 64 \<or> off + 1 + unat (msg ! off) > length msg then None
      else map_option (Cons (take (unat (msg ! off)) (drop (off + 1) msg))) (labels_at msg n (off + 1 + unat (msg ! off))))"

text \<open>What follows a name.\<close>

function skip_name :: "u8 list \<Rightarrow> u8 list option" where
  "skip_name [] = None"
| "skip_name (b # r) =
     (if b = 0 then Some r
      else if b \<ge> 0xC0 then (case r of [] \<Rightarrow> None | _ # r \<Rightarrow> Some r)
      else if b \<ge> 64 \<or> length r < unat b then None
      else skip_name (drop (unat b) r))"
  by pat_completeness auto
termination by (relation "measure length") auto

definition be16 :: "u8 \<Rightarrow> u8 \<Rightarrow> nat" where
  "be16 a b = unat a * 256 + unat b"

datatype rr = RR (rr_owner: "u8 list list") (rr_type: nat) (rr_class: nat) (rr_data: "u8 list")

text \<open>The first record of the answer section of a positive response to one question.\<close>

definition record_at :: "u8 list \<Rightarrow> nat \<Rightarrow> rr option" where
  "record_at msg off =
     (case (labels_at msg (length msg) off, skip_name (drop off msg)) of
        (Some owner, Some (t0 # t1 # c0 # c1 # _ # _ # _ # _ # l0 # l1 # r)) \<Rightarrow>
          if be16 l0 l1 \<le> length r then Some (RR owner (be16 t0 t1) (be16 c0 c1) (take (be16 l0 l1) r)) else None
      | _ \<Rightarrow> None)"

definition first_answer :: "u8 list \<Rightarrow> rr option" where
  "first_answer msg =
     (if length msg < 12 \<or> msg ! 2 AND 0x80 = 0 \<or> msg ! 3 AND 0x0F \<noteq> 0 \<or> be16 (msg ! 4) (msg ! 5) \<noteq> 1 \<or>
         be16 (msg ! 6) (msg ! 7) = 0 then None
      else (case skip_name (drop 12 msg) of
              Some (_ # _ # _ # _ # r) \<Rightarrow> record_at msg (length msg - length r)
            | _ \<Rightarrow> None))"

text \<open>A query with one question: two bytes of identification, the flags, no record but those \<open>extra\<close>
  has, the name, its type and class.\<close>

definition query :: "u8 \<times> u8 \<Rightarrow> u8 \<times> u8 \<Rightarrow> u8 \<Rightarrow> u8 list list \<Rightarrow> u8 list \<Rightarrow> u8 list \<Rightarrow> u8 list" where
  "query qid flags additional ls tc extra =
     [fst qid, snd qid, fst flags, snd flags, 0, 1, 0, 0, 0, 0, 0, additional] @ encode_name ls @ tc @ extra"


section \<open>Reading names\<close>

lemma skip_encoded: "\<forall>l\<in>set ls. label_ok l \<Longrightarrow> skip_name (encode_name ls @ r) = Some r"
proof (induction ls)
  case (Cons l ls)
  have l: "1 \<le> length l" "length l < 64" using Cons.prems by (simp_all add: label_ok_def)
  then have n: "unat (of_nat (length l) :: u8) = length l" by (simp add: unat_of_nat)
  have "(of_nat (length l) :: u8) \<noteq> 0" "\<not> (of_nat (length l) :: u8) \<ge> 0xC0" "\<not> (of_nat (length l) :: u8) \<ge> 64"
    using l n by (auto simp: word_le_nat_alt)
  then show ?case using Cons n by (simp add: encode_name_def)
qed (simp add: encode_name_def)

lemma labels_encoded:
  assumes "\<forall>l\<in>set ls. label_ok l" "drop off msg = encode_name ls @ r" "length ls < n"
  shows "labels_at msg n off = Some ls"
  using assms
proof (induction ls arbitrary: off n)
  case Nil
  obtain m where n: "n = Suc m" using Nil.prems(3) by (cases n) auto
  have d: "drop off msg = 0 # r" using Nil.prems(2) by (simp add: encode_name_def)
  then have off: "off < length msg" by (metis drop_all list.distinct(1) not_le)
  then have "msg ! off = 0" using d by (metis hd_drop_conv_nth list.sel(1))
  with off show ?case by (simp add: n)
next
  case (Cons l ls)
  obtain m where n: "n = Suc m" "length ls < m" using Cons.prems(3) by (cases n) auto
  have l: "1 \<le> length l" "length l < 64" using Cons.prems(1) by (simp_all add: label_ok_def)
  let ?b = "of_nat (length l) :: u8"
  have u: "unat ?b = length l" using l by (simp add: unat_of_nat)
  have b: "?b \<noteq> 0" "\<not> ?b \<ge> 0xC0" "\<not> ?b \<ge> 64" using l u by (auto simp: word_le_nat_alt)
  have d: "drop off msg = ?b # l @ encode_name ls @ r" using Cons.prems(2) by (simp add: encode_name_def)
  have off: "off < length msg" using d by (metis drop_all list.distinct(1) not_le)
  have at: "msg ! off = ?b" using d off by (metis hd_drop_conv_nth list.sel(1))
  have d1: "drop (off + 1) msg = l @ encode_name ls @ r" using d by (metis drop_Suc Suc_eq_plus1 list.sel(3) tl_drop)
  have "drop (length l) (drop (off + 1) msg) = encode_name ls @ r" by (simp only: d1) simp
  then have d2: "drop (off + 1 + length l) msg = encode_name ls @ r" by (simp add: add.commute)
  have len: "off + 1 + length l \<le> length msg" using arg_cong [OF d1, of length] off by simp
  have "labels_at msg m (off + 1 + length l) = Some ls" using Cons.IH [OF _ d2 n(2)] Cons.prems(1) by simp
  then show ?case using b off len d1 by (simp add: n at u)
qed


section \<open>The answer\<close>

text \<open>The message the code builds for a query.\<close>

lemma reply_of_query:
  assumes "fst flags AND 0x80 = 0" "length (query qid flags additional ls tc extra) \<le> DNS_MAX_LEN"
  shows "dns_turn (Some (query qid flags additional ls tc extra)) =
    Some ([fst qid, snd qid, 0x81, 0x80, 0, 1, 0, 1, 0, 0, 0, 0] @ encode_name ls @ tc @ extra @
      [0xC0, 0x0C, 0, 1, 0, 1, 0, 0, 0, DNS_TTL, 0, 4] @ PROV_AP_ADDR)"
  using assms by (simp add: dns_turn_def build_reply_def query_def Let_def)

lemma length_encode_name: "length ls < length (encode_name ls)"
  by (induction ls) (simp_all add: encode_name_def)

text \<open>The records of a message with such a header and question.\<close>

lemma first_answer_after:
  assumes "\<forall>l\<in>set ls. label_ok l" "length tc = 4"
    "msg = [i0, i1, 0x81, 0x80, 0, 1, 0, 1, 0, 0, 0, 0] @ encode_name ls @ tc @ r"
  shows "first_answer msg = record_at msg (length msg - length r)"
    "drop (length msg - length r) msg = r" "labels_at msg (length msg - 1) 12 = Some ls"
proof -
  have d: "drop 12 msg = encode_name ls @ tc @ r" by (simp add: assms(3))
  obtain a b c e where tc: "tc = [a, b, c, e]" using assms(2) by (auto simp: numeral_eq_Suc length_Suc_conv)
  have "skip_name (drop 12 msg) = Some (a # b # c # e # r)"
    using skip_encoded [OF assms(1), of "tc @ r"] by (simp add: d tc)
  moreover have "length msg \<ge> 12" "msg ! 2 = 0x81" "msg ! 3 = 0x80" "msg ! 4 = 0" "msg ! 5 = 1" "msg ! 6 = 0" "msg ! 7 = 1"
    by (simp_all add: assms(3))
  ultimately show "first_answer msg = record_at msg (length msg - length r)"
    by (simp add: first_answer_def be16_def)
  obtain p where "msg = p @ r" using assms(3) by (metis append.assoc)
  then show "drop (length msg - length r) msg = r" by simp
  have "length ls < length msg - 1" using length_encode_name [of ls] by (simp add: assms(3))
  then show "labels_at msg (length msg - 1) 12 = Some ls" using labels_encoded [OF assms(1) d] by simp
qed

section \<open>Properties\<close>

text \<open>C33: whatever name is asked for, the client is sent to the portal.  Any query with one question
  and nothing behind it, up to the size the task reads, gets an answer that carries its
  identification and resolves the very name of the question, in the class of the internet, to the
  address of the access point.\<close>

theorem any_name_is_the_portal:
  assumes "\<forall>l\<in>set ls. label_ok l" "length tc = 4" "fst flags AND 0x80 = 0"
    "length (query qid flags 0 ls tc []) \<le> DNS_MAX_LEN"
  shows "\<exists>msg. dns_turn (Some (query qid flags 0 ls tc [])) = Some msg \<and> take 2 msg = [fst qid, snd qid] \<and>
    first_answer msg = Some (RR ls 1 1 PROV_AP_ADDR)"
proof -
  let ?ans = "[0xC0, 0x0C, 0, 1, 0, 1, 0, 0, 0, DNS_TTL, 0, 4] @ PROV_AP_ADDR"
  define msg where "msg = [fst qid, snd qid, 0x81, 0x80, 0, 1, 0, 1, 0, 0, 0, 0] @ encode_name ls @ tc @ ?ans"
  have t: "dns_turn (Some (query qid flags 0 ls tc [])) = Some msg"
    using reply_of_query [OF assms(3,4)] by (simp add: msg_def)
  note f = first_answer_after [OF assms(1,2) msg_def]
  let ?o = "length msg - length ?ans"
  have o: "?o + 16 = length msg" "drop ?o msg = ?ans" using f(2) by (simp_all add: msg_def)
  have at: "msg ! ?o = 0xC0" "msg ! (?o + 1) = 0x0C"
    using o by (metis (no_types) append_Cons nth_drop add_0_right nth_Cons_0 o(2) less_imp_le_nat diff_le_self,
      metis (no_types) append_Cons nth_drop nth_Cons_0 nth_Cons_Suc One_nat_def diff_le_self)
  obtain m where m: "length msg = Suc m" by (simp add: msg_def)
  have "labels_at msg (length msg) ?o = labels_at msg m 12" using o(1) at by (simp add: m)
  then have lab: "labels_at msg (length msg) ?o = Some ls" using f(3) by (simp add: m)
  have "skip_name ?ans = Some (drop 2 ?ans)" by simp
  then have "record_at msg ?o = Some (RR ls 1 1 PROV_AP_ADDR)"
    using lab f(2) by (simp add: record_at_def be16_def)
  then show ?thesis using t f(1) by (auto simp: msg_def)
qed

text \<open>An additional record spoils it.  A query that announces with an OPT record what the client can
  receive, as RFC 6891 has it, is answered with that very record in the place of the answer: the
  client finds a record of the root name and of type 41, and no address.\<close>

theorem extended_query_gets_no_address:
  assumes "\<forall>l\<in>set ls. label_ok l" "length tc = 4" "fst flags AND 0x80 = 0"
    "length (query qid flags 1 ls tc [0, 0, 41, s0, s1, 0, 0, 0, 0, 0, 0]) \<le> DNS_MAX_LEN"
  shows "\<exists>msg. dns_turn (Some (query qid flags 1 ls tc [0, 0, 41, s0, s1, 0, 0, 0, 0, 0, 0])) = Some msg \<and>
    first_answer msg = Some (RR [] 41 (be16 s0 s1) [])"
proof -
  let ?r = "[0, 0, 41, s0, s1, 0, 0, 0, 0, 0, 0] @ [0xC0, 0x0C, 0, 1, 0, 1, 0, 0, 0, DNS_TTL, 0, 4] @ PROV_AP_ADDR"
  define msg where "msg = [fst qid, snd qid, 0x81, 0x80, 0, 1, 0, 1, 0, 0, 0, 0] @ encode_name ls @ tc @ ?r"
  have t: "dns_turn (Some (query qid flags 1 ls tc [0, 0, 41, s0, s1, 0, 0, 0, 0, 0, 0])) = Some msg"
    using reply_of_query [OF assms(3,4)] by (simp add: msg_def)
  note f = first_answer_after [OF assms(1,2) msg_def]
  let ?o = "length msg - length ?r"
  have "drop ?o msg = encode_name [] @ tl ?r" using f(2) by (simp add: encode_name_def)
  from labels_encoded [OF _ this, of "length msg"] have lab: "labels_at msg (length msg) ?o = Some []" by (simp add: msg_def)
  have "skip_name ?r = Some (tl ?r)" by simp
  then have "record_at msg ?o = Some (RR [] 41 (be16 s0 s1) [])"
    using lab f(2) by (simp add: record_at_def be16_def)
  then show ?thesis using t f(1) by auto
qed

theorem any_name_is_the_portal_witness:
  "\<exists>msg. dns_turn (Some (query (7, 9) (1, 0) 0 [[99, 111], [97]] [0, 1, 0, 1] [])) = Some msg \<and>
     first_answer msg = Some (RR [[99, 111], [97]] 1 1 PROV_AP_ADDR)"
proof -
  have "\<forall>l\<in>set [[99, 111], [97]]. label_ok l" by (simp add: label_ok_def)
  from any_name_is_the_portal [OF this, of "[0, 1, 0, 1]" "(1, 0)" "(7, 9)"] show ?thesis
    by (auto simp: query_def encode_name_def)
qed

theorem extended_query_gets_no_address_witness:
  "\<exists>msg. dns_turn (Some (query (7, 9) (1, 0) 1 [[97]] [0, 1, 0, 1] [0, 0, 41, 16, 0, 0, 0, 0, 0, 0, 0])) = Some msg \<and>
     first_answer msg = Some (RR [] 41 4096 [])"
proof -
  have "\<forall>l\<in>set [[97]]. label_ok l" by (simp add: label_ok_def)
  from extended_query_gets_no_address [OF this, of "[0, 1, 0, 1]" "(1, 0)" "(7, 9)" 16 0] show ?thesis
    by (simp add: query_def encode_name_def be16_def)
qed

end
